(* ===== verification/Serval_Prelude.thy ===== *)
theory Serval_Prelude
  imports Main "HOL-Library.Word" "HOL-Library.Monad_Syntax"
begin

unbundle bit_operations_syntax

text \<open>
  Shared vocabulary of the development: the types that the C code's scalar types become, the
  conventions for memory, and the generic lemmas on lists, options and words that the components
  use.

  \<^item> \<open>unsigned char\<close> and \<open>uint8_t\<close> are \<open>byte\<close>; \<open>uint16_t\<close>, \<open>uint32_t\<close> and \<open>uint64_t\<close>
    are words of that width; \<open>size_t\<close> is a natural number with the wrap-around of a 64-bit
    \<open>size_t\<close> written out (\<open>size_add\<close>).
  \<^item> An operation that may stop the process (a failed \<open>assert\<close>) or have undefined behaviour
    (a memory access outside its object, a shift by the width of the type or more) returns an
    \<open>option\<close>: \<open>None\<close> is that outcome, so a theorem that an operation returns \<open>Some\<close> shows
    that neither happens.
  \<^item> A memory object is the list of its bytes; \<open>mem_read\<close> and \<open>mem_write\<close> are the accesses,
    with \<open>None\<close> outside the object.
\<close>

section \<open>Types and conventions\<close>

type_synonym byte = "8 word"
type_synonym uint16 = "16 word"
type_synonym uint32 = "32 word"
type_synonym uint64 = "64 word"

text \<open>
  \<open>malloc\<close>: the bytes of the fresh object, or \<open>None\<close> for \<open>NULL\<close>. The initial contents are
  arbitrary, the length is what was asked for.
\<close>

type_synonym allocator = "nat \<Rightarrow> byte list option"

definition malloc_ok :: "allocator \<Rightarrow> bool" where
  "malloc_ok al \<longleftrightarrow> (\<forall>n xs. al n = Some xs \<longrightarrow> length xs = n)"

definition SIZE_MAX :: nat where
  "SIZE_MAX = 2 ^ 64 - 1"

definition size_add :: "nat \<Rightarrow> nat \<Rightarrow> nat" where
  "size_add a b = (a + b) mod (SIZE_MAX + 1)"

definition assert :: "bool \<Rightarrow> unit option" where
  "assert p = (if p then Some () else None)"

definition mem_read :: "'a list \<Rightarrow> nat \<Rightarrow> nat \<Rightarrow> 'a list option" where
  "mem_read m i n = (if i + n \<le> length m then Some (take n (drop i m)) else None)"

definition mem_write :: "'a list \<Rightarrow> nat \<Rightarrow> 'a list \<Rightarrow> 'a list option" where
  "mem_write m i xs =
     (if i + length xs \<le> length m then Some (take i m @ xs @ drop (i + length xs) m) else None)"

named_theorems mem_simps \<open>facts on reads and writes of memory objects\<close>

section \<open>Options\<close>

lemma assert_simps [simp]:
  "assert True = Some ()"
  "assert False = None"
  "assert p = Some u \<longleftrightarrow> p"
  "assert p = None \<longleftrightarrow> \<not> p"
  by (simp_all add: assert_def)

lemma assert_bind [simp]: "assert p \<bind> f = (if p then f () else None)"
  by (simp add: assert_def)

section \<open>Sizes\<close>

lemma size_add_eq: "a + b \<le> SIZE_MAX \<Longrightarrow> size_add a b = a + b"
  by (simp add: size_add_def)

lemma size_add_le [simp]: "size_add a b \<le> SIZE_MAX"
  by (simp add: size_add_def flip: less_Suc_eq_le)

lemma size_add_0 [simp]: "a \<le> SIZE_MAX \<Longrightarrow> size_add a 0 = a"
  by (simp add: size_add_eq)

lemma SIZE_MAX_large: "2 ^ 32 < SIZE_MAX"
  by (simp add: SIZE_MAX_def)

section \<open>Memory\<close>

lemma take_eq_mono: "take q xs = take q ys \<Longrightarrow> p \<le> q \<Longrightarrow> take p xs = take p ys"
  by (metis min.absorb1 take_take)

lemma mem_write_length: "mem_write m i xs = Some m' \<Longrightarrow> length m' = length m"
  by (auto simp: mem_write_def split: if_splits)

lemma mem_write_Some [mem_simps]:
  "i + length xs \<le> length m \<Longrightarrow> mem_write m i xs = Some (take i m @ xs @ drop (i + length xs) m)"
  by (simp add: mem_write_def)

lemma mem_read_Some [mem_simps]:
  "i + n \<le> length m \<Longrightarrow> mem_read m i n = Some (take n (drop i m))"
  by (simp add: mem_read_def)

lemma mem_write_take:
  "mem_write m i xs = Some m' \<Longrightarrow> take (i + length xs) m' = take i m @ xs"
  by (auto simp: mem_write_def split: if_splits)

lemma mem_write_same:
  "mem_write m i xs = Some m' \<Longrightarrow> take i m' = take i m"
  by (auto simp: mem_write_def min_def split: if_splits)

lemma mem_read_length: "mem_read m i n = Some xs \<Longrightarrow> length xs = n"
  by (auto simp: mem_read_def split: if_splits)

section \<open>Words as byte sequences\<close>

text \<open>
  The byte of a word at a bit offset, as the C code extracts it: \<open>(v >> k) & 0xFF\<close> stored in an
  \<open>unsigned char\<close>.
\<close>

definition byte_at :: "nat \<Rightarrow> 'a::len word \<Rightarrow> byte" where
  "byte_at k v = ucast (drop_bit k v AND 0xFF)"

text \<open>The bits of the masks the code uses; on words they reduce to these facts on integers.\<close>

lemma bit_int_masks [simp]:
  "bit (0x7f :: int) n \<longleftrightarrow> n < 7"
  "bit (0xFF :: int) n \<longleftrightarrow> n < 8"
  "bit (0x80 :: int) n \<longleftrightarrow> n = 7"
proof -
  have "(0x7f :: int) = mask 7" "(0xFF :: int) = mask 8" "(0x80 :: int) = 2 ^ 7"
    by (simp_all add: mask_eq_exp_minus_1)
  then show "bit (0x7f :: int) n \<longleftrightarrow> n < 7" "bit (0xFF :: int) n \<longleftrightarrow> n < 8"
    "bit (0x80 :: int) n \<longleftrightarrow> n = 7"
    by (simp_all only: bit_mask_iff bit_exp_iff) auto
qed

lemma and_0x80_eq_0: "x AND 0x80 = 0 \<longleftrightarrow> \<not> bit x 7" for x :: "'a::len word"
  using and_exp_eq_0_iff_not_bit [of x 7] by simp

lemma bit_byte_at [simp]: "bit (byte_at k v) n \<longleftrightarrow> n < 8 \<and> bit v (k + n)"
  for v :: "'a::len word"
  by (auto simp: byte_at_def bit_simps dest: bit_imp_le_length)

text \<open>Shifting out seven bits makes a value smaller: the packed integer loops end.\<close>

lemma drop_bit_7_less: "drop_bit 7 v \<noteq> 0 \<Longrightarrow> unat (drop_bit 7 v) < unat v" for v :: "'a::len word"
proof -
  assume "drop_bit 7 v \<noteq> 0"
  then have "unat v \<noteq> 0"
    by (auto simp: unat_eq_zero)
  then have "unat v div 2 ^ 7 < unat v"
    by (intro div_less_dividend) auto
  then show ?thesis
    by (simp only: unat_drop_bit_eq) (simp add: drop_bit_eq_div)
qed

lemma bit_imp_le_unat: "bit v k \<Longrightarrow> 2 ^ k \<le> unat v" for v :: "'a::len word"
proof -
  assume "bit v k"
  then have "bit (unat v) k"
    by (simp add: bit_unsigned_iff)
  then have "unat v div 2 ^ k \<noteq> 0"
    by (metis bit_iff_odd even_zero)
  then show ?thesis
    by (metis div_less not_le)
qed

lemma unat_of_nat_small: "m < 2 ^ LENGTH('a) \<Longrightarrow> unat (of_nat m :: 'a::len word) = m"
  by (simp add: unsigned_of_nat take_bit_nat_eq_self)

end
