(* ===== verification/Overlay_Buffer.thy ===== *)
theory Overlay_Buffer
  imports Serval_Prelude
begin

text \<open>
  The byte buffers of \<open>overlay_buffer.c\<close> in which every packet of the overlay is built and from
  which it is parsed. A buffer is a memory object with a position that writes and reads advance,
  an optional size limit and a checkpoint to rewind to. Writers append without checking; an append
  that does not fit still advances the position, and the caller asks \<open>ob_overrun\<close> once at the end.

  The model keeps the struct's fields. The pointer \<open>bytes\<close> becomes the contents of the object it
  points to (\<open>None\<close> for \<open>NULL\<close>), and \<open>allocated\<close>, which is either \<open>NULL\<close> or equal to
  \<open>bytes\<close>, becomes a boolean. A buffer made by \<open>ob_static\<close> or \<open>ob_slice\<close> therefore holds a view
  of its memory as it was at the call; that the memory is shared with the caller's array or with
  the parent buffer is not represented.
\<close>

section \<open>The buffer and its operations\<close>

record overlay_buffer =
  bytes :: "byte list option"
  checkpointLength :: nat
  position :: nat
  sizeLimit :: nat
  allocSize :: nat
  allocated :: bool

text \<open>
  Accesses through \<open>b->bytes\<close>: undefined when the pointer is \<open>NULL\<close> or the range leaves the object.
\<close>

definition ob_read :: "overlay_buffer \<Rightarrow> nat \<Rightarrow> nat \<Rightarrow> byte list option" where
  "ob_read b i n = (case bytes b of None \<Rightarrow> None | Some m \<Rightarrow> mem_read m i n)"

definition ob_write :: "overlay_buffer \<Rightarrow> nat \<Rightarrow> byte list \<Rightarrow> overlay_buffer option" where
  "ob_write b i xs =
     (case bytes b of
        None \<Rightarrow> None
      | Some m \<Rightarrow> map_option (\<lambda>m'. b\<lparr>bytes := Some m'\<rparr>) (mem_write m i xs))"

text \<open>The struct as \<open>emalloc_zero\<close> returns it.\<close>

definition ob_zero :: overlay_buffer where
  "ob_zero = \<lparr>bytes = None, checkpointLength = 0, position = 0, sizeLimit = 0, allocSize = 0,
     allocated = False\<rparr>"

definition ob_unlimitsize :: "overlay_buffer \<Rightarrow> overlay_buffer" where
  "ob_unlimitsize b = b\<lparr>sizeLimit := SIZE_MAX\<rparr>"

text \<open>
  The constructors; \<open>mem\<close> says whether the allocation of the struct succeeds, and \<open>None\<close> is
  the \<open>NULL\<close> they return.
\<close>

definition ob_new :: "bool \<Rightarrow> overlay_buffer option" where
  "ob_new mem = (if mem then Some (ob_unlimitsize ob_zero) else None)"

definition ob_static :: "bool \<Rightarrow> byte list \<Rightarrow> nat \<Rightarrow> overlay_buffer option" where
  "ob_static mem m siz =
     (if mem
      then Some (ob_unlimitsize
        (ob_zero\<lparr>bytes := Some m, allocSize := siz, allocated := False\<rparr>))
      else None)"

text \<open>
  \<open>b->bytes + offset\<close> is a view of the object from that offset on; on a \<open>NULL\<close> buffer the
  pointer stays unusable.
\<close>

definition ob_slice :: "bool \<Rightarrow> overlay_buffer \<Rightarrow> nat \<Rightarrow> nat \<Rightarrow> overlay_buffer option" where
  "ob_slice mem b offset len =
     (if size_add offset len > allocSize b then None
      else if \<not> mem then None
      else Some (ob_unlimitsize
        (ob_zero\<lparr>bytes := map_option (\<lambda>m. take len (drop offset m)) (bytes b),
                 allocSize := len, allocated := False\<rparr>)))"

definition ob_checkpoint :: "overlay_buffer \<Rightarrow> overlay_buffer" where
  "ob_checkpoint b = b\<lparr>checkpointLength := position b\<rparr>"

definition ob_rewind :: "overlay_buffer \<Rightarrow> overlay_buffer" where
  "ob_rewind b = b\<lparr>position := checkpointLength b\<rparr>"

definition ob_limitsize :: "overlay_buffer \<Rightarrow> nat \<Rightarrow> overlay_buffer option" where
  "ob_limitsize b n = do {
     assert (n \<noteq> SIZE_MAX);
     assert (position b \<le> n);
     assert (checkpointLength b \<le> n);
     (if bytes b \<noteq> None \<and> \<not> allocated b then assert (n \<le> allocSize b) else Some ());
     Some (b\<lparr>sizeLimit := n\<rparr>)
   }"

definition ob_flip :: "overlay_buffer \<Rightarrow> overlay_buffer option" where
  "ob_flip b = do {
     let b = b\<lparr>checkpointLength := 0\<rparr>;
     b \<leftarrow> ob_limitsize b (position b);
     Some (b\<lparr>position := 0\<rparr>)
   }"

definition ob_clear :: "overlay_buffer \<Rightarrow> overlay_buffer" where
  "ob_clear b = ob_unlimitsize (b\<lparr>checkpointLength := 0, position := 0\<rparr>)"

text \<open>The size \<open>ob_makespace\<close> asks for: rounded up to multiples of 64, 1024 and 65536.\<close>

definition ob_newSize :: "nat \<Rightarrow> nat" where
  "ob_newSize n =
     (let s = (if n < 64 then 64 else n);
          s = (if s mod 64 \<noteq> 0 then size_add s (64 - s mod 64) else s);
          s = (if s > 1024 \<and> s mod 1024 \<noteq> 0 then size_add s (1024 - s mod 1024) else s)
      in if s > 65536 \<and> s mod 65536 \<noteq> 0 then size_add s (65536 - s mod 65536) else s)"

definition ob_makespace ::
  "allocator \<Rightarrow> overlay_buffer \<Rightarrow> nat \<Rightarrow> (overlay_buffer \<times> bool) option" where
  "ob_makespace al b n = do {
     (if position b \<noteq> 0 then assert (bytes b \<noteq> None) else Some ());
     (if size_add (position b) n > sizeLimit b then Some (b, False)
      else if size_add (position b) n \<le> allocSize b then Some (b, True)
      else if bytes b \<noteq> None \<and> \<not> allocated b then Some (b, False)
      else
        let newSize = ob_newSize (size_add (position b) n) in
        case al newSize of
          None \<Rightarrow> Some (b, False)
        | Some new \<Rightarrow> do {
            new \<leftarrow> (if position b \<noteq> 0
                    then do { old \<leftarrow> ob_read b 0 (position b); mem_write new 0 old }
                    else Some new);
            Some (b\<lparr>bytes := Some new, allocated := True, allocSize := newSize\<rparr>, True)
          })
   }"

definition ob_append_byte :: "allocator \<Rightarrow> overlay_buffer \<Rightarrow> byte \<Rightarrow> overlay_buffer option" where
  "ob_append_byte al b byte = do {
     (b, space) \<leftarrow> ob_makespace al b 1;
     b \<leftarrow> (if space then ob_write b (position b) [byte] else Some b);
     Some (b\<lparr>position := size_add (position b) 1\<rparr>)
   }"

text \<open>
  \<open>ob_append_space\<close> returns a pointer into the buffer for the caller to fill: the model returns
  the offset.
\<close>

definition ob_append_space ::
  "allocator \<Rightarrow> overlay_buffer \<Rightarrow> nat \<Rightarrow> (overlay_buffer \<times> nat option) option" where
  "ob_append_space al b count = do {
     assert (count > 0);
     (b, space) \<leftarrow> ob_makespace al b count;
     let r = (if space then Some (position b) else None);
     Some (b\<lparr>position := size_add (position b) count\<rparr>, r)
   }"

definition ob_append_bytes ::
  "allocator \<Rightarrow> overlay_buffer \<Rightarrow> byte list \<Rightarrow> overlay_buffer option" where
  "ob_append_bytes al b xs = do {
     assert (length xs > 0);
     (b, space) \<leftarrow> ob_makespace al b (length xs);
     b \<leftarrow> (if space then ob_write b (position b) xs else Some b);
     Some (b\<lparr>position := size_add (position b) (length xs)\<rparr>)
   }"

text \<open>The argument is the string without its terminator.\<close>

definition ob_append_str :: "allocator \<Rightarrow> overlay_buffer \<Rightarrow> byte list \<Rightarrow> overlay_buffer option" where
  "ob_append_str al b s = ob_append_bytes al b (s @ [0])"

definition ob_dup ::
  "bool \<Rightarrow> allocator \<Rightarrow> overlay_buffer \<Rightarrow> overlay_buffer option option" where
  "ob_dup mem al b =
     (if \<not> mem then Some None
      else
        let ret = ob_zero\<lparr>sizeLimit := sizeLimit b, position := position b,
                          checkpointLength := checkpointLength b\<rparr>
        in if bytes b \<noteq> None \<and> allocSize b \<noteq> 0
           then do {
             byteCount \<leftarrow>
               (if sizeLimit b \<noteq> SIZE_MAX
                then do { assert (position b \<le> sizeLimit b); Some (sizeLimit b) }
                else Some (position b));
             let byteCount = (if byteCount > allocSize b then allocSize b else byteCount);
             (if byteCount \<noteq> 0
              then do {
                src \<leftarrow> ob_read b 0 byteCount;
                ret \<leftarrow> ob_append_bytes al ret src;
                Some (Some ret)
              }
              else Some (Some ret))
           }
           else Some (Some ret))"

definition ob_append_ui16 :: "allocator \<Rightarrow> overlay_buffer \<Rightarrow> uint16 \<Rightarrow> overlay_buffer option" where
  "ob_append_ui16 al b v = do {
     (b, space) \<leftarrow> ob_makespace al b 2;
     b \<leftarrow> (if space then ob_write b (position b) [byte_at 8 v, byte_at 0 v] else Some b);
     Some (b\<lparr>position := size_add (position b) 2\<rparr>)
   }"

definition ob_append_ui16_rv ::
  "allocator \<Rightarrow> overlay_buffer \<Rightarrow> uint16 \<Rightarrow> overlay_buffer option" where
  "ob_append_ui16_rv al b v = do {
     (b, space) \<leftarrow> ob_makespace al b 2;
     b \<leftarrow> (if space then ob_write b (position b) [byte_at 0 v, byte_at 8 v] else Some b);
     Some (b\<lparr>position := size_add (position b) 2\<rparr>)
   }"

definition ob_append_ui32 :: "allocator \<Rightarrow> overlay_buffer \<Rightarrow> uint32 \<Rightarrow> overlay_buffer option" where
  "ob_append_ui32 al b v = do {
     (b, space) \<leftarrow> ob_makespace al b 4;
     b \<leftarrow> (if space
           then ob_write b (position b) [byte_at 24 v, byte_at 16 v, byte_at 8 v, byte_at 0 v]
           else Some b);
     Some (b\<lparr>position := size_add (position b) 4\<rparr>)
   }"

definition ob_append_ui32_rv ::
  "allocator \<Rightarrow> overlay_buffer \<Rightarrow> uint32 \<Rightarrow> overlay_buffer option" where
  "ob_append_ui32_rv al b v = do {
     (b, space) \<leftarrow> ob_makespace al b 4;
     b \<leftarrow> (if space
           then ob_write b (position b) [byte_at 0 v, byte_at 8 v, byte_at 16 v, byte_at 24 v]
           else Some b);
     Some (b\<lparr>position := size_add (position b) 4\<rparr>)
   }"

definition ob_append_ui64 :: "allocator \<Rightarrow> overlay_buffer \<Rightarrow> uint64 \<Rightarrow> overlay_buffer option" where
  "ob_append_ui64 al b v = do {
     (b, space) \<leftarrow> ob_makespace al b 8;
     b \<leftarrow> (if space
           then ob_write b (position b)
             [byte_at 56 v, byte_at 48 v, byte_at 40 v, byte_at 32 v,
              byte_at 24 v, byte_at 16 v, byte_at 8 v, byte_at 0 v]
           else Some b);
     Some (b\<lparr>position := size_add (position b) 8\<rparr>)
   }"

definition ob_append_ui64_rv ::
  "allocator \<Rightarrow> overlay_buffer \<Rightarrow> uint64 \<Rightarrow> overlay_buffer option" where
  "ob_append_ui64_rv al b v = do {
     (b, space) \<leftarrow> ob_makespace al b 8;
     b \<leftarrow> (if space
           then ob_write b (position b)
             [byte_at 0 v, byte_at 8 v, byte_at 16 v, byte_at 24 v,
              byte_at 32 v, byte_at 40 v, byte_at 48 v, byte_at 56 v]
           else Some b);
     Some (b\<lparr>position := size_add (position b) 8\<rparr>)
   }"

subsection \<open>Packed integers\<close>

text \<open>
  Seven bits a byte, least significant group first, the top bit set on every byte but the last.
\<close>

function measure_packed_uint :: "uint64 \<Rightarrow> nat" where
  "measure_packed_uint v =
     (if drop_bit 7 v \<noteq> 0 then Suc (measure_packed_uint (drop_bit 7 v)) else 1)"
  by pat_completeness auto
termination
  by (relation "measure unat") (use drop_bit_7_less in auto)

text \<open>\<open>pack_uint\<close> as the bytes it stores; its result is their number.\<close>

function pack_uint :: "uint64 \<Rightarrow> byte list" where
  "pack_uint v =
     ucast ((v AND 0x7f) OR (if v > 0x7f then 0x80 else 0)) #
     (if drop_bit 7 v \<noteq> 0 then pack_uint (drop_bit 7 v) else [])"
  by pat_completeness auto
termination
  by (relation "measure unat") (use drop_bit_7_less in auto)

declare measure_packed_uint.simps [simp del] pack_uint.simps [simp del]

text \<open>
  \<open>(byte & 0x7f) << shift\<close> is an \<open>int\<close>: undefined from a shift of 32 on, and sign-extended where
  it is combined with a 64-bit value. A shift into the sign bit gives the two's complement result.
\<close>

definition int_shl7 :: "byte \<Rightarrow> nat \<Rightarrow> uint32 option" where
  "int_shl7 byte shift = (if shift < 32 then Some (push_bit shift (ucast byte AND 0x7f)) else None)"

text \<open>The result is the return value (\<open>-1\<close>, or the bytes consumed) and the value stored.\<close>

function unpack_uint_loop :: "byte list \<Rightarrow> nat \<Rightarrow> nat \<Rightarrow> uint64 \<Rightarrow> (int \<times> uint64) option" where
  "unpack_uint_loop buffer buff_size i v =
     (if i \<ge> buff_size then Some (- 1, v)
      else if i \<ge> length buffer then None
      else case int_shl7 (buffer ! i) (i * 7) of
             None \<Rightarrow> None
           | Some d \<Rightarrow>
               (let v = v OR scast d
                in if buffer ! i AND 0x80 \<noteq> 0 then unpack_uint_loop buffer buff_size (i + 1) v
                   else Some (int i + 1, v)))"
  by pat_completeness auto
termination
  by (relation "measure (\<lambda>(buffer, buff_size, i, v). buff_size - i)") auto

declare unpack_uint_loop.simps [simp del]

definition unpack_uint :: "byte list \<Rightarrow> nat \<Rightarrow> (int \<times> uint64) option" where
  "unpack_uint buffer buff_size = unpack_uint_loop buffer buff_size 0 0"

function ob_append_packed_ui32 ::
  "allocator \<Rightarrow> overlay_buffer \<Rightarrow> uint32 \<Rightarrow> overlay_buffer option" where
  "ob_append_packed_ui32 al b v =
     (case ob_append_byte al b (ucast ((v AND 0x7f) OR (if v > 0x7f then 0x80 else 0))) of
        None \<Rightarrow> None
      | Some b \<Rightarrow>
          (if drop_bit 7 v \<noteq> 0 then ob_append_packed_ui32 al b (drop_bit 7 v) else Some b))"
  by pat_completeness auto
termination
  by (relation "measure (\<lambda>(al, b, v). unat v)") (use drop_bit_7_less in auto)

function ob_append_packed_ui64 ::
  "allocator \<Rightarrow> overlay_buffer \<Rightarrow> uint64 \<Rightarrow> overlay_buffer option" where
  "ob_append_packed_ui64 al b v =
     (case ob_append_byte al b (ucast ((v AND 0x7f) OR (if v > 0x7f then 0x80 else 0))) of
        None \<Rightarrow> None
      | Some b \<Rightarrow>
          (if drop_bit 7 v \<noteq> 0 then ob_append_packed_ui64 al b (drop_bit 7 v) else Some b))"
  by pat_completeness auto
termination
  by (relation "measure (\<lambda>(al, b, v). unat v)") (use drop_bit_7_less in auto)

declare ob_append_packed_ui32.simps [simp del] ob_append_packed_ui64.simps [simp del]

subsection \<open>Reading\<close>

text \<open>\<open>test_offset\<close> returns 0 when the range may be read; the model returns that verdict.\<close>

definition test_offset :: "overlay_buffer \<Rightarrow> nat \<Rightarrow> bool" where
  "test_offset b len \<longleftrightarrow>
     \<not> size_add (position b) len > sizeLimit b \<and> \<not> size_add (position b) len > allocSize b"

definition ob_peek :: "overlay_buffer \<Rightarrow> int option" where
  "ob_peek b =
     (if \<not> test_offset b 1 then Some (- 1)
      else map_option (\<lambda>xs. uint (hd xs)) (ob_read b (position b) 1))"

definition ob_skip :: "overlay_buffer \<Rightarrow> uint32 \<Rightarrow> overlay_buffer" where
  "ob_skip b n = b\<lparr>position := size_add (position b) (unat n)\<rparr>"

text \<open>
  The string that starts at the position: the loop reads \<open>ret[ofs]\<close> after \<open>test_offset(b, ofs)\<close>.
  The result is the string's bytes, \<open>None\<close> for \<open>NULL\<close>. (That the offset stays below
  \<open>SIZE_MAX\<close> is no check of the code: an object of that size cannot exist, and the bound makes
  the loop end.)
\<close>

function ob_get_str_ptr_loop ::
  "overlay_buffer \<Rightarrow> nat \<Rightarrow> (byte list option \<times> overlay_buffer) option" where
  "ob_get_str_ptr_loop b ofs =
     (if test_offset b ofs \<and> position b + ofs \<le> SIZE_MAX
      then case ob_read b (position b + ofs) 1 of
             None \<Rightarrow> None
           | Some c \<Rightarrow>
               (if hd c = 0
                then Some (map_option (\<lambda>m. take ofs (drop (position b) m)) (bytes b),
                           b\<lparr>position := size_add (position b) (ofs + 1)\<rparr>)
                else ob_get_str_ptr_loop b (ofs + 1))
      else Some (None, b))"
  by pat_completeness auto
termination
  by (relation "measure (\<lambda>(b, ofs). SIZE_MAX + 1 - (position b + ofs))") auto

declare ob_get_str_ptr_loop.simps [simp del]

definition ob_get_str_ptr :: "overlay_buffer \<Rightarrow> (byte list option \<times> overlay_buffer) option" where
  "ob_get_str_ptr b = ob_get_str_ptr_loop b 0"

definition ob_get_bytes ::
  "overlay_buffer \<Rightarrow> nat \<Rightarrow> (byte list option \<times> overlay_buffer) option" where
  "ob_get_bytes b len =
     (if \<not> test_offset b len then Some (None, b)
      else do {
        xs \<leftarrow> ob_read b (position b) len;
        Some (Some xs, b\<lparr>position := size_add (position b) len\<rparr>)
      })"

text \<open>The pointer returned, as its offset in the buffer.\<close>

definition ob_get_bytes_ptr :: "overlay_buffer \<Rightarrow> nat \<Rightarrow> nat option \<times> overlay_buffer" where
  "ob_get_bytes_ptr b len =
     (if \<not> test_offset b len then (None, b)
      else (Some (position b), b\<lparr>position := size_add (position b) len\<rparr>))"

definition ob_get_ui32 :: "overlay_buffer \<Rightarrow> (uint32 \<times> overlay_buffer) option" where
  "ob_get_ui32 b =
     (if \<not> test_offset b 4 then Some (0xFFFFFFFF, b)
      else do {
        p \<leftarrow> ob_read b (position b) 4;
        let ret = push_bit 24 (ucast (p ! 0)) OR push_bit 16 (ucast (p ! 1))
                  OR push_bit 8 (ucast (p ! 2)) OR ucast (p ! 3);
        Some (ret, b\<lparr>position := size_add (position b) 4\<rparr>)
      })"

definition ob_get_ui32_rv :: "overlay_buffer \<Rightarrow> (uint32 \<times> overlay_buffer) option" where
  "ob_get_ui32_rv b =
     (if \<not> test_offset b 4 then Some (0xFFFFFFFF, b)
      else do {
        p \<leftarrow> ob_read b (position b) 4;
        let ret = ucast (p ! 0) OR push_bit 8 (ucast (p ! 1))
                  OR push_bit 16 (ucast (p ! 2)) OR push_bit 24 (ucast (p ! 3));
        Some (ret, b\<lparr>position := size_add (position b) 4\<rparr>)
      })"

text \<open>
  The last four bytes are shifted as \<open>int\<close>s, with the two's complement result where \<open>byte << 24\<close> reaches
  the sign bit, and sign-extended to 64 bits by the conversion; the fourth byte is shifted by 36.
\<close>

definition ob_get_ui64 :: "overlay_buffer \<Rightarrow> (uint64 \<times> overlay_buffer) option" where
  "ob_get_ui64 b =
     (if \<not> test_offset b 8 then Some (0xFFFFFFFF, b)
      else do {
        p \<leftarrow> ob_read b (position b) 8;
        let ret = push_bit 56 (ucast (p ! 0)) OR push_bit 48 (ucast (p ! 1))
                  OR push_bit 40 (ucast (p ! 2)) OR push_bit 36 (ucast (p ! 3))
                  OR scast (push_bit 24 (ucast (p ! 4) :: uint32))
                  OR scast (push_bit 16 (ucast (p ! 5) :: uint32))
                  OR scast (push_bit 8 (ucast (p ! 6) :: uint32))
                  OR scast (ucast (p ! 7) :: uint32);
        Some (ret, b\<lparr>position := size_add (position b) 8\<rparr>)
      })"

definition ob_get_ui64_rv :: "overlay_buffer \<Rightarrow> (uint64 \<times> overlay_buffer) option" where
  "ob_get_ui64_rv b =
     (if \<not> test_offset b 8 then Some (0xFFFFFFFF, b)
      else do {
        p \<leftarrow> ob_read b (position b) 8;
        let ret = ucast (p ! 0) OR push_bit 8 (ucast (p ! 1))
                  OR push_bit 16 (ucast (p ! 2)) OR push_bit 24 (ucast (p ! 3))
                  OR push_bit 32 (ucast (p ! 4)) OR push_bit 40 (ucast (p ! 5))
                  OR push_bit 48 (ucast (p ! 6)) OR push_bit 56 (ucast (p ! 7));
        Some (ret, b\<lparr>position := size_add (position b) 8\<rparr>)
      })"

definition ob_get_ui16 :: "overlay_buffer \<Rightarrow> (uint16 \<times> overlay_buffer) option" where
  "ob_get_ui16 b =
     (if \<not> test_offset b 2 then Some (0xFFFF, b)
      else do {
        p \<leftarrow> ob_read b (position b) 2;
        let ret = push_bit 8 (ucast (p ! 0)) OR ucast (p ! 1);
        Some (ret, b\<lparr>position := size_add (position b) 2\<rparr>)
      })"

definition ob_get_ui16_rv :: "overlay_buffer \<Rightarrow> (uint16 \<times> overlay_buffer) option" where
  "ob_get_ui16_rv b =
     (if \<not> test_offset b 2 then Some (0xFFFF, b)
      else do {
        p \<leftarrow> ob_read b (position b) 2;
        let ret = ucast (p ! 0) OR push_bit 8 (ucast (p ! 1));
        Some (ret, b\<lparr>position := size_add (position b) 2\<rparr>)
      })"

definition ob_get :: "overlay_buffer \<Rightarrow> (int \<times> overlay_buffer) option" where
  "ob_get b =
     (if \<not> test_offset b 1 then Some (- 1, b)
      else do {
        p \<leftarrow> ob_read b (position b) 1;
        Some (uint (hd p), b\<lparr>position := size_add (position b) 1\<rparr>)
      })"

text \<open>
  The packed getters: a failed \<open>ob_get\<close> returns \<open>WHY(...)\<close>, which is \<open>-1\<close> converted to the
  unsigned result type. The shift of the fifth byte by 28 can reach the sign bit of an \<open>int\<close>.
\<close>

function ob_get_packed_ui32_loop ::
  "overlay_buffer \<Rightarrow> uint32 \<Rightarrow> nat \<Rightarrow> (uint32 \<times> overlay_buffer) option" where
  "ob_get_packed_ui32_loop b ret shift =
     (case ob_get b of
        None \<Rightarrow> None
      | Some (byte, b) \<Rightarrow>
          (if byte < 0 then Some (- 1, b)
           else if shift < 32
           then let ret = ret OR push_bit shift (word_of_int byte AND 0x7f)
                in if (word_of_int byte :: uint32) AND 0x80 \<noteq> 0
                   then ob_get_packed_ui32_loop b ret (shift + 7)
                   else Some (ret, b)
           else None))"
  by pat_completeness auto
termination
  by (relation "measure (\<lambda>(b, ret, shift). 32 - shift)") auto

definition ob_get_packed_ui32 :: "overlay_buffer \<Rightarrow> (uint32 \<times> overlay_buffer) option" where
  "ob_get_packed_ui32 b = ob_get_packed_ui32_loop b 0 0"

function ob_get_packed_ui64_loop ::
  "overlay_buffer \<Rightarrow> uint64 \<Rightarrow> nat \<Rightarrow> (uint64 \<times> overlay_buffer) option" where
  "ob_get_packed_ui64_loop b ret shift =
     (case ob_get b of
        None \<Rightarrow> None
      | Some (byte, b) \<Rightarrow>
          (if byte < 0 then Some (- 1, b)
           else if shift < 32
           then let ret = ret OR scast (push_bit shift (word_of_int byte AND 0x7f) :: uint32)
                in if (word_of_int byte :: uint32) AND 0x80 \<noteq> 0
                   then ob_get_packed_ui64_loop b ret (shift + 7)
                   else Some (ret, b)
           else None))"
  by pat_completeness auto
termination
  by (relation "measure (\<lambda>(b, ret, shift). 32 - shift)") auto

declare ob_get_packed_ui32_loop.simps [simp del] ob_get_packed_ui64_loop.simps [simp del]

definition ob_get_packed_ui64 :: "overlay_buffer \<Rightarrow> (uint64 \<times> overlay_buffer) option" where
  "ob_get_packed_ui64 b = ob_get_packed_ui64_loop b 0 0"

subsection \<open>Writing in place, and queries\<close>

definition ob_set_ui16 :: "overlay_buffer \<Rightarrow> nat \<Rightarrow> uint16 \<Rightarrow> overlay_buffer option" where
  "ob_set_ui16 b offset v = do {
     assert (size_add offset 2 \<le> sizeLimit b);
     assert (size_add offset 2 \<le> allocSize b);
     ob_write b offset [byte_at 8 v, byte_at 0 v]
   }"

definition ob_set :: "overlay_buffer \<Rightarrow> nat \<Rightarrow> byte \<Rightarrow> overlay_buffer option" where
  "ob_set b offset byte = do {
     assert (size_add offset 1 \<le> sizeLimit b);
     assert (size_add offset 1 \<le> allocSize b);
     ob_write b offset [byte]
   }"

definition ob_position :: "overlay_buffer \<Rightarrow> nat" where
  "ob_position b = position b"

definition ob_limit :: "overlay_buffer \<Rightarrow> nat" where
  "ob_limit b = sizeLimit b"

definition ob_remaining :: "overlay_buffer \<Rightarrow> nat option" where
  "ob_remaining b = do {
     assert (sizeLimit b \<noteq> SIZE_MAX);
     assert (position b \<le> sizeLimit b);
     Some (sizeLimit b - position b)
   }"

definition ob_overrun :: "overlay_buffer \<Rightarrow> bool" where
  "ob_overrun b \<longleftrightarrow>
     position b > (if sizeLimit b \<noteq> SIZE_MAX \<and> sizeLimit b < allocSize b
                   then sizeLimit b else allocSize b)"

definition asprintable :: "int \<Rightarrow> int" where
  "asprintable c = (if c < 32 then 46 else if c > 126 then 46 else c)"

end
