(* ===== verification/Overlay_Buffer_Correct.thy ===== *)
theory Overlay_Buffer_Correct
  imports Overlay_Buffer
begin

text \<open>
  Correctness of the overlay buffers: the invariant of the struct, what an append leaves behind and
  why one \<open>ob_overrun\<close> at the end is enough, that reads stay inside the object, and the
  round trips between the append and the get of each encoding.
\<close>


section \<open>The invariant\<close>

definition ob_content :: "overlay_buffer \<Rightarrow> byte list" where
  "ob_content b = (case bytes b of None \<Rightarrow> [] | Some m \<Rightarrow> m)"

definition ob_wf :: "overlay_buffer \<Rightarrow> bool" where
  "ob_wf b \<longleftrightarrow>
     allocSize b = length (ob_content b) \<and> (allocated b \<longrightarrow> bytes b \<noteq> None) \<and>
     position b \<le> SIZE_MAX \<and> checkpointLength b \<le> SIZE_MAX \<and> sizeLimit b \<le> SIZE_MAX \<and>
     allocSize b \<le> SIZE_MAX"

definition ob_data :: "overlay_buffer \<Rightarrow> byte list" where
  "ob_data b = take (position b) (ob_content b)"

definition ob_bound :: nat where
  "ob_bound = 2 ^ 62"

lemma ob_bound_SIZE_MAX: "n \<le> ob_bound \<Longrightarrow> n \<le> SIZE_MAX" "n \<le> ob_bound \<Longrightarrow> n + 65600 \<le> SIZE_MAX"
  by (simp_all add: ob_bound_def SIZE_MAX_def)

lemma ob_content_simps [simp]:
  "ob_content (b\<lparr>bytes := Some m\<rparr>) = m"
  "ob_content (b\<lparr>position := p\<rparr>) = ob_content b"
  "ob_content (b\<lparr>checkpointLength := p\<rparr>) = ob_content b"
  "ob_content (b\<lparr>sizeLimit := p\<rparr>) = ob_content b"
  "ob_content (b\<lparr>allocSize := p\<rparr>) = ob_content b"
  "ob_content (b\<lparr>allocated := a\<rparr>) = ob_content b"
  by (simp_all add: ob_content_def)

lemma ob_content_Some: "bytes b = Some m \<Longrightarrow> ob_content b = m"
  by (simp add: ob_content_def)

lemma round_up_bounds:
  assumes "s \<le> ob_bound + k" "k + m \<le> 2 ^ 62"
  shows "s \<le> (if P \<and> s mod m \<noteq> 0 then size_add s (m - s mod m) else s) \<and>
    (if P \<and> s mod m \<noteq> 0 then size_add s (m - s mod m) else s) \<le> ob_bound + (k + m)"
proof (cases "P \<and> s mod m \<noteq> 0")
  case True
  have "s + (m - s mod m) \<le> ob_bound + (k + m)"
    using assms(1) by linarith
  moreover have "ob_bound + (k + m) \<le> SIZE_MAX"
    using assms(2) by (simp add: ob_bound_def SIZE_MAX_def)
  ultimately show ?thesis
    using True by (simp only: if_True size_add_eq simp_thms le_add1)
next
  case False
  then show ?thesis
    using assms(1) by auto
qed

lemma ob_newSize_bounds:
  assumes "n \<le> ob_bound"
  shows "n \<le> ob_newSize n" "64 \<le> ob_newSize n" "ob_newSize n \<le> SIZE_MAX"
proof -
  define s1 where "s1 = (if n < 64 then 64 else n)"
  define s2 where "s2 = (if True \<and> s1 mod 64 \<noteq> 0 then size_add s1 (64 - s1 mod 64) else s1)"
  define s3 where "s3 = (if s2 > 1024 \<and> s2 mod 1024 \<noteq> 0 then size_add s2 (1024 - s2 mod 1024) else s2)"
  define s4 where
    "s4 = (if s3 > 65536 \<and> s3 mod 65536 \<noteq> 0 then size_add s3 (65536 - s3 mod 65536) else s3)"
  have eq: "ob_newSize n = s4"
    by (simp only: ob_newSize_def s1_def s2_def s3_def s4_def Let_def simp_thms)
  have s1: "s1 \<le> ob_bound + 0" "n \<le> s1" "64 \<le> s1"
    using assms by (auto simp: s1_def ob_bound_def)
  have s2: "s1 \<le> s2 \<and> s2 \<le> ob_bound + (0 + 64)"
    unfolding s2_def by (rule round_up_bounds [OF s1(1)]) simp
  have s3: "s2 \<le> s3 \<and> s3 \<le> ob_bound + (0 + 64 + 1024)"
    unfolding s3_def by (rule round_up_bounds [OF s2 [THEN conjunct2]]) simp
  have s4: "s3 \<le> s4 \<and> s4 \<le> ob_bound + (0 + 64 + 1024 + 65536)"
    unfolding s4_def by (rule round_up_bounds [OF s3 [THEN conjunct2]]) simp
  have "ob_bound + (0 + 64 + 1024 + 65536) \<le> SIZE_MAX"
    by (simp add: ob_bound_def SIZE_MAX_def)
  then show "n \<le> ob_newSize n" "64 \<le> ob_newSize n" "ob_newSize n \<le> SIZE_MAX"
    unfolding eq using s1 s2 s3 s4 by linarith+
qed

section \<open>Appending\<close>

definition ob_append_raw :: "allocator \<Rightarrow> overlay_buffer \<Rightarrow> byte list \<Rightarrow> overlay_buffer option" where
  "ob_append_raw al b xs = do {
     (b, space) \<leftarrow> ob_makespace al b (length xs);
     b \<leftarrow> (if space then ob_write b (position b) xs else Some b);
     Some (b\<lparr>position := size_add (position b) (length xs)\<rparr>)
   }"

lemma ob_append_raw_n:
  "length xs = n \<Longrightarrow> ob_append_raw al b xs = do {
     (b, space) \<leftarrow> ob_makespace al b n;
     b \<leftarrow> (if space then ob_write b (position b) xs else Some b);
     Some (b\<lparr>position := size_add (position b) n\<rparr>)
   }"
  by (auto simp: ob_append_raw_def)

lemma ob_append_raw_eqs:
  shows "ob_append_byte al b c = ob_append_raw al b [c]"
    and "ob_append_ui16 al b v2 = ob_append_raw al b [byte_at 8 v2, byte_at 0 v2]"
    and "ob_append_ui16_rv al b v2 = ob_append_raw al b [byte_at 0 v2, byte_at 8 v2]"
    and "ob_append_ui32 al b v4 =
      ob_append_raw al b [byte_at 24 v4, byte_at 16 v4, byte_at 8 v4, byte_at 0 v4]"
    and "ob_append_ui32_rv al b v4 =
      ob_append_raw al b [byte_at 0 v4, byte_at 8 v4, byte_at 16 v4, byte_at 24 v4]"
    and "ob_append_ui64 al b v8 = ob_append_raw al b
     [byte_at 56 v8, byte_at 48 v8, byte_at 40 v8, byte_at 32 v8,
      byte_at 24 v8, byte_at 16 v8, byte_at 8 v8, byte_at 0 v8]"
    and "ob_append_ui64_rv al b v8 = ob_append_raw al b
     [byte_at 0 v8, byte_at 8 v8, byte_at 16 v8, byte_at 24 v8,
      byte_at 32 v8, byte_at 40 v8, byte_at 48 v8, byte_at 56 v8]"
    and "ob_append_bytes al b xs = (if xs = [] then None else ob_append_raw al b xs)"
  unfolding ob_append_byte_def ob_append_ui16_def ob_append_ui16_rv_def ob_append_ui32_def
      ob_append_ui32_rv_def ob_append_ui64_def ob_append_ui64_rv_def
  by (rule ob_append_raw_n [symmetric], simp)+ (simp add: ob_append_bytes_def ob_append_raw_def)

definition ob_appended :: "overlay_buffer \<Rightarrow> byte list \<Rightarrow> overlay_buffer \<Rightarrow> bool" where
  "ob_appended b xs b' \<longleftrightarrow>
     ob_wf b' \<and> position b' = position b + length xs \<and>
     sizeLimit b' = sizeLimit b \<and> checkpointLength b' = checkpointLength b \<and>
     take (position b) (ob_content b') = take (position b) (ob_content b) \<and>
     (\<not> ob_overrun b' \<longrightarrow> \<not> ob_overrun b \<and> ob_data b' = ob_data b @ xs)"

lemma ob_appended_refl: "ob_wf b \<Longrightarrow> ob_appended b [] b"
  by (simp add: ob_appended_def)

lemma ob_appended_trans:
  assumes a1: "ob_appended b xs b1" and a2: "ob_appended b1 ys b2"
  shows "ob_appended b (xs @ ys) b2"
proof -
  have t: "take (position b1) (ob_content b2) = take (position b1) (ob_content b1)"
    and p: "position b \<le> position b1"
    and t1: "take (position b) (ob_content b1) = take (position b) (ob_content b)"
    using a1 a2 by (simp_all add: ob_appended_def)
  have "take (position b) (ob_content b2) = take (position b) (ob_content b)"
    using take_eq_mono [OF t p] t1 by (rule trans)
  then show ?thesis
    using a1 a2 unfolding ob_appended_def by (metis add.assoc append.assoc length_append)
qed

lemma ob_overrun_iff:
  "ob_wf b \<Longrightarrow> ob_overrun b \<longleftrightarrow> position b > allocSize b \<or> position b > sizeLimit b"
  by (auto simp: ob_overrun_def ob_wf_def)

lemma ob_makespace_cases:
  assumes wf: "ob_wf b" and al: "malloc_ok al" and n: "position b + n \<le> ob_bound"
    and ms: "ob_makespace al b n = Some (b', space)"
  obtains
    (refused) "\<not> space" "b' = b" "position b + n > sizeLimit b \<or> position b + n > allocSize b \<and>
        (bytes b \<noteq> None \<and> \<not> allocated b \<or> al (ob_newSize (position b + n)) = None)"
  | (present) "space" "b' = b" "position b + n \<le> sizeLimit b" "position b + n \<le> allocSize b"
  | (grown) new where "space" "position b + n \<le> sizeLimit b" "position b \<le> allocSize b"
      "b' = b\<lparr>bytes := Some new, allocated := True, allocSize := length new\<rparr>"
      "position b + n \<le> length new" "length new \<le> SIZE_MAX"
      "take (position b) new = take (position b) (ob_content b)"
proof -
  have sz: "size_add (position b) n = position b + n"
    using n by (simp add: size_add_eq ob_bound_SIZE_MAX)
  have fits: "position b + n \<le> ob_newSize (position b + n)" "ob_newSize (position b + n) \<le> SIZE_MAX"
    using n by (simp_all add: ob_newSize_bounds)
  consider (lim) "position b + n > sizeLimit b"
    | (room) "position b + n \<le> sizeLimit b" "position b + n \<le> allocSize b"
    | (grow) "position b + n \<le> sizeLimit b" "position b + n > allocSize b"
    by linarith
  then show thesis
  proof cases
    case lim
    then show ?thesis using ms sz by (intro refused) (auto simp: ob_makespace_def split: if_splits)
  next
    case room
    then show ?thesis using ms sz by (intro present) (auto simp: ob_makespace_def split: if_splits)
  next
    case grow
    let ?n = "ob_newSize (position b + n)"
    show ?thesis
    proof (cases "al ?n")
      case None
      then show ?thesis
        using ms sz grow by (intro refused) (auto simp: ob_makespace_def Let_def split: if_splits)
    next
      case (Some new)
      show ?thesis
      proof (cases "bytes b \<noteq> None \<and> \<not> allocated b")
        case True
        then show ?thesis
          using ms sz grow by (intro refused) (auto simp: ob_makespace_def split: if_splits)
      next
        case False
        have len: "length new = ?n"
          using al Some by (auto simp: malloc_ok_def)
        obtain new' where new': "(if position b \<noteq> 0
            then do { old \<leftarrow> ob_read b 0 (position b); mem_write new 0 old }
            else Some new) = Some new'" and space
          and b': "b' = b\<lparr>bytes := Some new', allocated := True, allocSize := ?n\<rparr>"
          using ms sz grow False Some
          by (auto simp: ob_makespace_def Let_def split: if_splits bind_splits)
        have "length new' = ?n \<and> position b \<le> allocSize b
            \<and> take (position b) new' = take (position b) (ob_content b)"
          using new' len wf
          by (auto simp: ob_read_def mem_read_def mem_write_def ob_wf_def ob_content_def
              split: if_splits bind_splits option.splits)
        with b' fits grow \<open>space\<close> show ?thesis
          by (intro grown [of new']) auto
      qed
    qed
  qed
qed

lemma ob_write_Some:
  assumes "ob_wf b" "i + length xs \<le> allocSize b" "bytes b \<noteq> None"
  shows "ob_write b i xs =
    Some (b\<lparr>bytes := Some (take i (ob_content b) @ xs @ drop (i + length xs) (ob_content b))\<rparr>)"
  using assms by (auto simp: ob_write_def ob_wf_def ob_content_def mem_simps)

lemma ob_append_raw_appended:
  assumes wf: "ob_wf b" and al: "malloc_ok al" and n: "position b + length xs \<le> ob_bound"
    and ap: "ob_append_raw al b xs = Some b'"
  shows "ob_appended b xs b'"
proof -
  obtain b1 space b2 where ms: "ob_makespace al b (length xs) = Some (b1, space)"
    and wr: "(if space then ob_write b1 (position b1) xs else Some b1) = Some b2"
    and b': "b' = b2\<lparr>position := size_add (position b2) (length xs)\<rparr>"
    using ap by (auto simp: ob_append_raw_def split: bind_splits)
  have sz: "size_add (position b) (length xs) = position b + length xs"
    and lim: "position b + length xs \<le> SIZE_MAX"
    using n by (simp_all add: size_add_eq ob_bound_SIZE_MAX)
  from wf al n ms show ?thesis
  proof (cases rule: ob_makespace_cases)
    case refused
    then have "b2 = b" using wr by simp
    with b' sz lim wf refused(3) show ?thesis
      by (auto simp: ob_appended_def ob_overrun_iff ob_wf_def)
  next
    case present
    then have "bytes b \<noteq> None"
      using wr by (auto simp: ob_write_def split: option.splits)
    with present have "b2 = b\<lparr>bytes := Some (take (position b) (ob_content b) @ xs
        @ drop (position b + length xs) (ob_content b))\<rparr>"
      using wr wf by (simp add: ob_write_Some)
    with b' sz lim wf present show ?thesis
      by (auto simp: ob_appended_def ob_overrun_iff ob_wf_def ob_data_def)
  next
    case (grown new)
    then have "b2 = b1\<lparr>bytes := Some (take (position b) (ob_content b1) @ xs
        @ drop (position b + length xs) (ob_content b1))\<rparr>"
      using wr wf by (auto simp: ob_write_Some ob_wf_def)
    with b' sz lim wf grown show ?thesis
      by (auto simp: ob_appended_def ob_overrun_iff ob_wf_def ob_data_def)
  qed
qed
lemma ob_wf_NULL: "ob_wf b \<Longrightarrow> bytes b = None \<Longrightarrow> allocSize b = 0"
  by (simp add: ob_wf_def ob_content_def)

lemma ob_append_raw_total:
  assumes wf: "ob_wf b" and al: "malloc_ok al" and n: "position b + length xs \<le> ob_bound"
    and ok: "\<not> ob_overrun b \<or> bytes b \<noteq> None \<and> \<not> allocated b" and ne: "xs \<noteq> []"
  shows "\<exists>b'. ob_append_raw al b xs = Some b'"
proof -
  have pos: "bytes b \<noteq> None" if "position b \<noteq> 0"
  proof
    assume "bytes b = None"
    with wf have "allocSize b = 0" by (rule ob_wf_NULL)
    with ok wf that \<open>bytes b = None\<close> show False by (simp add: ob_overrun_iff)
  qed
  have sz: "size_add (position b) (length xs) = position b + length xs"
    using n by (simp add: size_add_eq ob_bound_SIZE_MAX)
  have rd: "\<exists>new'. (if position b \<noteq> 0
        then do { old \<leftarrow> ob_read b 0 (position b); mem_write new 0 old } else Some new) = Some new'"
    if "al (ob_newSize (position b + length xs)) = Some new" "allocated b \<or> bytes b = None" for new
  proof -
    have "length new = ob_newSize (position b + length xs)"
      using al that by (auto simp: malloc_ok_def)
    moreover have "position b + length xs \<le> ob_newSize (position b + length xs)"
      using n by (rule ob_newSize_bounds)
    moreover have "position b \<le> length (ob_content b)"
      using ok wf that by (auto simp: ob_overrun_iff) (auto simp: ob_wf_def)
    ultimately show ?thesis
      using pos by (cases "position b = 0") (auto simp: ob_read_def ob_content_def mem_simps)
  qed
  have first: "(if position b \<noteq> 0 then assert (bytes b \<noteq> None) else Some ()) = Some ()"
    using pos by simp
  have "\<exists>r. ob_makespace al b (length xs) = Some r"
  proof (cases "position b + length xs \<le> sizeLimit b \<and> position b + length xs > allocSize b
      \<and> (bytes b = None \<or> allocated b)")
    case False
    then show ?thesis
      unfolding ob_makespace_def sz first by auto
  next
    case True
    show ?thesis
    proof (cases "al (ob_newSize (position b + length xs))")
      case None
      with True show ?thesis
        unfolding ob_makespace_def sz first by auto
    next
      case (Some new)
      with True rd obtain new' where "(if position b \<noteq> 0
          then do { old \<leftarrow> ob_read b 0 (position b); mem_write new 0 old } else Some new) = Some new'"
        by blast
      with True Some show ?thesis
        unfolding ob_makespace_def sz first Let_def by auto
    qed
  qed
  then obtain b1 space where ms: "ob_makespace al b (length xs) = Some (b1, space)"
    by auto
  from wf al n ms have "space \<Longrightarrow> \<exists>b2. ob_write b1 (position b1) xs = Some b2"
  proof (cases rule: ob_makespace_cases)
    case present
    then have "bytes b \<noteq> None"
      using ob_wf_NULL [OF wf] ne by (cases "bytes b") auto
    with present wf show ?thesis by (simp add: ob_write_Some)
  next
    case (grown new)
    then show ?thesis using wf by (simp add: ob_write_def mem_simps)
  qed simp
  with ms show ?thesis
    by (auto simp: ob_append_raw_def)
qed

text \<open>
  A buffer that may grow: nothing stands in its memory yet or the memory is its own, and the
  allocator does not run out.
\<close>

definition ob_growable :: "allocator \<Rightarrow> overlay_buffer \<Rightarrow> bool" where
  "ob_growable al b \<longleftrightarrow> (bytes b = None \<or> allocated b) \<and> (\<forall>n. al n \<noteq> None)"

definition ob_fits :: "overlay_buffer \<Rightarrow> nat \<Rightarrow> bool" where
  "ob_fits b n \<longleftrightarrow> position b + n \<le> sizeLimit b \<and> position b + n \<le> ob_bound"

lemma ob_append_raw_fits:
  assumes wf: "ob_wf b" and al: "malloc_ok al" and gr: "ob_growable al b" and ov: "\<not> ob_overrun b"
    and fit: "ob_fits b (length xs)" and ne: "xs \<noteq> []"
  shows "\<exists>b'. ob_append_raw al b xs = Some b' \<and> \<not> ob_overrun b' \<and> ob_growable al b'"
proof -
  have n: "position b + length xs \<le> ob_bound" and lim: "position b + length xs \<le> sizeLimit b"
    using fit by (simp_all add: ob_fits_def)
  obtain b' where b': "ob_append_raw al b xs = Some b'"
    using ob_append_raw_total [OF wf al n] ov ne by auto
  then obtain b1 space b2 where ms: "ob_makespace al b (length xs) = Some (b1, space)"
    and wr: "(if space then ob_write b1 (position b1) xs else Some b1) = Some b2"
    and eq: "b' = b2\<lparr>position := size_add (position b2) (length xs)\<rparr>"
    by (auto simp: ob_append_raw_def split: bind_splits)
  have ap: "ob_appended b xs b'"
    using wf al n b' by (rule ob_append_raw_appended)
  from wf al n ms have "position b + length xs \<le> allocSize b1 \<and> space \<and> ob_growable al b1"
  proof (cases rule: ob_makespace_cases)
    case refused
    then show ?thesis using gr lim unfolding ob_growable_def by (metis linorder_not_less)
  next
    case present
    then show ?thesis using gr by simp
  next
    case (grown new)
    then show ?thesis using gr by (simp add: ob_growable_def)
  qed
  then have "position b + length xs \<le> allocSize b' \<and> ob_growable al b'"
    using wr eq by (auto simp: ob_write_def ob_growable_def split: option.splits)
  then show ?thesis
    using b' ap lim by (auto simp: ob_appended_def ob_overrun_iff)
qed

section \<open>Reading\<close>

definition ob_avail :: "overlay_buffer \<Rightarrow> byte list" where
  "ob_avail b = drop (position b) (take (sizeLimit b) (ob_content b))"

lemma ob_avail_read:
  assumes wf: "ob_wf b" and av: "ob_avail b = xs @ rest" and ne: "xs \<noteq> []"
  shows "test_offset b (length xs)" "ob_read b (position b) (length xs) = Some xs"
    "size_add (position b) (length xs) = position b + length xs"
    "ob_wf (b\<lparr>position := position b + length xs\<rparr>)"
    "ob_avail (b\<lparr>position := position b + length xs\<rparr>) = rest"
proof -
  have len: "length (ob_avail b) = min (sizeLimit b) (allocSize b) - position b"
    using wf by (simp add: ob_avail_def ob_wf_def min.commute)
  then have fit: "position b + length xs \<le> min (sizeLimit b) (allocSize b)"
    using av ne by (cases xs) auto
  then have sm: "position b + length xs \<le> SIZE_MAX"
    using wf by (auto simp: ob_wf_def)
  then show sz: "size_add (position b) (length xs) = position b + length xs"
    by (rule size_add_eq)
  show "test_offset b (length xs)"
    using fit sz by (simp add: test_offset_def)
  have xs: "xs = take (length xs) (ob_avail b)" and rest: "rest = drop (length xs) (ob_avail b)"
    using av by simp_all
  have "take (length xs) (ob_avail b) = take (length xs) (drop (position b) (ob_content b))"
    using fit by (auto simp: ob_avail_def drop_take min_def split: if_splits)
  with xs have "mem_read (ob_content b) (position b) (length xs) = Some xs"
    using fit wf by (simp add: mem_simps ob_wf_def)
  moreover have "ob_content b \<noteq> []"
    using fit wf ne by (auto simp: ob_wf_def)
  ultimately show "ob_read b (position b) (length xs) = Some xs"
    by (auto simp: ob_read_def ob_content_def split: option.splits)
  show "ob_wf (b\<lparr>position := position b + length xs\<rparr>)"
    using wf sm by (simp add: ob_wf_def)
  show "ob_avail (b\<lparr>position := position b + length xs\<rparr>) = rest"
    using rest by (simp add: ob_avail_def add.commute)
qed

lemma ob_flip_avail:
  assumes wf: "ob_wf b" and ov: "\<not> ob_overrun b" and pos: "position b \<noteq> SIZE_MAX"
  obtains b' where "ob_flip b = Some b'" "ob_wf b'" "position b' = 0" "ob_avail b' = ob_data b"
    "sizeLimit b' = position b" "allocSize b' = allocSize b"
proof
  let ?b = "b\<lparr>checkpointLength := 0, sizeLimit := position b, position := 0\<rparr>"
  show "ob_flip b = Some ?b"
    using wf ov pos by (auto simp: ob_flip_def ob_limitsize_def ob_overrun_iff ob_wf_def Let_def)
  show "ob_wf ?b" using wf by (simp add: ob_wf_def)
  show "ob_avail ?b = ob_data b" by (simp add: ob_avail_def ob_data_def)
qed simp_all

section \<open>The encodings\<close>

text \<open>
  The contract between a writer and the reader of the same encoding: \<open>put\<close> appends the encoding,
  \<open>get\<close> decodes it where it stands at the position and moves past it.
\<close>

locale ob_codec =
  fixes put :: "allocator \<Rightarrow> overlay_buffer \<Rightarrow> 'a \<Rightarrow> overlay_buffer option"
    and get :: "overlay_buffer \<Rightarrow> ('a \<times> overlay_buffer) option"
    and enc :: "'a \<Rightarrow> byte list"
  assumes put_appended:
      "ob_wf b \<Longrightarrow> malloc_ok al \<Longrightarrow> position b + length (enc v) \<le> ob_bound \<Longrightarrow>
       put al b v = Some b' \<Longrightarrow> ob_appended b (enc v) b'"
    and get_avail:
      "ob_wf b \<Longrightarrow> ob_avail b = enc v @ rest \<Longrightarrow>
       get b = Some (v, b\<lparr>position := position b + length (enc v)\<rparr>)"
    and enc_nonempty: "enc v \<noteq> []"
    and put_fits:
      "ob_wf b \<Longrightarrow> malloc_ok al \<Longrightarrow> ob_growable al b \<Longrightarrow> \<not> ob_overrun b \<Longrightarrow>
       ob_fits b (length (enc v)) \<Longrightarrow>
       \<exists>b'. put al b v = Some b' \<and> \<not> ob_overrun b' \<and> ob_growable al b'"
begin

lemma get_rest:
  "ob_wf b \<Longrightarrow> ob_avail b = enc v @ rest \<Longrightarrow>
   \<exists>b'. get b = Some (v, b') \<and> ob_wf b' \<and> ob_avail b' = rest"
  using ob_avail_read(4,5) enc_nonempty get_avail by blast

text \<open>What was put into an empty region and flipped is what a get returns.\<close>

lemma put_flip_get:
  assumes "ob_wf b" "malloc_ok al" "position b = 0" "length (enc v) \<le> ob_bound"
    and "put al b v = Some b1" "\<not> ob_overrun b1" "ob_flip b1 = Some b2"
  shows "\<exists>b3. get b2 = Some (v, b3) \<and> ob_avail b3 = []"
proof -
  have ap: "ob_appended b (enc v) b1"
    using assms by (intro put_appended) auto
  then have "ob_wf b1" "ob_data b1 = enc v" "position b1 \<noteq> SIZE_MAX"
    using assms by (auto simp: ob_appended_def ob_data_def ob_bound_def SIZE_MAX_def)
  then obtain b2' where "ob_flip b1 = Some b2'" "ob_wf b2'" "ob_avail b2' = enc v @ []"
    using assms(6) by (auto elim: ob_flip_avail)
  then show ?thesis
    using assms(7) get_rest by fastforce
qed

end


lemma bit_push_byte_at:
  "bit (push_bit k (ucast (byte_at k v)) :: 'a::len word) n \<longleftrightarrow> k \<le> n \<and> n < k + 8 \<and> bit v n"
  "bit (ucast (byte_at 0 v) :: 'a::len word) n \<longleftrightarrow> n < 8 \<and> bit v n"
  for v :: "'a::len word"
  by (auto simp: bit_push_bit_iff bit_ucast_iff dest: bit_imp_le_length)

lemma byte_at_compose:
  fixes v2 :: uint16 and v4 :: uint32 and v8 :: uint64
  shows "push_bit 8 (ucast (byte_at 8 v2)) OR ucast (byte_at 0 v2) = v2"
    and "ucast (byte_at 0 v2) OR push_bit 8 (ucast (byte_at 8 v2)) = v2"
    and "push_bit 24 (ucast (byte_at 24 v4)) OR push_bit 16 (ucast (byte_at 16 v4))
         OR push_bit 8 (ucast (byte_at 8 v4)) OR ucast (byte_at 0 v4) = v4"
    and "ucast (byte_at 0 v4) OR push_bit 8 (ucast (byte_at 8 v4))
         OR push_bit 16 (ucast (byte_at 16 v4)) OR push_bit 24 (ucast (byte_at 24 v4)) = v4"
    and "ucast (byte_at 0 v8) OR push_bit 8 (ucast (byte_at 8 v8))
         OR push_bit 16 (ucast (byte_at 16 v8)) OR push_bit 24 (ucast (byte_at 24 v8))
         OR push_bit 32 (ucast (byte_at 32 v8)) OR push_bit 40 (ucast (byte_at 40 v8))
         OR push_bit 48 (ucast (byte_at 48 v8)) OR push_bit 56 (ucast (byte_at 56 v8)) = v8"
  by (rule bit_word_eqI, simp add: bit_or_iff bit_push_byte_at, linarith?)+
lemma ob_get_raw:
  assumes "ob_wf b" "ob_avail b = xs @ rest" "xs \<noteq> []" "length xs = n"
  shows "test_offset b n" "ob_read b (position b) n = Some xs"
    "size_add (position b) n = position b + n"
  using ob_avail_read [OF assms(1-3)] assms(4) by auto

interpretation ob_byte: ob_codec ob_append_byte
  "\<lambda>b. map_option (\<lambda>(c, b'). (word_of_int c, b')) (ob_get b)" "\<lambda>v. [v]"
proof
  fix b v rest
  assume "ob_wf b" "ob_avail b = [v] @ rest"
  from ob_get_raw [OF this, of 1]
  show "map_option (\<lambda>(c, b'). (word_of_int c, b')) (ob_get b) = Some (v, b\<lparr>position := position b + length [v]\<rparr>)"
    by (simp add: ob_get_def)
qed (simp_all add: ob_append_raw_eqs ob_append_raw_appended ob_append_raw_fits)

interpretation ob_ui16: ob_codec ob_append_ui16 ob_get_ui16 "\<lambda>v. [byte_at 8 v, byte_at 0 v]"
proof
  fix b rest and v :: uint16
  assume "ob_wf b" "ob_avail b = [byte_at 8 v, byte_at 0 v] @ rest"
  from ob_get_raw [OF this, of 2]
  show "ob_get_ui16 b = Some (v, b\<lparr>position := position b + length [byte_at 8 v, byte_at 0 v]\<rparr>)"
    by (simp add: ob_get_ui16_def byte_at_compose)
qed (simp_all add: ob_append_raw_eqs ob_append_raw_appended ob_append_raw_fits)

interpretation ob_ui16_rv: ob_codec ob_append_ui16_rv ob_get_ui16_rv
  "\<lambda>v. [byte_at 0 v, byte_at 8 v]"
proof
  fix b rest and v :: uint16
  assume "ob_wf b" "ob_avail b = [byte_at 0 v, byte_at 8 v] @ rest"
  from ob_get_raw [OF this, of 2]
  show "ob_get_ui16_rv b = Some (v, b\<lparr>position := position b + length [byte_at 0 v, byte_at 8 v]\<rparr>)"
    by (simp add: ob_get_ui16_rv_def byte_at_compose)
qed (simp_all add: ob_append_raw_eqs ob_append_raw_appended ob_append_raw_fits)

interpretation ob_ui32: ob_codec ob_append_ui32 ob_get_ui32
  "\<lambda>v. [byte_at 24 v, byte_at 16 v, byte_at 8 v, byte_at 0 v]"
proof
  fix b rest and v :: uint32
  let ?e = "[byte_at 24 v, byte_at 16 v, byte_at 8 v, byte_at 0 v]"
  assume "ob_wf b" "ob_avail b = ?e @ rest"
  from ob_get_raw [OF this, of 4]
  show "ob_get_ui32 b = Some (v, b\<lparr>position := position b + length ?e\<rparr>)"
    by (simp add: ob_get_ui32_def byte_at_compose)
qed (simp_all add: ob_append_raw_eqs ob_append_raw_appended ob_append_raw_fits)


interpretation ob_ui32_rv: ob_codec ob_append_ui32_rv ob_get_ui32_rv
  "\<lambda>v. [byte_at 0 v, byte_at 8 v, byte_at 16 v, byte_at 24 v]"
proof
  fix b rest and v :: uint32
  let ?e = "[byte_at 0 v, byte_at 8 v, byte_at 16 v, byte_at 24 v]"
  assume "ob_wf b" "ob_avail b = ?e @ rest"
  from ob_get_raw [OF this, of 4]
  show "ob_get_ui32_rv b = Some (v, b\<lparr>position := position b + length ?e\<rparr>)"
    by (simp add: ob_get_ui32_rv_def byte_at_compose)
qed (simp_all add: ob_append_raw_eqs ob_append_raw_appended ob_append_raw_fits)

interpretation ob_ui64_rv: ob_codec ob_append_ui64_rv ob_get_ui64_rv
  "\<lambda>v. [byte_at 0 v, byte_at 8 v, byte_at 16 v, byte_at 24 v,
        byte_at 32 v, byte_at 40 v, byte_at 48 v, byte_at 56 v]"
proof
  fix b rest and v :: uint64
  let ?e = "[byte_at 0 v, byte_at 8 v, byte_at 16 v, byte_at 24 v,
    byte_at 32 v, byte_at 40 v, byte_at 48 v, byte_at 56 v]"
  assume "ob_wf b" "ob_avail b = ?e @ rest"
  from ob_get_raw [OF this, of 8]
  show "ob_get_ui64_rv b = Some (v, b\<lparr>position := position b + length ?e\<rparr>)"
    by (simp add: ob_get_ui64_rv_def byte_at_compose)
qed (simp_all add: ob_append_raw_eqs ob_append_raw_appended ob_append_raw_fits)

text \<open>The bytes a packed append writes, for either width.\<close>

function pack7 :: "'a::len word \<Rightarrow> byte list" where
  "pack7 v =
     ucast ((v AND 0x7f) OR (if v > 0x7f then 0x80 else 0)) #
     (if drop_bit 7 v \<noteq> 0 then pack7 (drop_bit 7 v) else [])"
  by pat_completeness auto
termination
  by (relation "measure unat") (use drop_bit_7_less in auto)

declare pack7.simps [simp del]

lemma pack_uint_pack7: "pack_uint v = pack7 v"
  by (induction v rule: pack_uint.induct) (subst pack_uint.simps, subst pack7.simps, simp)

lemma measure_packed_uint_length: "measure_packed_uint v = length (pack_uint v)"
  by (induction v rule: measure_packed_uint.induct)
    (subst measure_packed_uint.simps, subst pack_uint.simps, simp)

lemma pack7_nonempty [simp]: "pack7 v \<noteq> []"
  by (subst pack7.simps) simp

lemma ob_append_byte_appended:
  "ob_wf b \<Longrightarrow> malloc_ok al \<Longrightarrow> position b + 1 \<le> ob_bound \<Longrightarrow>
   ob_append_byte al b c = Some b' \<Longrightarrow> ob_appended b [c] b'"
  by (simp add: ob_append_raw_eqs ob_append_raw_appended)

lemma ob_append_packed_ui32_appended:
  "ob_wf b \<Longrightarrow> malloc_ok al \<Longrightarrow> position b + length (pack7 v) \<le> ob_bound \<Longrightarrow>
   ob_append_packed_ui32 al b v = Some b' \<Longrightarrow> ob_appended b (pack7 v) b'"
proof (induction al b v arbitrary: b' rule: ob_append_packed_ui32.induct)
  case (1 al b v)
  let ?c = "ucast ((v AND 0x7f) OR (if v > 0x7f then 0x80 else 0)) :: byte"
  from "1.prems"(4) obtain b1 where b1: "ob_append_byte al b ?c = Some b1"
    and rest: "(if drop_bit 7 v \<noteq> 0 then ob_append_packed_ui32 al b1 (drop_bit 7 v) else Some b1) = Some b'"
    by (subst (asm) ob_append_packed_ui32.simps) (auto split: option.splits)
  have len: "length (pack7 v) = 1 + (if drop_bit 7 v \<noteq> 0 then length (pack7 (drop_bit 7 v)) else 0)"
    by (subst pack7.simps) simp
  have a1: "ob_appended b [?c] b1"
    using "1.prems" b1 len by (intro ob_append_byte_appended) auto
  show ?case
  proof (cases "drop_bit 7 v = 0")
    case True
    with a1 rest show ?thesis by (subst pack7.simps) simp
  next
    case False
    have "ob_appended b1 (pack7 (drop_bit 7 v)) b'"
      using "1.IH" [OF b1 False, of b'] "1.prems" a1 rest len False by (auto simp: ob_appended_def)
    from ob_appended_trans [OF a1 this] False show ?thesis
      by (subst pack7.simps) simp
  qed
qed

lemma ob_append_packed_ui64_appended:
  "ob_wf b \<Longrightarrow> malloc_ok al \<Longrightarrow> position b + length (pack7 v) \<le> ob_bound \<Longrightarrow>
   ob_append_packed_ui64 al b v = Some b' \<Longrightarrow> ob_appended b (pack7 v) b'"
proof (induction al b v arbitrary: b' rule: ob_append_packed_ui64.induct)
  case (1 al b v)
  let ?c = "ucast ((v AND 0x7f) OR (if v > 0x7f then 0x80 else 0)) :: byte"
  from "1.prems"(4) obtain b1 where b1: "ob_append_byte al b ?c = Some b1"
    and rest: "(if drop_bit 7 v \<noteq> 0 then ob_append_packed_ui64 al b1 (drop_bit 7 v) else Some b1) = Some b'"
    by (subst (asm) ob_append_packed_ui64.simps) (auto split: option.splits)
  have len: "length (pack7 v) = 1 + (if drop_bit 7 v \<noteq> 0 then length (pack7 (drop_bit 7 v)) else 0)"
    by (subst pack7.simps) simp
  have a1: "ob_appended b [?c] b1"
    using "1.prems" b1 len by (intro ob_append_byte_appended) auto
  show ?case
  proof (cases "drop_bit 7 v = 0")
    case True
    with a1 rest show ?thesis by (subst pack7.simps) simp
  next
    case False
    have "ob_appended b1 (pack7 (drop_bit 7 v)) b'"
      using "1.IH" [OF b1 False, of b'] "1.prems" a1 rest len False by (auto simp: ob_appended_def)
    from ob_appended_trans [OF a1 this] False show ?thesis
      by (subst pack7.simps) simp
  qed
qed

lemma ob_append_packed_ui32_fits:
  "ob_wf b \<Longrightarrow> malloc_ok al \<Longrightarrow> ob_growable al b \<Longrightarrow> \<not> ob_overrun b \<Longrightarrow>
   ob_fits b (length (pack7 v)) \<Longrightarrow>
   \<exists>b'. ob_append_packed_ui32 al b v = Some b' \<and> \<not> ob_overrun b' \<and> ob_growable al b'"
proof (induction al b v rule: ob_append_packed_ui32.induct)
  case (1 al b v)
  let ?c = "ucast ((v AND 0x7f) OR (if v > 0x7f then 0x80 else 0)) :: byte"
  have len: "length (pack7 v) = 1 + (if drop_bit 7 v \<noteq> 0 then length (pack7 (drop_bit 7 v)) else 0)"
    by (subst pack7.simps) simp
  then obtain b1 where b1: "ob_append_byte al b ?c = Some b1" "\<not> ob_overrun b1" "ob_growable al b1"
    using ob_append_raw_fits [of b al "[?c]"] "1.prems" by (auto simp: ob_append_raw_eqs ob_fits_def)
  have a1: "ob_appended b [?c] b1"
    using "1.prems" b1 len by (intro ob_append_byte_appended) (auto simp: ob_fits_def)
  show ?case
  proof (cases "drop_bit 7 v = 0")
    case True
    with b1 show ?thesis by (subst ob_append_packed_ui32.simps) simp
  next
    case False
    have "ob_wf b1" "ob_fits b1 (length (pack7 (drop_bit 7 v)))"
      using a1 "1.prems"(5) len False by (auto simp: ob_appended_def ob_fits_def)
    from "1.IH" [OF b1(1) False this(1) "1.prems"(2) b1(3,2) this(2)] b1(1) False show ?thesis
      by (subst ob_append_packed_ui32.simps) simp
  qed
qed

lemma ob_append_packed_ui64_fits:
  "ob_wf b \<Longrightarrow> malloc_ok al \<Longrightarrow> ob_growable al b \<Longrightarrow> \<not> ob_overrun b \<Longrightarrow>
   ob_fits b (length (pack7 v)) \<Longrightarrow>
   \<exists>b'. ob_append_packed_ui64 al b v = Some b' \<and> \<not> ob_overrun b' \<and> ob_growable al b'"
proof (induction al b v rule: ob_append_packed_ui64.induct)
  case (1 al b v)
  let ?c = "ucast ((v AND 0x7f) OR (if v > 0x7f then 0x80 else 0)) :: byte"
  have len: "length (pack7 v) = 1 + (if drop_bit 7 v \<noteq> 0 then length (pack7 (drop_bit 7 v)) else 0)"
    by (subst pack7.simps) simp
  then obtain b1 where b1: "ob_append_byte al b ?c = Some b1" "\<not> ob_overrun b1" "ob_growable al b1"
    using ob_append_raw_fits [of b al "[?c]"] "1.prems" by (auto simp: ob_append_raw_eqs ob_fits_def)
  have a1: "ob_appended b [?c] b1"
    using "1.prems" b1 len by (intro ob_append_byte_appended) (auto simp: ob_fits_def)
  show ?case
  proof (cases "drop_bit 7 v = 0")
    case True
    with b1 show ?thesis by (subst ob_append_packed_ui64.simps) simp
  next
    case False
    have "ob_wf b1" "ob_fits b1 (length (pack7 (drop_bit 7 v)))"
      using a1 "1.prems"(5) len False by (auto simp: ob_appended_def ob_fits_def)
    from "1.IH" [OF b1(1) False this(1) "1.prems"(2) b1(3,2) this(2)] b1(1) False show ?thesis
      by (subst ob_append_packed_ui64.simps) simp
  qed
qed

lemma gt_7f_iff:
  fixes v :: uint32 and w :: uint64
  shows "v > 0x7f \<longleftrightarrow> drop_bit 7 v \<noteq> 0" "w > 0x7f \<longleftrightarrow> drop_bit 7 w \<noteq> 0"
proof -
  have "drop_bit 7 v = 0 \<longleftrightarrow> unat v div 2 ^ 7 = 0" "drop_bit 7 w = 0 \<longleftrightarrow> unat w div 2 ^ 7 = 0"
    by (simp_all only: unat_eq_zero [symmetric] unat_drop_bit_eq)
      (simp_all add: drop_bit_eq_div)
  then show "v > 0x7f \<longleftrightarrow> drop_bit 7 v \<noteq> 0" "w > 0x7f \<longleftrightarrow> drop_bit 7 w \<noteq> 0"
    by (auto simp: word_less_nat_alt)
qed

text \<open>Reading one packed byte back: its value bits and its continuation bit.\<close>

abbreviation pack7_byte :: "'a::len word \<Rightarrow> byte" where
  "pack7_byte v \<equiv> ucast ((v AND 0x7f) OR (if v > 0x7f then 0x80 else 0))"

lemma split7: "(v AND 0x7f) OR push_bit 7 (drop_bit 7 v) = v"
  for v :: "'a::len word"
proof (rule bit_word_eqI)
  fix n
  show "bit ((v AND 0x7f) OR push_bit 7 (drop_bit 7 v)) n = bit v n" if "n < LENGTH('a)"
    using that by (cases "n < 7") (auto simp: bit_or_iff bit_and_iff bit_push_bit_iff bit_drop_bit_eq)
qed

lemma pack7_byte_value:
  fixes v :: uint32 and w :: uint64
  shows "(ucast (pack7_byte v) :: uint32) AND 0x7f = v AND 0x7f"
    and "(ucast (pack7_byte w) :: uint32) AND 0x7f = ucast w AND 0x7f"
  by (rule bit_word_eqI, auto simp: bit_ucast_iff bit_and_iff bit_or_iff)+

lemma pack7_byte_more:
  fixes v :: uint32 and w :: uint64
  shows "(ucast (pack7_byte v) :: uint32) AND 0x80 \<noteq> 0 \<longleftrightarrow> drop_bit 7 v \<noteq> 0"
    and "(ucast (pack7_byte w) :: uint32) AND 0x80 \<noteq> 0 \<longleftrightarrow> drop_bit 7 w \<noteq> 0"
  unfolding gt_7f_iff [symmetric]
  by (auto simp: and_0x80_eq_0 bit_ucast_iff bit_and_iff bit_or_iff)


lemma unat_drop_bit_7_less:
  assumes "unat v < 2 ^ (n - shift)" "drop_bit 7 v \<noteq> 0"
  shows "unat (drop_bit 7 v) < 2 ^ (n - (shift + 7))" "shift + 7 < n"
proof -
  have eq: "unat (drop_bit 7 v) = unat v div 2 ^ 7"
    by (simp only: unat_drop_bit_eq) (simp add: drop_bit_eq_div)
  have "unat v div 2 ^ 7 \<noteq> 0"
    using assms(2) eq by (metis unat_eq_zero)
  then have "2 ^ 7 \<le> unat v"
    by (metis div_less not_le)
  with assms(1) have "2 ^ 7 < (2 :: nat) ^ (n - shift)"
    by (rule le_less_trans [rotated])
  then have 7: "7 < n - shift"
    by (rule power_less_imp_less_exp [rotated]) simp
  then show "shift + 7 < n" by simp
  have "(2 :: nat) ^ (n - (shift + 7)) * 2 ^ 7 = 2 ^ (n - shift)"
    using 7 by (simp only: power_add [symmetric]) (rule arg_cong [of _ _ "(^) 2"], simp)
  with assms(1) have "unat v < 2 ^ (n - (shift + 7)) * 2 ^ 7"
    by (simp only:)
  then show "unat (drop_bit 7 v) < 2 ^ (n - (shift + 7))"
    unfolding eq by (rule less_mult_imp_div_less)
qed

lemma ob_get_cons:
  assumes "ob_wf b" "ob_avail b = c # rest"
  shows "ob_get b = Some (uint c, b\<lparr>position := position b + 1\<rparr>)"
    "ob_wf (b\<lparr>position := position b + 1\<rparr>)" "ob_avail (b\<lparr>position := position b + 1\<rparr>) = rest"
  using ob_avail_read [of b "[c]" rest] assms by (simp_all add: ob_get_def)

lemma ob_get_packed_loop_byte:
  assumes "ob_get b = Some (uint c, b')" "shift < 32"
  shows "ob_get_packed_ui32_loop b ret shift =
      (if (ucast c :: uint32) AND 0x80 \<noteq> 0
       then ob_get_packed_ui32_loop b' (ret OR push_bit shift (ucast c AND 0x7f)) (shift + 7)
       else Some (ret OR push_bit shift (ucast c AND 0x7f), b'))"
    and "ob_get_packed_ui64_loop b ret' shift =
      (if (ucast c :: uint32) AND 0x80 \<noteq> 0
       then ob_get_packed_ui64_loop b' (ret' OR scast (push_bit shift (ucast c AND 0x7f) :: uint32)) (shift + 7)
       else Some (ret' OR scast (push_bit shift (ucast c AND 0x7f) :: uint32), b'))"
  using assms
  by (simp_all add: ob_get_packed_ui32_loop.simps [of b] ob_get_packed_ui64_loop.simps [of b]
      ucast_eq [symmetric] Let_def)

lemma ob_get_packed_ui32_loop_pack7:
  "ob_wf b \<Longrightarrow> ob_avail b = pack7 v @ rest \<Longrightarrow> shift < 32 \<Longrightarrow> unat v < 2 ^ (32 - shift) \<Longrightarrow>
   ob_get_packed_ui32_loop b ret shift =
     Some (ret OR push_bit shift v, b\<lparr>position := position b + length (pack7 v)\<rparr>)"
proof (induction v arbitrary: b ret shift rule: pack7.induct)
  case (1 v)
  let ?b = "b\<lparr>position := position b + 1\<rparr>"
  let ?tl = "if drop_bit 7 v \<noteq> 0 then pack7 (drop_bit 7 v) else []"
  have pk: "pack7 v = pack7_byte v # ?tl"
    by (rule pack7.simps)
  have hd: "ob_get b = Some (uint (pack7_byte v), ?b)" "ob_wf ?b" "ob_avail ?b = ?tl @ rest"
    using ob_get_cons [of b "pack7_byte v" "?tl @ rest"] "1.prems"(1,2) pk by simp_all
  have or: "push_bit shift v = push_bit shift (v AND 0x7f) OR push_bit (shift + 7) (drop_bit 7 v)"
    by (subst split7 [of v, symmetric]) (simp only: push_bit_or push_bit_push_bit)
  have step: "ob_get_packed_ui32_loop b ret shift =
     (if drop_bit 7 v \<noteq> 0
      then ob_get_packed_ui32_loop ?b (ret OR push_bit shift (v AND 0x7f)) (shift + 7)
      else Some (ret OR push_bit shift (v AND 0x7f), ?b))"
    by (simp only: ob_get_packed_loop_byte(1) [OF hd(1) "1.prems"(3)] pack7_byte_value
        pack7_byte_more)
  show ?case
  proof (cases "drop_bit 7 v = 0")
    case True
    then have "length (pack7 v) = 1" using pk by simp
    with True show ?thesis
      by (simp only: step or push_bit_of_0 or.right_neutral simp_thms if_False)
  next
    case False
    then have len: "length (pack7 v) = 1 + length (pack7 (drop_bit 7 v))" using pk by simp
    note small = unat_drop_bit_7_less [OF "1.prems"(4) False]
    have av: "ob_avail ?b = pack7 (drop_bit 7 v) @ rest" using hd False by simp
    have "ob_get_packed_ui32_loop b ret shift =
        Some (ret OR push_bit shift (v AND 0x7f) OR push_bit (shift + 7) (drop_bit 7 v),
          ?b\<lparr>position := position ?b + length (pack7 (drop_bit 7 v))\<rparr>)"
      using False by (simp only: step "1.IH" [OF False hd(2) av small(2,1)] simp_thms if_True or.assoc)
    then show ?thesis
      by (simp add: or len or.assoc del: push_bit_and)
  qed
qed

text \<open>
  As an \<open>int\<close> the shifted group survives the sign extension to 64 bits only below bit 31.
\<close>

lemma scast_push7:
  fixes w :: uint64
  assumes "unat w < 2 ^ (31 - shift)" "shift < 31"
  shows "scast (push_bit shift (ucast w AND 0x7f) :: uint32) = push_bit shift (w AND 0x7f)"
proof (rule bit_word_eqI)
  fix n
  have low: "k + shift < 31" if "bit w k" for k
  proof -
    have "2 ^ k < (2 :: nat) ^ (31 - shift)"
      using bit_imp_le_unat [OF that] assms(1) by (rule le_less_trans)
    then have "k < 31 - shift"
      by (rule power_less_imp_less_exp [rotated]) simp
    then show ?thesis by simp
  qed
  show "bit (scast (push_bit shift (ucast w AND 0x7f) :: uint32) :: uint64) n =
      bit (push_bit shift (w AND 0x7f)) n" if "n < LENGTH(64)"
    using low [of "n - shift"] low [of "31 - shift"] assms(2)
    by (auto simp: bit_signed_iff bit_push_bit_iff bit_and_iff bit_ucast_iff min_def)
qed

lemma ob_get_packed_ui64_loop_pack7:
  "ob_wf b \<Longrightarrow> ob_avail b = pack7 v @ rest \<Longrightarrow> shift < 31 \<Longrightarrow> unat v < 2 ^ (31 - shift) \<Longrightarrow>
   ob_get_packed_ui64_loop b ret shift =
     Some (ret OR push_bit shift v, b\<lparr>position := position b + length (pack7 v)\<rparr>)"
proof (induction v arbitrary: b ret shift rule: pack7.induct)
  case (1 v)
  let ?b = "b\<lparr>position := position b + 1\<rparr>"
  let ?tl = "if drop_bit 7 v \<noteq> 0 then pack7 (drop_bit 7 v) else []"
  have pk: "pack7 v = pack7_byte v # ?tl"
    by (rule pack7.simps)
  have hd: "ob_get b = Some (uint (pack7_byte v), ?b)" "ob_wf ?b" "ob_avail ?b = ?tl @ rest"
    using ob_get_cons [of b "pack7_byte v" "?tl @ rest"] "1.prems"(1,2) pk by simp_all
  have or: "push_bit shift v = push_bit shift (v AND 0x7f) OR push_bit (shift + 7) (drop_bit 7 v)"
    by (subst split7 [of v, symmetric]) (simp only: push_bit_or push_bit_push_bit)
  have "shift < 32" using "1.prems"(3) by simp
  note step = ob_get_packed_loop_byte(2) [OF hd(1) this, of ret, unfolded pack7_byte_value
      pack7_byte_more scast_push7 [OF "1.prems"(4,3)]]
  show ?case
  proof (cases "drop_bit 7 v = 0")
    case True
    then have "length (pack7 v) = 1" using pk by simp
    with True show ?thesis
      by (simp only: step or push_bit_of_0 or.right_neutral simp_thms if_False)
  next
    case False
    then have len: "length (pack7 v) = 1 + length (pack7 (drop_bit 7 v))" using pk by simp
    note small = unat_drop_bit_7_less [OF "1.prems"(4) False]
    have av: "ob_avail ?b = pack7 (drop_bit 7 v) @ rest" using hd False by simp
    have "ob_get_packed_ui64_loop b ret shift =
        Some (ret OR push_bit shift (v AND 0x7f) OR push_bit (shift + 7) (drop_bit 7 v),
          ?b\<lparr>position := position ?b + length (pack7 (drop_bit 7 v))\<rparr>)"
      using False by (simp only: step "1.IH" [OF False hd(2) av small(2,1)] simp_thms if_True or.assoc)
    then show ?thesis
      by (simp add: or len or.assoc del: push_bit_and)
  qed
qed

interpretation ob_packed_ui32: ob_codec ob_append_packed_ui32 ob_get_packed_ui32 pack7
proof
  fix b rest and v :: uint32
  assume "ob_wf b" "ob_avail b = pack7 v @ rest"
  then show "ob_get_packed_ui32 b = Some (v, b\<lparr>position := position b + length (pack7 v)\<rparr>)"
    using ob_get_packed_ui32_loop_pack7 [of b v rest 0 0] unsigned_less [of v]
    by (simp add: ob_get_packed_ui32_def)
qed (simp_all add: ob_append_packed_ui32_appended ob_append_packed_ui32_fits)

lemma ob_get_packed_ui64_pack7:
  assumes "ob_wf b" "ob_avail b = pack7 v @ rest" "unat v < 2 ^ 31"
  shows "ob_get_packed_ui64 b = Some (v, b\<lparr>position := position b + length (pack7 v)\<rparr>)"
  using ob_get_packed_ui64_loop_pack7 [OF assms(1,2), of 0 0] assms(3)
  by (simp add: ob_get_packed_ui64_def)

text \<open>A packed value of six bytes or more makes the getter shift an \<open>int\<close> by 35 bits.\<close>

lemma ob_get_packed_ui64_loop_undefined:
  "ob_wf b \<Longrightarrow> ob_avail b = pack7 v @ rest \<Longrightarrow> shift \<le> 35 \<Longrightarrow> 7 dvd shift \<Longrightarrow>
   2 ^ (35 - shift) \<le> unat v \<Longrightarrow> ob_get_packed_ui64_loop b ret shift = None"
  for v :: uint64
proof (induction v arbitrary: b ret shift rule: pack7.induct)
  case (1 v)
  let ?b = "b\<lparr>position := position b + 1\<rparr>"
  let ?tl = "if drop_bit 7 v \<noteq> 0 then pack7 (drop_bit 7 v) else []"
  have pk: "pack7 v = pack7_byte v # ?tl"
    by (rule pack7.simps)
  have hd: "ob_get b = Some (uint (pack7_byte v), ?b)" "ob_wf ?b" "ob_avail ?b = ?tl @ rest"
    using ob_get_cons [of b "pack7_byte v" "?tl @ rest"] "1.prems"(1,2) pk by simp_all
  show ?case
  proof (cases "shift = 35")
    case True
    then show ?thesis
      using hd(1) by (simp add: ob_get_packed_ui64_loop.simps [of b])
  next
    case False
    then have "shift \<le> 28"
      using "1.prems"(3,4) by presburger
    then have "shift < 32" by simp
    note step = ob_get_packed_loop_byte(2) [OF hd(1) this, of ret, unfolded pack7_byte_value pack7_byte_more]
    have p: "(2 :: nat) ^ (35 - shift) = 2 ^ (35 - (shift + 7)) * 2 ^ 7"
      using \<open>shift \<le> 28\<close> by (simp only: power_add [symmetric]) (rule arg_cong [of _ _ "(^) 2"], simp)
    have eq: "unat (drop_bit 7 v) = unat v div 2 ^ 7"
      by (simp only: unat_drop_bit_eq) (simp add: drop_bit_eq_div)
    have big: "2 ^ (35 - (shift + 7)) \<le> unat (drop_bit 7 v)"
      using "1.prems"(5) unfolding eq p by (simp add: less_eq_div_iff_mult_less_eq)
    then have nz: "drop_bit 7 v \<noteq> 0"
      by (auto simp: unat_eq_zero)
    have av: "ob_avail ?b = pack7 (drop_bit 7 v) @ rest" using hd nz by simp
    have "shift + 7 \<le> 35" "7 dvd shift + 7" using \<open>shift \<le> 28\<close> "1.prems"(4) by simp_all
    then show ?thesis
      using nz by (simp only: step "1.IH" [OF nz hd(2) av _ _ big] simp_thms if_True)
  qed
qed

end
