(* ===== verification/Overlay_Fields.thy ===== *)
theory Overlay_Fields imports Overlay_Buffer_Correct begin

text \<open>
  Messages in overlay buffers: sequences of fields are written, flipped and read back, checkpoints
  and overruns, the safety of every getter, and the operations that fail.
\<close>

section \<open>Sequences of fields\<close>

text \<open>
  A message is built by a sequence of appends. \<open>ob_append_field\<close> and \<open>ob_get_field\<close> name the
  operation for each kind of field, \<open>field_bytes\<close> the bytes it stands for on the wire.
\<close>

datatype ob_field =
    Field_byte byte | Field_bytes "byte list"
  | Field_ui16 uint16 | Field_ui16_rv uint16
  | Field_ui32 uint32 | Field_ui32_rv uint32
  | Field_ui64 uint64 | Field_ui64_rv uint64
  | Field_packed_ui32 uint32 | Field_packed_ui64 uint64

fun field_bytes :: "ob_field \<Rightarrow> byte list" where
  "field_bytes (Field_byte v) = [v]"
| "field_bytes (Field_bytes xs) = xs"
| "field_bytes (Field_ui16 v) = [byte_at 8 v, byte_at 0 v]"
| "field_bytes (Field_ui16_rv v) = [byte_at 0 v, byte_at 8 v]"
| "field_bytes (Field_ui32 v) = [byte_at 24 v, byte_at 16 v, byte_at 8 v, byte_at 0 v]"
| "field_bytes (Field_ui32_rv v) = [byte_at 0 v, byte_at 8 v, byte_at 16 v, byte_at 24 v]"
| "field_bytes (Field_ui64 v) =
     [byte_at 56 v, byte_at 48 v, byte_at 40 v, byte_at 32 v,
      byte_at 24 v, byte_at 16 v, byte_at 8 v, byte_at 0 v]"
| "field_bytes (Field_ui64_rv v) =
     [byte_at 0 v, byte_at 8 v, byte_at 16 v, byte_at 24 v,
      byte_at 32 v, byte_at 40 v, byte_at 48 v, byte_at 56 v]"
| "field_bytes (Field_packed_ui32 v) = pack7 v"
| "field_bytes (Field_packed_ui64 v) = pack7 v"

fun ob_append_field :: "allocator \<Rightarrow> overlay_buffer \<Rightarrow> ob_field \<Rightarrow> overlay_buffer option" where
  "ob_append_field al b (Field_byte v) = ob_append_byte al b v"
| "ob_append_field al b (Field_bytes xs) = ob_append_bytes al b xs"
| "ob_append_field al b (Field_ui16 v) = ob_append_ui16 al b v"
| "ob_append_field al b (Field_ui16_rv v) = ob_append_ui16_rv al b v"
| "ob_append_field al b (Field_ui32 v) = ob_append_ui32 al b v"
| "ob_append_field al b (Field_ui32_rv v) = ob_append_ui32_rv al b v"
| "ob_append_field al b (Field_ui64 v) = ob_append_ui64 al b v"
| "ob_append_field al b (Field_ui64_rv v) = ob_append_ui64_rv al b v"
| "ob_append_field al b (Field_packed_ui32 v) = ob_append_packed_ui32 al b v"
| "ob_append_field al b (Field_packed_ui64 v) = ob_append_packed_ui64 al b v"

fun ob_append_fields ::
  "allocator \<Rightarrow> overlay_buffer \<Rightarrow> ob_field list \<Rightarrow> overlay_buffer option" where
  "ob_append_fields al b [] = Some b"
| "ob_append_fields al b (f # fs) = ob_append_field al b f \<bind> (\<lambda>b. ob_append_fields al b fs)"

text \<open>Reading a field of the same kind (and, for raw bytes, the same length) as the argument.\<close>

fun ob_get_field :: "ob_field \<Rightarrow> overlay_buffer \<Rightarrow> (ob_field \<times> overlay_buffer) option" where
  "ob_get_field (Field_byte _) b =
     map_option (\<lambda>(v, b). (Field_byte (word_of_int v), b)) (ob_get b)"
| "ob_get_field (Field_bytes xs) b =
     (case ob_get_bytes b (length xs) of
        Some (Some ys, b) \<Rightarrow> Some (Field_bytes ys, b) | _ \<Rightarrow> None)"
| "ob_get_field (Field_ui16 _) b = map_option (\<lambda>(v, b). (Field_ui16 v, b)) (ob_get_ui16 b)"
| "ob_get_field (Field_ui16_rv _) b = map_option (\<lambda>(v, b). (Field_ui16_rv v, b)) (ob_get_ui16_rv b)"
| "ob_get_field (Field_ui32 _) b = map_option (\<lambda>(v, b). (Field_ui32 v, b)) (ob_get_ui32 b)"
| "ob_get_field (Field_ui32_rv _) b = map_option (\<lambda>(v, b). (Field_ui32_rv v, b)) (ob_get_ui32_rv b)"
| "ob_get_field (Field_ui64 _) b = map_option (\<lambda>(v, b). (Field_ui64 v, b)) (ob_get_ui64 b)"
| "ob_get_field (Field_ui64_rv _) b = map_option (\<lambda>(v, b). (Field_ui64_rv v, b)) (ob_get_ui64_rv b)"
| "ob_get_field (Field_packed_ui32 _) b =
     map_option (\<lambda>(v, b). (Field_packed_ui32 v, b)) (ob_get_packed_ui32 b)"
| "ob_get_field (Field_packed_ui64 _) b =
     map_option (\<lambda>(v, b). (Field_packed_ui64 v, b)) (ob_get_packed_ui64 b)"

fun ob_get_fields :: "ob_field list \<Rightarrow> overlay_buffer \<Rightarrow> (ob_field list \<times> overlay_buffer) option" where
  "ob_get_fields [] b = Some ([], b)"
| "ob_get_fields (f # fs) b = do {
     (v, b) \<leftarrow> ob_get_field f b;
     (vs, b) \<leftarrow> ob_get_fields fs b;
     Some (v # vs, b)
   }"

text \<open>The fields the getters read back: see \<open>ob_get_ui64_wrong\<close> and \<open>ob_get_packed_ui64_undefined\<close>
  for the others.\<close>

fun field_readable :: "ob_field \<Rightarrow> bool" where
  "field_readable (Field_bytes xs) = (xs \<noteq> [])"
| "field_readable (Field_ui64 v) = False"
| "field_readable (Field_packed_ui64 v) = (unat v < 2 ^ 31)"
| "field_readable _ = True"

lemma field_readable_nonempty: "field_readable f \<Longrightarrow> field_bytes f \<noteq> []"
  by (cases f) simp_all

lemma ob_append_field_appended:
  "ob_wf b \<Longrightarrow> malloc_ok al \<Longrightarrow> position b + length (field_bytes f) \<le> ob_bound \<Longrightarrow>
   ob_append_field al b f = Some b' \<Longrightarrow> ob_appended b (field_bytes f) b'"
  by (cases f) (auto simp: ob_append_raw_eqs ob_append_raw_appended ob_append_packed_ui32_appended
      ob_append_packed_ui64_appended split: if_splits)

lemma ob_append_field_fits:
  "ob_wf b \<Longrightarrow> malloc_ok al \<Longrightarrow> ob_growable al b \<Longrightarrow> \<not> ob_overrun b \<Longrightarrow>
   ob_fits b (length (field_bytes f)) \<Longrightarrow> field_readable f \<Longrightarrow>
   \<exists>b'. ob_append_field al b f = Some b' \<and> \<not> ob_overrun b' \<and> ob_growable al b'"
  by (cases f) (auto simp: ob_append_raw_eqs ob_append_raw_fits ob_append_packed_ui32_fits
      ob_append_packed_ui64_fits)

lemma ob_get_bytes_avail:
  assumes "ob_wf b" "ob_avail b = xs @ rest" "xs \<noteq> []"
  shows "ob_get_bytes b (length xs) = Some (Some xs, b\<lparr>position := position b + length xs\<rparr>)"
  using ob_avail_read [OF assms] by (simp add: ob_get_bytes_def)

lemma ob_get_field_avail:
  assumes "ob_wf b" "ob_avail b = field_bytes f @ rest" "field_readable f"
  shows "ob_get_field f b = Some (f, b\<lparr>position := position b + length (field_bytes f)\<rparr>)"
  using assms
proof (cases f)
  case (Field_byte v)
  with assms ob_byte.get_avail [of b v rest] show ?thesis by auto
next
  case (Field_bytes xs)
  with assms ob_get_bytes_avail show ?thesis by auto
next
  case (Field_ui16 v)
  with assms ob_ui16.get_avail [of b v rest] show ?thesis by simp
next
  case (Field_ui16_rv v)
  with assms ob_ui16_rv.get_avail [of b v rest] show ?thesis by simp
next
  case (Field_ui32 v)
  with assms ob_ui32.get_avail [of b v rest] show ?thesis by simp
next
  case (Field_ui32_rv v)
  with assms ob_ui32_rv.get_avail [of b v rest] show ?thesis by simp
next
  case (Field_ui64_rv v)
  with assms ob_ui64_rv.get_avail [of b v rest] show ?thesis by simp
next
  case (Field_packed_ui32 v)
  with assms ob_packed_ui32.get_avail [of b v rest] show ?thesis by simp
next
  case (Field_packed_ui64 v)
  with assms ob_get_packed_ui64_pack7 [of b v rest] show ?thesis by simp
qed simp_all

lemma ob_append_fields_appended:
  "ob_wf b \<Longrightarrow> malloc_ok al \<Longrightarrow> position b + length (concat (map field_bytes fs)) \<le> ob_bound \<Longrightarrow>
   ob_append_fields al b fs = Some b' \<Longrightarrow> ob_appended b (concat (map field_bytes fs)) b'"
proof (induction fs arbitrary: b)
  case Nil
  then show ?case by (simp add: ob_appended_refl)
next
  case (Cons f fs)
  then obtain b1 where b1: "ob_append_field al b f = Some b1" "ob_append_fields al b1 fs = Some b'"
    by (auto split: bind_splits)
  have a1: "ob_appended b (field_bytes f) b1"
    using Cons.prems b1(1) by (intro ob_append_field_appended) auto
  then have "ob_appended b1 (concat (map field_bytes fs)) b'"
    using Cons.prems b1(2) by (intro Cons.IH) (auto simp: ob_appended_def)
  from ob_appended_trans [OF a1 this] show ?case by simp
qed

lemma ob_append_fields_fits:
  "ob_wf b \<Longrightarrow> malloc_ok al \<Longrightarrow> ob_growable al b \<Longrightarrow> \<not> ob_overrun b \<Longrightarrow>
   ob_fits b (length (concat (map field_bytes fs))) \<Longrightarrow> list_all field_readable fs \<Longrightarrow>
   \<exists>b'. ob_append_fields al b fs = Some b' \<and> \<not> ob_overrun b'"
proof (induction fs arbitrary: b)
  case (Cons f fs)
  then obtain b1 where b1: "ob_append_field al b f = Some b1" "\<not> ob_overrun b1" "ob_growable al b1"
    using ob_append_field_fits [of b al f] by (auto simp: ob_fits_def)
  have "ob_appended b (field_bytes f) b1"
    using Cons.prems b1(1) by (intro ob_append_field_appended) (auto simp: ob_fits_def)
  then show ?case
    using Cons.IH [of b1] Cons.prems b1 by (auto simp: ob_appended_def ob_fits_def)
qed simp

lemma ob_get_fields_avail:
  "ob_wf b \<Longrightarrow> ob_avail b = concat (map field_bytes fs) @ rest \<Longrightarrow> list_all field_readable fs \<Longrightarrow>
   ob_get_fields fs b =
     Some (fs, b\<lparr>position := position b + length (concat (map field_bytes fs))\<rparr>)"
proof (induction fs arbitrary: b)
  case (Cons f fs)
  let ?b = "b\<lparr>position := position b + length (field_bytes f)\<rparr>"
  have av: "ob_avail b = field_bytes f @ (concat (map field_bytes fs) @ rest)"
    using Cons.prems(2) by simp
  have "ob_get_field f b = Some (f, ?b)"
    using Cons.prems(1,3) av by (intro ob_get_field_avail) auto
  moreover have "ob_wf ?b" "ob_avail ?b = concat (map field_bytes fs) @ rest"
    using ob_avail_read(4,5) [OF Cons.prems(1) av] Cons.prems(3) field_readable_nonempty by auto
  ultimately show ?case
    using Cons.IH [of ?b] Cons.prems(3) by (simp add: add.assoc)
qed simp


section \<open>Properties\<close>

text \<open>Unfolding for evaluation on concrete buffers.\<close>

lemmas ob_eval =
  ob_append_byte_def ob_append_bytes_def ob_append_ui16_def ob_append_ui16_rv_def ob_append_ui32_def
  ob_append_ui32_rv_def ob_append_ui64_def ob_append_ui64_rv_def ob_makespace_def ob_newSize_def
  ob_unlimitsize_def ob_zero_def ob_write_def ob_read_def mem_write_def mem_read_def
  size_add_def SIZE_MAX_def Let_def byte_at_def

abbreviation zero_alloc :: allocator where
  "zero_alloc \<equiv> \<lambda>n. Some (replicate n 0)"

lemma zero_alloc_ok: "malloc_ok zero_alloc"
  by (simp add: malloc_ok_def)

lemma ob_new_wf: "ob_wf (ob_unlimitsize ob_zero)" "\<not> ob_overrun (ob_unlimitsize ob_zero)"
  "ob_data (ob_unlimitsize ob_zero) = []" "position (ob_unlimitsize ob_zero) = 0"
  "ob_growable zero_alloc (ob_unlimitsize ob_zero)"
  by (simp_all add: ob_wf_def ob_overrun_def ob_data_def ob_content_def ob_unlimitsize_def ob_zero_def
      ob_growable_def SIZE_MAX_def)

text \<open>
  (C10) The writer's protocol. A message is appended field by field without checks and
  \<open>ob_overrun\<close> is asked once at the end. However the appends went (a limit reached, a static
  buffer full, an allocation refused), if the buffer is not overrun at the end, then every append
  succeeded and the buffer holds what it held before followed by the encodings of all the fields;
  overrun or not, the position has moved by the total length, the bytes before the old position
  are untouched, and the limit and the checkpoint are unchanged.
\<close>

theorem ob_append_fields_correct:
  assumes "ob_wf b" and "malloc_ok al"
    and "position b + length (concat (map field_bytes fs)) \<le> ob_bound"
    and "ob_append_fields al b fs = Some b'"
  shows "ob_wf b' \<and> position b' = position b + length (concat (map field_bytes fs)) \<and>
    sizeLimit b' = sizeLimit b \<and> checkpointLength b' = checkpointLength b \<and>
    take (position b) (ob_content b') = take (position b) (ob_content b) \<and>
    (\<not> ob_overrun b' \<longrightarrow> ob_data b' = ob_data b @ concat (map field_bytes fs))"
  using ob_append_fields_appended [OF assms] by (simp add: ob_appended_def)

theorem ob_append_fields_correct_witness:
  "\<exists>b'. ob_append_fields zero_alloc (ob_unlimitsize ob_zero) [Field_ui16 0x1234, Field_byte 7] = Some b' \<and>
     \<not> ob_overrun b' \<and> ob_data b' = [0x12, 0x34, 7]"
proof -
  let ?fs = "[Field_ui16 0x1234, Field_byte 7]"
  let ?b = "ob_unlimitsize ob_zero"
  have run: "ob_append_fields zero_alloc ?b ?fs =
      Some \<lparr>bytes = Some ([0x12, 0x34, 7] @ replicate 61 0), checkpointLength = 0, position = 3,
        sizeLimit = SIZE_MAX, allocSize = 64, allocated = True\<rparr>"
    (is "_ = Some ?b'")
    by (simp add: ob_eval)
  have "position ?b + length (concat (map field_bytes ?fs)) \<le> ob_bound"
    by (simp add: ob_new_wf ob_bound_def)
  from ob_append_fields_correct [OF ob_new_wf(1) zero_alloc_ok this run] run show ?thesis
    by (simp add: ob_new_wf ob_overrun_def byte_at_def)
qed

text \<open>
  (C7) Round trip. Any sequence of fields that fits, appended to a new buffer whose allocator does
  not run out, is read back by the matching getters after \<open>ob_flip\<close>: no step aborts, leaves its
  memory or reports an overrun, every getter returns the value appended, and nothing remains.
\<close>

theorem ob_fields_roundtrip:
  assumes "malloc_ok al" and "\<forall>n. al n \<noteq> None" and "list_all field_readable fs"
    and "length (concat (map field_bytes fs)) \<le> ob_bound"
  shows "\<exists>b1 b2 b3. ob_append_fields al (ob_unlimitsize ob_zero) fs = Some b1 \<and> \<not> ob_overrun b1 \<and>
    ob_flip b1 = Some b2 \<and> ob_get_fields fs b2 = Some (fs, b3) \<and> ob_remaining b3 = Some 0"
proof -
  let ?b = "ob_unlimitsize ob_zero" and ?xs = "concat (map field_bytes fs)"
  have lim: "sizeLimit ?b = SIZE_MAX" by (simp add: ob_unlimitsize_def)
  have gr: "ob_growable al ?b"
    using assms(2) by (simp add: ob_growable_def ob_unlimitsize_def ob_zero_def)
  have fit: "ob_fits ?b (length ?xs)"
    using assms(4) by (simp add: ob_fits_def ob_new_wf lim ob_bound_SIZE_MAX)
  obtain b1 where b1: "ob_append_fields al ?b fs = Some b1" "\<not> ob_overrun b1"
    using ob_append_fields_fits [OF ob_new_wf(1) assms(1) gr ob_new_wf(2) fit assms(3)] by auto
  have "ob_appended ?b ?xs b1"
    using b1 assms fit by (intro ob_append_fields_appended) (auto simp: ob_new_wf ob_fits_def)
  then have d1: "ob_wf b1" "ob_data b1 = ?xs" "position b1 = length ?xs" "position b1 \<noteq> SIZE_MAX"
    using b1(2) assms(4) by (auto simp: ob_appended_def ob_new_wf ob_bound_def SIZE_MAX_def)
  then obtain b2 where b2: "ob_flip b1 = Some b2" "ob_wf b2" "position b2 = 0"
      "ob_avail b2 = ?xs @ []" "sizeLimit b2 = length ?xs"
    using ob_flip_avail [OF d1(1) b1(2) d1(4)] by (metis append_Nil2)
  then show ?thesis
    using b1 d1 ob_get_fields_avail [OF b2(2,4) assms(3)] by (auto simp: ob_remaining_def)
qed

theorem ob_fields_roundtrip_witness:
  "\<exists>b1 b2 b3. ob_append_fields zero_alloc (ob_unlimitsize ob_zero)
      [Field_ui32 0xDEADBEEF, Field_packed_ui32 300, Field_bytes [1, 2], Field_ui64_rv 77] = Some b1 \<and>
    \<not> ob_overrun b1 \<and> ob_flip b1 = Some b2 \<and>
    ob_get_fields [Field_ui32 0xDEADBEEF, Field_packed_ui32 300, Field_bytes [1, 2], Field_ui64_rv 77] b2 =
      Some ([Field_ui32 0xDEADBEEF, Field_packed_ui32 300, Field_bytes [1, 2], Field_ui64_rv 77], b3) \<and>
    ob_remaining b3 = Some 0"
  by (rule ob_fields_roundtrip) (simp_all add: zero_alloc_ok ob_bound_def pack7.simps)

definition ob_read_safe :: "overlay_buffer \<Rightarrow> ('a \<times> overlay_buffer) option \<Rightarrow> bool" where
  "ob_read_safe b r \<longleftrightarrow> (\<exists>v p. r = Some (v, b\<lparr>position := p\<rparr>) \<and> position b \<le> p \<and>
     (position b \<le> min (sizeLimit b) (allocSize b) \<longrightarrow> p \<le> min (sizeLimit b) (allocSize b)))"

lemma ob_read_safe_fixed:
  assumes "ob_wf b" "position b \<le> ob_bound" "0 < n" "n \<le> 2 ^ 32"
  shows "ob_read_safe b (if \<not> test_offset b n then Some (e, b)
    else ob_read b (position b) n \<bind> (\<lambda>p. Some (f p, b\<lparr>position := size_add (position b) n\<rparr>)))"
proof (cases "test_offset b n")
  case True
  have sz: "size_add (position b) n = position b + n"
    using assms(2,4) by (simp add: size_add_eq ob_bound_def SIZE_MAX_def)
  then have fit: "position b + n \<le> min (sizeLimit b) (allocSize b)"
    using True by (simp add: test_offset_def)
  then have "bytes b \<noteq> None"
    using ob_wf_NULL [OF assms(1)] assms(3) by (cases "bytes b") auto
  then have "\<exists>p. ob_read b (position b) n = Some p"
    using fit assms(1) by (auto simp: ob_read_def mem_simps ob_wf_def ob_content_def)
  with True sz fit show ?thesis
    by (auto simp: ob_read_safe_def intro!: exI [of _ "position b + n"])
next
  case False
  then show ?thesis
    by (auto simp: ob_read_safe_def intro!: exI [of _ "position b"])
qed

text \<open>
  (C12) Memory safety of reading. On a well-formed buffer every fixed-width getter is defined: it
  reads inside the memory object or returns its error value, and it changes nothing but the
  position, which never passes the size limit or the end of the object.
\<close>

theorem ob_getters_safe:
  assumes "ob_wf b" and "position b \<le> ob_bound"
  shows "ob_read_safe b (ob_get b) \<and> ob_read_safe b (ob_get_ui16 b) \<and>
    ob_read_safe b (ob_get_ui16_rv b) \<and> ob_read_safe b (ob_get_ui32 b) \<and>
    ob_read_safe b (ob_get_ui32_rv b) \<and> ob_read_safe b (ob_get_ui64 b) \<and>
    ob_read_safe b (ob_get_ui64_rv b) \<and> ob_peek b \<noteq> None \<and>
    (\<forall>n. 0 < n \<and> n \<le> 2 ^ 32 \<longrightarrow> ob_read_safe b (ob_get_bytes b n))"
proof -
  note fixed = ob_read_safe_fixed [OF assms]
  have "ob_read_safe b (if \<not> test_offset b 1 then Some (-1, b)
      else ob_read b (position b) 1 \<bind> (\<lambda>p. Some (uint (hd p), b\<lparr>position := size_add (position b) 1\<rparr>)))"
    by (rule fixed) simp_all
  then have "ob_peek b \<noteq> None"
    by (auto simp: ob_peek_def ob_read_safe_def split: bind_splits if_splits)
  then show ?thesis
    unfolding ob_get_def ob_get_ui16_def ob_get_ui16_rv_def ob_get_ui32_def ob_get_ui32_rv_def
      ob_get_ui64_def ob_get_ui64_rv_def ob_get_bytes_def Let_def
    by (intro conjI allI impI fixed) simp_all
qed

theorem ob_getters_safe_witness:
  "ob_read_safe (ob_unlimitsize ob_zero) (ob_get_ui32 (ob_unlimitsize ob_zero)) \<and>
   ob_get_ui32 (ob_unlimitsize ob_zero) = Some (0xFFFFFFFF, ob_unlimitsize ob_zero)"
  using ob_getters_safe [OF ob_new_wf(1)]
  by (simp add: ob_new_wf) (simp add: ob_get_ui32_def test_offset_def ob_eval)


lemma bit_scast_uint64:
  "bit (scast x :: uint64) n \<longleftrightarrow> n < 64 \<and> bit x (if n < 32 then n else 31)" for x :: uint32
proof -
  have "min 31 n = (if n < 32 then n else 31)" by simp
  then show ?thesis by (simp add: bit_signed_iff)
qed

lemma bit_int_byte_at:
  fixes v :: uint64
  shows "bit (push_bit k (ucast (byte_at k v)) :: uint32) n \<longleftrightarrow> n < 32 \<and> k \<le> n \<and> n < k + 8 \<and> bit v n"
    and "bit (ucast (byte_at 0 v) :: uint32) n \<longleftrightarrow> n < 8 \<and> bit v n"
  by (auto simp: bit_push_bit_iff bit_ucast_iff)

text \<open>
  (C28) \<open>ob_get_ui64\<close> does not read what \<open>ob_append_ui64\<close> writes. Bits 32 to 39 of the value are
  placed four bits too high (\<open><< 36\<close> for \<open><< 32\<close>), and bit 31 is sign-extended over the whole
  upper half: the theorem gives every bit of the result.
\<close>

theorem ob_get_ui64_wrong:
  assumes "ob_wf b" and "ob_avail b = field_bytes (Field_ui64 v) @ rest"
  shows "\<exists>w b'. ob_get_ui64 b = Some (w, b') \<and> (\<forall>n < 64. bit w n \<longleftrightarrow>
    (n < 32 \<or> 40 \<le> n) \<and> bit v n \<or> 36 \<le> n \<and> n < 44 \<and> bit v (n - 4) \<or> 32 \<le> n \<and> bit v 31)"
proof -
  let ?w = "push_bit 56 (ucast (byte_at 56 v)) OR push_bit 48 (ucast (byte_at 48 v))
      OR push_bit 40 (ucast (byte_at 40 v)) OR push_bit 36 (ucast (byte_at 32 v))
      OR scast (push_bit 24 (ucast (byte_at 24 v) :: uint32))
      OR scast (push_bit 16 (ucast (byte_at 16 v) :: uint32))
      OR scast (push_bit 8 (ucast (byte_at 8 v) :: uint32))
      OR scast (ucast (byte_at 0 v) :: uint32) :: uint64"
  have "\<exists>b'. ob_get_ui64 b = Some (?w, b')"
    using ob_get_raw [OF assms(1), of "field_bytes (Field_ui64 v)" rest 8] assms(2)
    by (simp add: ob_get_ui64_def)
  moreover have "bit (push_bit 36 (ucast (byte_at 32 v)) :: uint64) n \<longleftrightarrow>
      36 \<le> n \<and> n < 44 \<and> bit v (n - 4)" for n
    by (cases "n < 36") (auto simp: bit_push_bit_iff bit_ucast_iff dest: bit_imp_le_length)
  then have "bit ?w n \<longleftrightarrow>
    (n < 32 \<or> 40 \<le> n) \<and> bit v n \<or> 36 \<le> n \<and> n < 44 \<and> bit v (n - 4) \<or> 32 \<le> n \<and> bit v 31"
    if "n < 64" for n
    using that
    by (simp only: bit_or_iff bit_push_byte_at bit_scast_uint64 bit_int_byte_at)
      (cases "n < 32"; simp; linarith)
  ultimately show ?thesis by blast
qed


theorem ob_get_ui64_wrong_witness:
  "\<exists>w b'. ob_get_ui64 \<lparr>bytes = Some [0, 0, 0, 1, 0, 0, 0, 0], checkpointLength = 0, position = 0,
      sizeLimit = 8, allocSize = 8, allocated = False\<rparr> = Some (w, b') \<and> bit w 36 \<and> \<not> bit w 32"
proof -
  let ?b = "\<lparr>bytes = Some [0, 0, 0, 1, 0, 0, 0, 0], checkpointLength = 0, position = 0,
      sizeLimit = 8, allocSize = 8, allocated = False\<rparr>"
  have "ob_wf ?b"
    by (simp add: ob_wf_def ob_content_def SIZE_MAX_def)
  moreover have "ob_avail ?b = field_bytes (Field_ui64 0x100000000) @ []"
    by (simp add: ob_avail_def ob_content_def byte_at_def)
  ultimately have "\<exists>w b'. ob_get_ui64 ?b = Some (w, b') \<and> (\<forall>n < 64. bit w n \<longleftrightarrow>
    (n < 32 \<or> 40 \<le> n) \<and> bit (0x100000000 :: uint64) n \<or>
    36 \<le> n \<and> n < 44 \<and> bit (0x100000000 :: uint64) (n - 4) \<or>
    32 \<le> n \<and> bit (0x100000000 :: uint64) 31)"
    by (rule ob_get_ui64_wrong)
  then obtain w b' where w: "ob_get_ui64 ?b = Some (w, b')" and bits: "\<forall>n < 64. bit w n \<longleftrightarrow>
    (n < 32 \<or> 40 \<le> n) \<and> bit (0x100000000 :: uint64) n \<or>
    36 \<le> n \<and> n < 44 \<and> bit (0x100000000 :: uint64) (n - 4) \<or>
    32 \<le> n \<and> bit (0x100000000 :: uint64) 31"
    by blast
  have "bit w 36" "\<not> bit w 32"
    using bits [rule_format, of 36] bits [rule_format, of 32] by simp_all
  with w show ?thesis by blast
qed

lemma unpack_uint_loop_pack7:
  "drop i buffer = pack7 v @ rest \<Longrightarrow> length buffer \<le> n \<Longrightarrow> 7 * i < 31 \<Longrightarrow> unat v < 2 ^ (31 - 7 * i) \<Longrightarrow>
   unpack_uint_loop buffer n i acc = Some (int (i + length (pack7 v)), acc OR push_bit (7 * i) v)"
proof (induction v arbitrary: i acc rule: pack7.induct)
  case (1 v)
  let ?c = "pack7_byte v"
  let ?tl = "if drop_bit 7 v \<noteq> 0 then pack7 (drop_bit 7 v) else []"
  have pk: "pack7 v = ?c # ?tl"
    by (rule pack7.simps)
  have dr: "drop i buffer = ?c # (?tl @ rest)"
    using "1.prems"(1) pk by simp
  then have i: "i < length buffer"
    by (metis drop_all list.distinct(1) not_le)
  have hd: "buffer ! i = ?c"
    using dr i by (metis Cons_nth_drop_Suc list.inject)
  have tl: "drop (i + 1) buffer = ?tl @ rest"
    using dr i by (metis Cons_nth_drop_Suc Suc_eq_plus1 list.inject)
  have or: "push_bit (7 * i) v = push_bit (7 * i) (v AND 0x7f) OR push_bit (7 * i + 7) (drop_bit 7 v)"
    by (subst split7 [of v, symmetric]) (simp only: push_bit_or push_bit_push_bit)
  have more: "buffer ! i AND 0x80 \<noteq> 0 \<longleftrightarrow> drop_bit 7 v \<noteq> 0"
    unfolding hd pack7_byte_more(2) [symmetric] and_0x80_eq_0 by (simp add: bit_ucast_iff)
  have sh: "int_shl7 (buffer ! i) (i * 7) = Some (push_bit (7 * i) (ucast v AND 0x7f))"
    unfolding int_shl7_def hd pack7_byte_value(2) using "1.prems"(3) by (simp add: mult.commute)
  have step: "unpack_uint_loop buffer n i acc =
      (if drop_bit 7 v \<noteq> 0 then unpack_uint_loop buffer n (i + 1) (acc OR push_bit (7 * i) (v AND 0x7f))
       else Some (int i + 1, acc OR push_bit (7 * i) (v AND 0x7f)))"
    unfolding unpack_uint_loop.simps [of buffer n i acc] more sh option.case Let_def
      scast_push7 [OF "1.prems"(4,3)] using i "1.prems"(2) by simp
  show ?case
  proof (cases "drop_bit 7 v = 0")
    case True
    then have "length (pack7 v) = 1" using pk by simp
    with True show ?thesis
      by (simp only: step or push_bit_of_0 or.right_neutral simp_thms if_False of_nat_add of_nat_1)
  next
    case False
    then have len: "length (pack7 v) = 1 + length (pack7 (drop_bit 7 v))" using pk by simp
    have tl': "drop (i + 1) buffer = pack7 (drop_bit 7 v) @ rest" using tl False by simp
    have small: "unat (drop_bit 7 v) < 2 ^ (31 - 7 * (i + 1))" "7 * (i + 1) < 31"
      using unat_drop_bit_7_less [OF "1.prems"(4) False] by simp_all
    have "unpack_uint_loop buffer n i acc =
      Some (int (i + 1 + length (pack7 (drop_bit 7 v))),
        acc OR push_bit (7 * i) (v AND 0x7f) OR push_bit (7 * (i + 1)) (drop_bit 7 v))"
      using False by (simp only: step "1.IH" [OF False tl' "1.prems"(2) small(2,1)] simp_thms if_True or.assoc)
    then show ?thesis
      by (simp add: or len add.commute add.left_commute del: push_bit_and)
  qed
qed

text \<open>
  (C30) Packed 64-bit values make the round trip up to 2 ^ 31 - 1, in a buffer and through
  \<open>pack_uint\<close> and \<open>unpack_uint\<close>, which store and return the same bytes and their number.
\<close>

theorem packed_ui64_roundtrip:
  assumes "unat v < 2 ^ 31"
  shows "unpack_uint (pack_uint v @ rest) (length (pack_uint v @ rest)) =
      Some (int (measure_packed_uint v), v) \<and>
    (\<forall>b. ob_wf b \<and> ob_avail b = pack_uint v @ rest \<longrightarrow>
      ob_get_packed_ui64 b = Some (v, b\<lparr>position := position b + measure_packed_uint v\<rparr>))"
  using assms unpack_uint_loop_pack7 [of 0 "pack7 v @ rest" v rest] ob_get_packed_ui64_pack7 [of _ v rest]
  by (simp add: unpack_uint_def measure_packed_uint_length pack_uint_pack7)

theorem packed_ui64_roundtrip_witness:
  "unpack_uint [0xAC, 0x02, 9] 3 = Some (2, 300)"
proof -
  have "unat (300 :: uint64) < 2 ^ 31" by simp
  from packed_ui64_roundtrip [OF this, of "[9]"] show ?thesis
    by (simp add: pack_uint_pack7 pack7.simps measure_packed_uint.simps numeral_3_eq_3)
qed

text \<open>
  (C31) A packed value of 2 ^ 35 or more, which \<open>ob_append_packed_ui64\<close> writes in six bytes or
  more, makes \<open>ob_get_packed_ui64\<close> shift an \<open>int\<close> by 35 bits: the read is undefined.
\<close>

theorem ob_get_packed_ui64_undefined:
  assumes "ob_wf b" and "ob_avail b = pack_uint v @ rest" and "2 ^ 35 \<le> unat v"
  shows "ob_get_packed_ui64 b = None"
  using ob_get_packed_ui64_loop_undefined [OF assms(1), of v rest 0 0] assms(2,3)
  by (simp add: ob_get_packed_ui64_def pack_uint_pack7)

theorem ob_get_packed_ui64_undefined_witness:
  "ob_get_packed_ui64 \<lparr>bytes = Some [0x80, 0x80, 0x80, 0x80, 0x80, 1], checkpointLength = 0,
     position = 0, sizeLimit = 6, allocSize = 6, allocated = False\<rparr> = None"
  by (rule ob_get_packed_ui64_undefined [where v = "0x800000000" and rest = "[]"])
    (simp_all add: ob_wf_def ob_content_def SIZE_MAX_def ob_avail_def pack_uint.simps)


text \<open>
  (C32) The length of a packed 32-bit number is not bounded by the reader: five bytes with the top
  bit set, followed by any sixth byte, take \<open>ob_get_packed_ui32\<close> to a shift of an \<open>int\<close> by 35 bits.
\<close>

theorem ob_get_packed_ui32_undefined:
  assumes "ob_wf b" and "ob_avail b = cs @ c # rest" and "length cs = 5" and "\<forall>x \<in> set cs. bit x 7"
  shows "ob_get_packed_ui32 b = None"
proof -
  have loop: "ob_get_packed_ui32_loop b' ret shift = None"
    if "ob_wf b'" "ob_avail b' = cs' @ c # rest" "\<forall>x \<in> set cs'. bit x 7" "shift + 7 * length cs' = 35"
    for b' ret shift cs'
    using that
  proof (induction cs' arbitrary: b' ret shift)
    case Nil
    then show ?case
      using ob_get_cons(1) [of b' c rest] by (simp add: ob_get_packed_ui32_loop.simps [of b'])
  next
    case (Cons x xs)
    let ?b = "b'\<lparr>position := position b' + 1\<rparr>"
    have hd: "ob_get b' = Some (uint x, ?b)" "ob_wf ?b" "ob_avail ?b = xs @ c # rest"
      using ob_get_cons [of b' x "xs @ c # rest"] Cons.prems(1,2) by simp_all
    have "shift < 32" using Cons.prems(4) by simp
    moreover have "shift + 7 + 7 * length xs = 35" using Cons.prems(4) by simp
    ultimately show ?case
      using ob_get_packed_loop_byte(1) [OF hd(1), of shift ret] Cons.IH [OF hd(2,3)] Cons.prems(3)
      by (simp add: and_0x80_eq_0 bit_ucast_iff)
  qed
  show ?thesis
    using loop [OF assms(1,2,4)] assms(3) by (simp add: ob_get_packed_ui32_def)
qed

theorem ob_get_packed_ui32_undefined_witness:
  "ob_get_packed_ui32 \<lparr>bytes = Some [0xFF, 0xFF, 0xFF, 0xFF, 0xFF, 1], checkpointLength = 0,
     position = 0, sizeLimit = 6, allocSize = 6, allocated = False\<rparr> = None"
  by (rule ob_get_packed_ui32_undefined [where cs = "[0xFF, 0xFF, 0xFF, 0xFF, 0xFF]" and c = 1
        and rest = "[]"])
    (simp_all add: ob_wf_def ob_content_def SIZE_MAX_def ob_avail_def)

lemma ob_get_str_ptr_loop_step:
  assumes wf: "ob_wf b" and ofs: "ofs < length (ob_avail b)"
  shows "ob_get_str_ptr_loop b ofs =
    (if ob_avail b ! ofs = 0
     then Some (Some (take ofs (ob_avail b)), b\<lparr>position := position b + ofs + 1\<rparr>)
     else ob_get_str_ptr_loop b (ofs + 1))"
proof -
  have le: "position b + ofs < length (ob_content b)" "position b + ofs < sizeLimit b"
    using ofs by (auto simp: ob_avail_def)
  then have sz: "position b + ofs + 1 \<le> SIZE_MAX" "position b + ofs \<le> SIZE_MAX"
    using wf by (auto simp: ob_wf_def)
  obtain m where m: "bytes b = Some m"
    using le(1) by (cases "bytes b") (auto simp: ob_content_def)
  have nth: "ob_avail b ! ofs = m ! (position b + ofs)"
    using le m by (simp add: ob_avail_def ob_content_def)
  have rd: "ob_read b (position b + ofs) 1 = Some [m ! (position b + ofs)]"
    using le(1) m by (simp add: ob_read_def mem_read_def ob_content_def take_Suc_conv_app_nth hd_drop_conv_nth take_Suc)
  have tst: "test_offset b ofs"
    using le sz wf by (simp add: test_offset_def size_add_eq ob_wf_def)
  have tk: "take ofs (drop (position b) m) = take ofs (ob_avail b)"
    using le m by (simp add: ob_avail_def ob_content_def drop_take)
  show ?thesis
    using tst sz rd nth m tk by (simp add: ob_get_str_ptr_loop.simps [of b ofs] size_add_eq)
qed

lemma ob_get_str_ptr_loop_skip:
  assumes "ob_wf b" "n \<le> length (ob_avail b)" "\<forall>i < n. ob_avail b ! i \<noteq> 0" "ofs \<le> n"
  shows "ob_get_str_ptr_loop b ofs = ob_get_str_ptr_loop b n"
  using assms(4)
proof (induction rule: inc_induct)
  case (step i)
  then show ?case
    using ob_get_str_ptr_loop_step [OF assms(1), of i] assms(2,3) by simp
qed simp

text \<open>
  (C33) A NUL-terminated string is returned whole, without its terminator, and the position moves
  past the terminator. When the bytes that are left hold no terminator and the limit does not cut
  them short, the search reads one byte past the end of the memory object.
\<close>

theorem ob_get_str_ptr_correct:
  assumes "ob_wf b" and "0 \<notin> set xs"
  shows "(ob_avail b = xs @ 0 # rest \<longrightarrow>
      ob_get_str_ptr b = Some (Some xs, b\<lparr>position := position b + length xs + 1\<rparr>)) \<and>
    (ob_avail b = xs \<and> position b \<le> allocSize b \<and> allocSize b \<le> sizeLimit b \<and> allocSize b < SIZE_MAX \<longrightarrow>
      ob_get_str_ptr b = None)"
proof (intro conjI impI; (elim conjE)?)
  assume av: "ob_avail b = xs @ 0 # rest"
  have "\<forall>i < length xs. ob_avail b ! i \<noteq> 0"
    using assms(2) av by (auto simp: nth_append in_set_conv_nth)
  then have "ob_get_str_ptr_loop b 0 = ob_get_str_ptr_loop b (length xs)"
    using av by (intro ob_get_str_ptr_loop_skip assms(1)) auto
  then show "ob_get_str_ptr b = Some (Some xs, b\<lparr>position := position b + length xs + 1\<rparr>)"
    using av ob_get_str_ptr_loop_step [OF assms(1), of "length xs"] by (simp add: ob_get_str_ptr_def)
next
  assume av: "ob_avail b = xs" "position b \<le> allocSize b" "allocSize b \<le> sizeLimit b" "allocSize b < SIZE_MAX"
  have "\<forall>i < length xs. ob_avail b ! i \<noteq> 0"
    using assms(2) av by (auto simp: in_set_conv_nth)
  then have skip: "ob_get_str_ptr_loop b 0 = ob_get_str_ptr_loop b (length xs)"
    using av by (intro ob_get_str_ptr_loop_skip assms(1)) auto
  have len: "position b + length xs = allocSize b"
    using av assms(1) by (auto simp: ob_avail_def ob_wf_def)
  then have "test_offset b (length xs)"
    using av by (simp add: test_offset_def size_add_eq)
  moreover have "ob_read b (position b + length xs) 1 = None"
    using len assms(1) by (auto simp: ob_read_def mem_read_def ob_wf_def ob_content_def split: option.splits)
  ultimately show "ob_get_str_ptr b = None"
    using skip len av by (simp add: ob_get_str_ptr_def ob_get_str_ptr_loop.simps [of b "length xs"])
qed

theorem ob_get_str_ptr_correct_witness:
  "ob_get_str_ptr \<lparr>bytes = Some [0x68, 0x69, 0, 5], checkpointLength = 0, position = 0, sizeLimit = 4,
     allocSize = 4, allocated = False\<rparr> =
     Some (Some [0x68, 0x69], \<lparr>bytes = Some [0x68, 0x69, 0, 5], checkpointLength = 0, position = 3,
       sizeLimit = 4, allocSize = 4, allocated = False\<rparr>) \<and>
   ob_get_str_ptr \<lparr>bytes = Some [0x68, 0x69], checkpointLength = 0, position = 0, sizeLimit = 2,
     allocSize = 2, allocated = False\<rparr> = None"
  using ob_get_str_ptr_correct [of "\<lparr>bytes = Some [0x68, 0x69, 0, 5], checkpointLength = 0, position = 0,
      sizeLimit = 4, allocSize = 4, allocated = False\<rparr>" "[0x68, 0x69]" "[5]"]
    ob_get_str_ptr_correct [of "\<lparr>bytes = Some [0x68, 0x69], checkpointLength = 0, position = 0,
      sizeLimit = 2, allocSize = 2, allocated = False\<rparr>" "[0x68, 0x69]" "[]"]
  by (simp add: ob_wf_def ob_content_def SIZE_MAX_def ob_avail_def)

text \<open>
  (C34) \<open>ob_dup\<close> copies the position before it appends the bytes, so the assertion of
  \<open>ob_makespace\<close> that a buffer with no memory is at position 0 fails: duplicating any well-formed
  buffer that is within its limit and has something written in it aborts.
\<close>

theorem ob_dup_aborts:
  assumes "ob_wf b" and "0 < position b" and "position b \<le> allocSize b" and "position b \<le> sizeLimit b"
  shows "ob_dup True al b = None"
proof -
  obtain m where m: "bytes b = Some m" "length m = allocSize b"
    using assms(1,2,3) by (cases "bytes b") (auto simp: ob_wf_def ob_content_def)
  let ?n = "if sizeLimit b \<noteq> SIZE_MAX then sizeLimit b else position b"
  have n: "0 < min ?n (allocSize b)"
    using assms(2-4) by auto
  have mk: "ob_append_bytes al (ob_zero\<lparr>sizeLimit := sizeLimit b, position := position b,
      checkpointLength := checkpointLength b\<rparr>) src = None" if "src \<noteq> []" for src
    using that assms(2) by (simp add: ob_append_bytes_def ob_makespace_def ob_zero_def Let_def)
  have "min ?n (allocSize b) \<le> length m" "take (min ?n (allocSize b)) m \<noteq> []"
    using n m by auto
  then have rd: "ob_read b 0 (min ?n (allocSize b)) = Some (take (min ?n (allocSize b)) m)"
    "ob_append_bytes al (ob_zero\<lparr>sizeLimit := sizeLimit b, position := position b,
      checkpointLength := checkpointLength b\<rparr>) (take (min ?n (allocSize b)) m) = None"
    using m by (simp_all add: ob_read_def mem_read_def mk)
  have cnt: "(if ?n > allocSize b then allocSize b else ?n) = min ?n (allocSize b)"
    by simp
  have "(if sizeLimit b \<noteq> SIZE_MAX then do { assert (position b \<le> sizeLimit b); Some (sizeLimit b) }
      else Some (position b)) = Some ?n"
    using assms(4) by simp
  then show ?thesis
    using assms(2,3) m(1) n rd unfolding ob_dup_def Let_def
    by (simp only: cnt bind.bind_lunit) simp
qed

theorem ob_dup_aborts_witness:
  "ob_dup True zero_alloc \<lparr>bytes = Some [1, 2], checkpointLength = 0, position = 1, sizeLimit = 2,
     allocSize = 2, allocated = False\<rparr> = None"
  by (rule ob_dup_aborts) (simp_all add: ob_wf_def ob_content_def SIZE_MAX_def)

text \<open>
  (C14) Backing out. Whatever fields are appended after a checkpoint, and however the appends went,
  rewinding restores the data, the position and the limit of the buffer at the checkpoint, and the
  buffer is overrun only if it was overrun before: a packet that does not fit leaves no trace.
\<close>

theorem ob_rewind_restores:
  assumes "ob_wf b" and "malloc_ok al" and "\<not> ob_overrun b"
    and "position b + length (concat (map field_bytes fs)) \<le> ob_bound"
    and "ob_append_fields al (ob_checkpoint b) fs = Some b'"
  shows "ob_wf (ob_rewind b') \<and> ob_data (ob_rewind b') = ob_data b \<and>
    position (ob_rewind b') = position b \<and> sizeLimit (ob_rewind b') = sizeLimit b \<and>
    \<not> ob_overrun (ob_rewind b')"
proof -
  have wf: "ob_wf (ob_checkpoint b)"
    using assms(1) by (simp add: ob_checkpoint_def ob_wf_def ob_content_def)
  have "ob_appended (ob_checkpoint b) (concat (map field_bytes fs)) b'"
    using ob_append_fields_appended [OF wf assms(2) _ assms(5)] assms(4) by (simp add: ob_checkpoint_def)
  then have b': "ob_wf b'" "sizeLimit b' = sizeLimit b" "checkpointLength b' = position b"
      "take (position b) (ob_content b') = take (position b) (ob_content b)"
    by (simp_all add: ob_appended_def ob_checkpoint_def ob_content_def)
  have pos: "position b \<le> length (ob_content b)" "position b \<le> sizeLimit b"
    using assms(1,3) by (auto simp: ob_overrun_iff ob_wf_def)
  then have "position b \<le> length (ob_content b')"
    using b'(4) by (metis length_take min.absorb2 min.cobounded1)
  then show ?thesis
    using b' pos by (auto simp: ob_rewind_def ob_wf_def ob_data_def ob_content_def ob_overrun_iff)
qed

theorem ob_rewind_restores_witness:
  "\<exists>b'. ob_append_fields zero_alloc (ob_checkpoint \<lparr>bytes = Some [1, 2, 3], checkpointLength = 0,
       position = 1, sizeLimit = 3, allocSize = 3, allocated = False\<rparr>) [Field_ui32 7] = Some b' \<and>
     ob_overrun b' \<and> \<not> ob_overrun (ob_rewind b') \<and> ob_data (ob_rewind b') = [1]"
proof -
  let ?b = "\<lparr>bytes = Some [1, 2, 3], checkpointLength = 0, position = 1, sizeLimit = 3,
    allocSize = 3, allocated = False\<rparr> :: overlay_buffer"
  let ?b' = "?b\<lparr>checkpointLength := 1, position := 5\<rparr>"
  have run: "ob_append_fields zero_alloc (ob_checkpoint ?b) [Field_ui32 7] = Some ?b'"
    by (simp add: ob_eval ob_checkpoint_def)
  have ok: "ob_wf ?b" "\<not> ob_overrun ?b"
    by (simp_all add: ob_wf_def ob_content_def SIZE_MAX_def ob_overrun_def)
  have "position ?b + length (concat (map field_bytes [Field_ui32 7])) \<le> ob_bound"
    by (simp add: ob_bound_def)
  from ob_rewind_restores [OF ok(1) zero_alloc_ok ok(2) this run] run show ?thesis
    by (simp add: ob_data_def ob_content_def ob_overrun_def ob_rewind_def)
qed

end
