(* ===== verification/Golay.thy ===== *)
theory Golay
  imports Serval_Prelude
begin

text \<open>
  The [23,12] Golay code of golay.c, which protects the frame headers of the packet radio link
  (radio_link.c). The model follows the C functions; a codeword is the C code's \<open>uint32_t\<close>, the
  error count that C returns through \<open>*errs\<close> is the second component of the result.
\<close>

section \<open>The code\<close>

definition POLY :: uint32 where
  "POLY = 0xAE3"

text \<open>The loop of \<open>golay\<close> and of \<open>syndrome\<close>: examine, XOR and shift, \<open>n\<close> times.\<close>

definition golay_step :: "uint32 \<Rightarrow> uint32" where
  "golay_step cw = drop_bit 1 (if cw AND 1 \<noteq> 0 then cw XOR POLY else cw)"

primrec golay_loop :: "nat \<Rightarrow> uint32 \<Rightarrow> uint32" where
  "golay_loop 0 cw = cw"
| "golay_loop (Suc n) cw = golay_loop n (golay_step cw)"

definition golay :: "uint32 \<Rightarrow> uint32" where
  "golay cw = (let c = cw AND 0xfff in push_bit 12 (golay_loop 12 c) OR c)"

definition parity :: "uint32 \<Rightarrow> bool" where
  "parity cw =
     (let p = ucast cw AND 0xFF :: byte;
          p = p XOR ucast (drop_bit 8 cw AND 0xFF);
          p = p XOR ucast (drop_bit 16 cw AND 0xFF);
          p = p XOR drop_bit 4 p;
          p = p XOR drop_bit 2 p;
          p = p XOR drop_bit 1 p
      in p AND 1 \<noteq> 0)"

text \<open>\<open>data[0] | (data[1]<<8) | (data[2]<<16)\<close>, and the three stores inv.\<close>

definition golay_load :: "byte list \<Rightarrow> uint32 option" where
  "golay_load data = do {
     p \<leftarrow> mem_read data 0 3;
     Some (ucast (p ! 0) OR push_bit 8 (ucast (p ! 1)) OR push_bit 16 (ucast (p ! 2)))
   }"

definition golay_encode :: "byte list \<Rightarrow> byte list option" where
  "golay_encode data = do {
     cw \<leftarrow> golay_load data;
     let cw = golay cw;
     let cw = (if parity cw then cw OR 0x800000 else cw);
     mem_write data 0 [byte_at 0 cw, byte_at 8 cw, byte_at 16 cw]
   }"

definition syndrome :: "uint32 \<Rightarrow> uint32" where
  "syndrome cw = push_bit 12 (golay_loop 12 (cw AND 0x7fffff))"

definition wgt :: "nat list" where
  "wgt = [0,1,1,2,1,2,2,3,1,2,2,3,2,3,3,4]"

function weight_loop :: "nat \<Rightarrow> uint32 \<Rightarrow> nat \<Rightarrow> nat" where
  "weight_loop k cw bits =
     (if k < 6 \<and> cw \<noteq> 0 then weight_loop (k + 1) (drop_bit 4 cw) (bits + wgt ! unat (cw AND 0xf)) else bits)"
  by pat_completeness auto
termination
  by (relation "measure (\<lambda>(k, cw, bits). 6 - k)") auto

declare weight_loop.simps [simp del]

definition weight :: "uint32 \<Rightarrow> nat" where
  "weight cw = weight_loop 0 cw 0"

primrec rotate_left_loop :: "nat \<Rightarrow> uint32 \<Rightarrow> uint32" where
  "rotate_left_loop 0 cw = cw"
| "rotate_left_loop (Suc n) cw =
     rotate_left_loop n (if cw AND 0x400000 \<noteq> 0 then push_bit 1 cw OR 1 else push_bit 1 cw)"

definition rotate_left :: "uint32 \<Rightarrow> nat \<Rightarrow> uint32" where
  "rotate_left cw n = rotate_left_loop n cw AND 0x7fffff"

primrec rotate_right_loop :: "nat \<Rightarrow> uint32 \<Rightarrow> uint32" where
  "rotate_right_loop 0 cw = cw"
| "rotate_right_loop (Suc n) cw =
     rotate_right_loop n (if cw AND 1 \<noteq> 0 then drop_bit 1 cw OR 0x400000 else drop_bit 1 cw)"

definition rotate_right :: "uint32 \<Rightarrow> nat \<Rightarrow> uint32" where
  "rotate_right cw n = rotate_right_loop n cw AND 0x7fffff"

text \<open>
  The inner loop of \<open>correct\<close>, over the cyclic shifts: \<open>Inl\<close> for its \<open>return\<close>, \<open>Inr\<close> for the
  word and the count it leaves behind when no shift matched.
\<close>

function correct_shifts ::
  "nat \<Rightarrow> nat \<Rightarrow> uint32 \<Rightarrow> uint32 \<Rightarrow> nat \<Rightarrow> uint32 \<times> nat + uint32 \<times> nat" where
  "correct_shifts w i cw s errs =
     (if i < 23
      then let errs = weight s
           in if errs \<le> w then Inl (rotate_right (cw XOR s) i, errs)
              else let cw = rotate_left cw 1 in correct_shifts w (i + 1) cw (syndrome cw) errs
      else Inr (cw, errs))"
  by pat_completeness auto
termination
  by (relation "measure (\<lambda>(w, i, cw, s, errs). 23 - i)") auto

declare correct_shifts.simps [simp del]

function correct_loop ::
  "uint32 \<Rightarrow> int \<Rightarrow> uint32 \<Rightarrow> uint32 \<Rightarrow> nat \<Rightarrow> nat \<Rightarrow> uint32 \<times> nat" where
  "correct_loop cwsaver j msk cw w errs =
     (if j < 23
      then let msk = (if j \<noteq> - 1 \<and> j > 0 then msk + msk else msk);
               cw = (if j \<noteq> - 1 then cwsaver XOR msk else cw);
               w = (if j \<noteq> - 1 then 2 else w);
               s = syndrome cw
           in if s \<noteq> 0
              then case correct_shifts w 0 cw s errs of
                     Inl r \<Rightarrow> r
                   | Inr (cw, errs) \<Rightarrow> correct_loop cwsaver (j + 1) msk cw w errs
              else (cw, errs)
      else (cwsaver, errs))"
  by pat_completeness auto
termination
  by (relation "measure (\<lambda>(cwsaver, j, msk, cw, w, errs). nat (23 - j))") auto

declare correct_loop.simps [simp del]

definition correct :: "uint32 \<Rightarrow> uint32 \<times> nat" where
  "correct cw = correct_loop cw (- 1) 1 cw 3 0"

definition golay_decode :: "byte list \<Rightarrow> (uint32 \<times> nat) option" where
  "golay_decode data = do {
     cw \<leftarrow> golay_load data;
     let parity_bit = cw AND 0x800000;
     let cw = cw AND NOT 0x800000;
     let (cw, errs) = correct cw;
     let cw = cw OR parity_bit;
     Some (cw AND 0xFFF, if parity cw then errs + 1 else errs)
   }"

end
