(* ===== verification/Golay_Correct.thy ===== *)
theory Golay_Correct
  imports Golay
begin

text \<open>
  Correctness of the Golay code: linearity of the syndrome, cyclicity of the code, the minimum
  distance of 7 (by enumeration of the 4096 codewords), soundness of every return of \<open>correct\<close>
  and, through the trial flips, that at most three errors are always corrected.
\<close>

section \<open>Bit patterns of 23 bits\<close>

definition word23 :: "uint32 \<Rightarrow> bool" where
  "word23 x \<longleftrightarrow> (\<forall>n. bit x n \<longrightarrow> n < 23)"

definition ones :: "uint32 \<Rightarrow> nat set" where
  "ones x = {n. bit x n}"

lemma word23_ones: "word23 x \<longleftrightarrow> ones x \<subseteq> {..<23}"
  by (auto simp: word23_def ones_def)

lemma ones_finite [simp]: "finite (ones x)"
  by (rule finite_subset [of _ "{..<32}"]) (auto simp: ones_def dest: bit_imp_le_length)

lemma bit_one_word [simp]: "bit (1 :: 'a :: len word) n \<longleftrightarrow> n = 0"
  by (auto simp: bit_1_iff)

lemma and_1_neq_0: "(x :: uint32) AND 1 \<noteq> 0 \<longleftrightarrow> bit x 0"
  by (simp add: and_one_eq odd_iff_mod_2_eq_one bit_0)

lemma bit_golay_step:
  "bit (golay_step x) n \<longleftrightarrow> (bit x (Suc n) \<noteq> (bit x 0 \<and> bit POLY (Suc n)))"
  by (simp add: golay_step_def and_1_neq_0 bit_drop_bit_eq bit_xor_iff)

lemma golay_step_xor: "golay_step (x XOR y) = golay_step x XOR golay_step y"
  by (rule bit_word_eqI) (auto simp: bit_golay_step bit_xor_iff)

lemma golay_loop_xor: "golay_loop n (x XOR y) = golay_loop n x XOR golay_loop n y"
  by (induction n arbitrary: x y) (simp_all add: golay_step_xor)

lemma golay_loop_Suc': "golay_loop (Suc n) x = golay_step (golay_loop n x)"
  by (induction n arbitrary: x) simp_all

lemma bit_POLY: "bit POLY n \<longleftrightarrow> n \<in> {0, 1, 5, 6, 7, 9, 11}"
proof (cases "n < 12")
  case True
  then have "n \<in> {0, 1, 2, 3, 4, 5, 6, 7, 8, 9, 10, 11}"
    unfolding insert_iff empty_iff by presburger
  then show ?thesis
    by (elim insertE emptyE) (simp_all add: POLY_def bit_0)
next
  case False
  then have "\<not> bit POLY n"
    using bit_imp_le_unat [of POLY n] power_increasing [of 12 n "2 :: nat"] by (auto simp: POLY_def)
  with False show ?thesis by auto
qed

lemma xor_word_eq_0: "a XOR b = 0 \<longleftrightarrow> a = b" for a b :: "'a :: len word"
  by (auto simp: bit_eq_iff bit_xor_iff)

lemma golay_masks: "(0xfff :: uint32) = mask 12" "(0x7fffff :: uint32) = mask 23"
  by (simp_all add: mask_eq_exp_minus_1)

lemma golay_bits [simp]:
  "bit ((x :: uint32) AND 0xfff) n \<longleftrightarrow> bit x n \<and> n < 12"
  "bit ((x :: uint32) AND 0x7fffff) n \<longleftrightarrow> bit x n \<and> n < 23"
  "bit (0x400000 :: int) n \<longleftrightarrow> n = 22"
  "bit (0x800000 :: int) n \<longleftrightarrow> n = 23"
proof -
  have "(0x400000 :: int) = 2 ^ 22" "(0x800000 :: int) = 2 ^ 23" by simp_all
  then show "bit (0x400000 :: int) n \<longleftrightarrow> n = 22" "bit (0x800000 :: int) n \<longleftrightarrow> n = 23"
    by (simp_all only: bit_exp_iff) (auto simp: possible_bit_def)
qed (auto simp: golay_masks bit_and_iff bit_mask_iff)

lemma word23_and: "word23 x \<longleftrightarrow> x AND 0x7fffff = x"
proof
  assume "word23 x"
  then show "x AND 0x7fffff = x"
    by (intro bit_word_eqI) (auto simp: word23_def)
next
  assume "x AND 0x7fffff = x"
  then show "word23 x"
    unfolding word23_def by (metis golay_bits(2))
qed

lemma word23_push:
  assumes "\<And>k. bit y k \<Longrightarrow> k < 11"
  shows "word23 (push_bit 12 y)"
  unfolding word23_def
proof (intro allI impI)
  fix n
  assume "bit (push_bit 12 y) n"
  then have "n - 12 < 11"
    using assms by (simp add: bit_push_bit_iff)
  then show "n < 23" by simp
qed

lemma word23_masked [simp]: "word23 (x AND 0x7fffff)"
  by (simp add: word23_def)

lemma word23_0 [simp]: "word23 0"
  by (simp add: word23_def)

lemma word23_xor: "word23 x \<Longrightarrow> word23 y \<Longrightarrow> word23 (x XOR y)"
  by (auto simp: word23_def bit_xor_iff)

subsection \<open>Syndromes\<close>

text \<open>The syndrome before it is shifted into the check bits' position.\<close>

definition synd :: "uint32 \<Rightarrow> uint32" where
  "synd x = golay_loop 12 x"

lemma synd_xor: "synd (x XOR y) = synd x XOR synd y"
  by (simp add: synd_def golay_loop_xor)

lemma syndrome_synd: "word23 x \<Longrightarrow> syndrome x = push_bit 12 (synd x)"
  by (simp add: syndrome_def synd_def word23_and)

lemma golay_loop_bound:
  "(\<And>k. bit x k \<Longrightarrow> k < n + 11) \<Longrightarrow> bit (golay_loop n x) k \<Longrightarrow> k < 11"
proof (induction n arbitrary: x k)
  case (Suc n)
  have "k < n + 11" if "bit (golay_step x) k" for k
    using that Suc.prems(1) [of "Suc k"] by (auto simp: bit_golay_step bit_POLY)
  with Suc show ?case by auto
qed auto

lemma synd_bound: "word23 x \<Longrightarrow> bit (synd x) k \<Longrightarrow> k < 11"
  unfolding synd_def by (rule golay_loop_bound [of x 12]) (auto simp: word23_def)

lemma golay_loop_push:
  assumes "\<And>k. bit y k \<Longrightarrow> k < 11" and "n \<le> 20"
  shows "golay_loop n (push_bit n y) = y"
  using assms(2)
proof (induction n)
  case (Suc n)
  have "golay_step (push_bit (Suc n) y) = push_bit n y"
  proof (rule bit_word_eqI)
    fix m
    have "m < 31" if "bit y (m - n)"
      using assms(1) [OF that] Suc.prems by simp
    then show "bit (golay_step (push_bit (Suc n) y)) m \<longleftrightarrow> bit (push_bit n y) m"
      by (auto simp: bit_golay_step bit_push_bit_iff Suc_diff_le simp del: push_bit_Suc)
  qed
  with Suc show ?case by simp
qed simp

lemma synd_push: "(\<And>k. bit y k \<Longrightarrow> k < 11) \<Longrightarrow> synd (push_bit 12 y) = y"
  by (simp add: synd_def golay_loop_push)

lemma syndrome_word23: "word23 x \<Longrightarrow> word23 (syndrome x)"
  using synd_bound [of x] by (simp add: syndrome_synd word23_push)

lemma synd_syndrome: "word23 x \<Longrightarrow> synd (syndrome x) = synd x"
  using synd_bound [of x] by (simp add: syndrome_synd synd_push)

lemma golay_loop_0 [simp]: "golay_loop n 0 = 0"
  by (induction n) (simp_all add: golay_step_def)

lemma synd_0 [simp]: "synd 0 = 0"
  by (simp add: synd_def)

lemma syndrome_eq_0: "word23 x \<Longrightarrow> syndrome x = 0 \<longleftrightarrow> synd x = 0"
  using synd_syndrome [of x] syndrome_synd [of x] by (metis push_bit_of_0 synd_0)

subsection \<open>Codewords\<close>

definition codeword :: "uint32 \<Rightarrow> bool" where
  "codeword c \<longleftrightarrow> word23 c \<and> synd c = 0"

lemma codeword_xor: "codeword c \<Longrightarrow> codeword d \<Longrightarrow> codeword (c XOR d)"
  by (simp add: codeword_def word23_xor synd_xor)

lemma golay_split: "golay d = push_bit 12 (synd (d AND 0xfff)) XOR (d AND 0xfff)"
  by (rule bit_word_eqI) (auto simp: golay_def Let_def synd_def bit_or_iff bit_xor_iff bit_push_bit_iff)

lemma word23_low: "word23 (d AND 0xfff)"
  by (auto simp: word23_def)

lemma golay_codeword: "codeword (golay d)"
proof -
  have "word23 (push_bit 12 (synd (d AND 0xfff)))"
    using synd_bound [OF word23_low [of d]] by (rule word23_push)
  then show ?thesis
    using synd_bound [OF word23_low [of d]]
    by (simp add: codeword_def golay_split word23_xor word23_low synd_xor synd_push)
qed

lemma golay_data: "golay d AND 0xfff = d AND 0xfff"
  by (rule bit_word_eqI) (auto simp: golay_split bit_xor_iff bit_push_bit_iff)

lemma codeword_golay:
  assumes "codeword c"
  shows "c = golay (c AND 0xfff)"
proof -
  define h where "h = drop_bit 12 c"
  have w: "word23 c" and s: "synd c = 0" using assms by (simp_all add: codeword_def)
  have h: "\<And>k. bit h k \<Longrightarrow> k < 11"
    using w by (auto simp: h_def word23_def bit_drop_bit_eq)
  have c: "c = push_bit 12 h XOR (c AND 0xfff)"
    by (rule bit_word_eqI) (auto simp: h_def bit_xor_iff bit_push_bit_iff bit_drop_bit_eq)
  then have "synd c = h XOR synd (c AND 0xfff)"
    using synd_push [of h] h by (metis synd_xor)
  then have "synd (c AND 0xfff) = h"
    using s by (simp add: xor_word_eq_0)
  then show ?thesis
    by (intro trans [OF c]) (simp add: golay_split)
qed


subsection \<open>Rotations\<close>

definition rotl :: "uint32 \<Rightarrow> uint32" where
  "rotl x = rotate_left x 1"

lemma and_bit22: "(x :: uint32) AND 0x400000 \<noteq> 0 \<longleftrightarrow> bit x 22"
  using bit_eq_iff [of "x AND 0x400000" 0] by (auto simp: bit_and_iff possible_bit_def)

lemma word23_bit22: "word23 x \<Longrightarrow> \<not> bit x 22 \<Longrightarrow> bit x n \<Longrightarrow> n < 22"
proof -
  assume "word23 x" "\<not> bit x 22" "bit x n"
  then have "n < 23" "n \<noteq> 22" by (auto simp: word23_def)
  then show "n < 22" by simp
qed

lemma golay_loop_numeral:
  "golay_loop (numeral k) cw = golay_loop (pred_numeral k) (golay_step cw)"
  by (simp add: numeral_eq_Suc)

lemma bit_rotl: "bit (rotl x) n \<longleftrightarrow> n < 23 \<and> (if n = 0 then bit x 22 else bit x (n - 1))"
  by (auto simp: rotl_def rotate_left_def and_bit22 bit_or_iff bit_push_bit_iff
      simp del: bit_0 push_bit_Suc push_bit_eq_mult push_bit_numeral push_bit_of_1)

lemma rotl_xor: "rotl (x XOR y) = rotl x XOR rotl y"
  by (rule bit_word_eqI) (auto simp: bit_rotl bit_xor_iff)

lemma rotl_word23 [simp]: "word23 (rotl x)"
  by (simp add: word23_def bit_rotl)

lemma rotl_pow_word23: "word23 x \<Longrightarrow> word23 ((rotl ^^ i) x)"
  by (induction i) simp_all

lemma rotl_pow_xor: "(rotl ^^ i) (x XOR y) = (rotl ^^ i) x XOR (rotl ^^ i) y"
  by (induction i) (simp_all add: rotl_xor)

lemma bit_rotl_pow:
  "word23 x \<Longrightarrow> p < 23 \<Longrightarrow> bit ((rotl ^^ i) x) ((p + i) mod 23) \<longleftrightarrow> bit x p"
proof (induction i)
  case (Suc i)
  let ?m = "(p + i) mod 23"
  have "(p + Suc i) mod 23 = (if ?m = 22 then 0 else Suc ?m)"
    by (simp add: mod_Suc)
  moreover have "?m < 23" by simp
  ultimately show ?case
    using Suc by (auto simp: bit_rotl)
qed simp

lemma ones_rotl_pow:
  assumes "word23 x"
  shows "ones ((rotl ^^ i) x) = (\<lambda>p. (p + i) mod 23) ` ones x"
proof -
  have "n \<in> (\<lambda>p. (p + i) mod 23) ` ones x" if n: "bit ((rotl ^^ i) x) n" for n
  proof -
    let ?p = "(n + 22 * i) mod 23"
    have "n < 23" using rotl_pow_word23 [OF assms, of i] n by (simp add: word23_def)
    have "(?p + i) mod 23 = (n + 23 * i) mod 23"
      by (simp add: mod_add_left_eq add.assoc)
    then have eq: "(?p + i) mod 23 = n" using \<open>n < 23\<close> by simp
    then have "bit x ?p"
      using bit_rotl_pow [OF assms, of ?p i] n by simp
    with eq show ?thesis by (force simp: ones_def)
  qed
  moreover have "bit ((rotl ^^ i) x) ((p + i) mod 23)" if "bit x p" for p
    using that assms bit_rotl_pow [OF assms, of p i] by (simp add: word23_def)
  ultimately show ?thesis by (auto simp: ones_def)
qed

lemma card_ones_rotl_pow:
  assumes "word23 x"
  shows "card (ones ((rotl ^^ i) x)) = card (ones x)"
proof -
  have "inj_on (\<lambda>p. (p + i) mod 23) (ones x)"
  proof (rule inj_onI)
    fix p q
    assume "p \<in> ones x" "q \<in> ones x" and eq: "(p + i) mod 23 = (q + i) mod 23"
    then have "p < 23" "q < 23" using assms by (auto simp: ones_def word23_def)
    moreover have inv: "((r + i) mod 23 + 22 * i) mod 23 = r mod 23" for r
      by (simp add: mod_add_left_eq add.assoc)
    moreover have "p mod 23 = q mod 23"
      by (rule trans [OF inv [of p, symmetric, unfolded eq] inv [of q]])
    ultimately show "p = q" by simp
  qed
  then show ?thesis
    by (simp add: ones_rotl_pow [OF assms] card_image)
qed

lemma rotate_right_rotl: "word23 x \<Longrightarrow> rotate_right ((rotl ^^ i) x) i = x"
proof -
  assume w: "word23 x"
  have step: "(if rotl y AND 1 \<noteq> 0 then drop_bit 1 (rotl y) OR 0x400000 else drop_bit 1 (rotl y)) = y"
    if "word23 y" for y
    using that word23_bit22 [OF that]
    by (intro bit_word_eqI) (auto simp: and_1_neq_0 bit_rotl bit_or_iff bit_drop_bit_eq word23_def)
  have "rotate_right_loop i ((rotl ^^ i) x) = x"
    using w
  proof (induction i)
    case (Suc i)
    then show ?case
      using step [OF rotl_pow_word23 [OF w, of i]] by (simp del: rotl_word23)
  qed simp
  with w show ?thesis by (simp add: rotate_right_def word23_and)
qed

lemma synd_top: "synd 0x571 = synd 0x400000"
  unfolding synd_def by (simp add: golay_loop_numeral golay_step_def POLY_def)

text \<open>The code is cyclic: shifting a word shifts its syndrome through one step of the division.\<close>

lemma synd_rotl:
  assumes "word23 x"
  shows "golay_step (synd (rotl x)) = synd x"
proof -
  define y where "y = x AND mask 22"
  have x: "x = y XOR (if bit x 22 then 0x400000 else 0)"
    using assms word23_bit22 [OF assms]
    by (intro bit_word_eqI) (auto simp: y_def bit_xor_iff bit_and_iff bit_mask_iff word23_def)
  have poly: "(0x571 :: uint32) = drop_bit 1 POLY"
    by (simp add: POLY_def)
  have r: "golay_step (rotl x) = y XOR (if bit x 22 then 0x571 else 0)"
    unfolding poly by (rule bit_word_eqI)
      (auto simp: y_def bit_golay_step bit_rotl bit_xor_iff bit_and_iff bit_mask_iff bit_drop_bit_eq)
  have "golay_step (synd (rotl x)) = golay_loop 13 (rotl x)"
    using golay_loop_Suc' [of 12 "rotl x"] by (simp only: synd_def Suc_numeral semiring_norm)
  also have "\<dots> = synd (golay_step (rotl x))"
    by (simp only: synd_def golay_loop_numeral [of "num.Bit1 _"] pred_numeral_simps)
  also have "\<dots> = synd y XOR synd (if bit x 22 then 0x571 else 0)"
    by (simp only: r synd_xor)
  also have "synd (if bit x 22 then 0x571 else 0) = synd (if bit x 22 then 0x400000 else 0)"
    by (simp add: synd_top)
  finally show ?thesis
    using x by (metis synd_xor)
qed



lemma golay_step_inj:
  assumes "\<And>k. bit y k \<Longrightarrow> k < 11" and "golay_step y = 0"
  shows "y = 0"
proof -
  have z: "bit y (Suc n) \<longleftrightarrow> bit y 0 \<and> bit POLY (Suc n)" for n
    using bit_golay_step [of y n] assms(2) by auto
  have "\<not> bit y 0"
    using z [of 10] assms(1) [of 11] by (auto simp: bit_POLY)
  then have "\<not> bit y n" for n
    using z by (cases n) auto
  then show ?thesis by (intro bit_word_eqI) auto
qed

lemma codeword_rotl: "codeword c \<Longrightarrow> codeword (rotl c)"
  using golay_step_inj [of "synd (rotl c)"] synd_bound [of "rotl c"] synd_rotl [of c]
  by (auto simp: codeword_def)

lemma codeword_rotl_pow: "codeword c \<Longrightarrow> codeword ((rotl ^^ i) c)"
  by (induction i) (simp_all add: codeword_rotl)

lemma rotl_23: "word23 x \<Longrightarrow> (rotl ^^ (23 * i)) x = x"
proof (rule bit_word_eqI)
  fix n
  assume w: "word23 x"
  show "bit ((rotl ^^ (23 * i)) x) n \<longleftrightarrow> bit x n"
  proof (cases "n < 23")
    case True
    then show ?thesis using bit_rotl_pow [OF w True, of "23 * i"] by simp
  next
    case False
    then show ?thesis using w rotl_pow_word23 [OF w, of "23 * i"] by (auto simp: word23_def)
  qed
qed

lemma rotate_right_codeword:
  assumes "codeword z"
  shows "codeword (rotate_right z i)" "(rotl ^^ i) (rotate_right z i) = z"
proof -
  let ?y = "(rotl ^^ (22 * i)) z"
  have w: "word23 z" using assms by (simp add: codeword_def)
  have y: "(rotl ^^ i) ?y = z"
    using rotl_23 [OF w, of i] by (simp flip: funpow_add [THEN fun_cong, unfolded o_def])
  have "rotate_right z i = ?y"
    using rotate_right_rotl [OF rotl_pow_word23 [OF w], of i "22 * i"] y by simp
  then show "codeword (rotate_right z i)" "(rotl ^^ i) (rotate_right z i) = z"
    using y codeword_rotl_pow [OF assms] by simp_all
qed

lemma syndrome_codeword_xor:
  assumes "codeword c" "word23 x"
  shows "syndrome ((rotl ^^ i) (c XOR x)) = syndrome ((rotl ^^ i) x)"
  using codeword_rotl_pow [OF assms(1), of i] rotl_pow_word23 [OF assms(2), of i]
  by (simp add: rotl_pow_xor syndrome_synd word23_xor synd_xor codeword_def)

lemma syndrome_fits:
  assumes "word23 x" "\<forall>p \<in> ones x. 12 \<le> (p + i) mod 23"
  shows "syndrome ((rotl ^^ i) x) = (rotl ^^ i) x"
proof -
  let ?z = "(rotl ^^ i) x"
  have w: "word23 ?z" by (rule rotl_pow_word23 [OF assms(1)])
  have lo: "12 \<le> n" if "bit ?z n" for n
  proof -
    have "n \<in> ones ?z" using that by (simp add: ones_def)
    then show ?thesis using assms(2) by (auto simp: ones_rotl_pow [OF assms(1)])
  qed
  have z: "?z = push_bit 12 (drop_bit 12 ?z)"
    using lo by (intro bit_word_eqI) (auto simp: bit_push_bit_iff bit_drop_bit_eq)
  have "synd (push_bit 12 (drop_bit 12 ?z)) = drop_bit 12 ?z"
  proof (rule synd_push)
    fix k assume "bit (drop_bit 12 ?z) k"
    then have "12 + k < 23" using w by (simp add: bit_drop_bit_eq word23_def)
    then show "k < 11" by simp
  qed
  then show ?thesis
    using w z by (simp add: syndrome_synd)
qed

subsection \<open>Weights and the minimum distance\<close>

lemma card_ones_xor: "card (ones (x XOR y)) \<le> card (ones x) + card (ones y)"
proof -
  have "ones (x XOR y) \<subseteq> ones x \<union> ones y" by (auto simp: ones_def bit_xor_iff)
  then have "card (ones (x XOR y)) \<le> card (ones x \<union> ones y)" by (simp add: card_mono)
  also have "\<dots> \<le> card (ones x) + card (ones y)" by (rule card_Un_le)
  finally show ?thesis .
qed

lemma ones_eq_empty [simp]: "ones x = {} \<longleftrightarrow> x = 0"
  using bit_eq_iff [of x 0] by (auto simp: ones_def possible_bit_def dest: bit_imp_le_length)

lemma ones_0 [simp]: "ones 0 = {}"
  by simp

lemma wgt_nibble:
  "wgt ! unat (x AND 0xf) = of_bool (bit x 0) + of_bool (bit x 1) + of_bool (bit x 2) + of_bool (bit x 3)"
  for x :: uint32
proof -
  have "unat (x AND 0xf) = take_bit 4 (unat x)"
    by (simp add: unsigned_and_eq take_bit_eq_mask mask_eq_exp_minus_1)
  also have "\<dots> = of_bool (bit x 0) + 2 * of_bool (bit x 1) + 4 * of_bool (bit x 2) + 8 * of_bool (bit x 3)"
    by (simp add: take_bit_sum bit_unsigned_iff numeral_eq_Suc push_bit_eq_mult)
  finally show ?thesis
    by (cases "bit x 0"; cases "bit x 1"; cases "bit x 2"; cases "bit x 3") (simp_all add: wgt_def)
qed

lemma weight_loop_sum:
  "(\<And>n. bit x n \<Longrightarrow> n < 4 * m) \<Longrightarrow> k + m = 6 \<Longrightarrow>
   weight_loop k x b = b + (\<Sum>i < 4 * m. of_bool (bit x i))"
proof (induction m arbitrary: k x b)
  case 0
  then have "x = 0" by (intro bit_word_eqI) auto
  then show ?case by (simp add: weight_loop.simps)
next
  case (Suc m)
  have sum: "(\<Sum>i < 4 * Suc m. of_bool (bit x i)) = wgt ! unat (x AND 0xf) + (\<Sum>i < 4 * m. of_bool (bit (drop_bit 4 x) i) :: nat)"
  proof -
    have "4 * Suc m = Suc (Suc (Suc (Suc (4 * m))))" by simp
    then show ?thesis
      by (simp only: sum.lessThan_Suc_shift wgt_nibble bit_drop_bit_eq o_def)
        (simp add: numeral_eq_Suc)
  qed
  have "n < 4 * m" if "bit (drop_bit 4 x) n" for n
    using that Suc.prems(1) [of "4 + n"] by (simp add: bit_drop_bit_eq)
  moreover have "k + 1 + m = 6" "k < 6" using Suc.prems(2) by simp_all
  ultimately show ?case
    using Suc.IH [of "drop_bit 4 x" "k + 1"] sum by (cases "x = 0") (simp_all add: weight_loop.simps [of k])
qed

lemma weight_card: "word23 x \<Longrightarrow> weight x = card (ones x)"
proof -
  assume w: "word23 x"
  then have "bit x n \<Longrightarrow> n < 24" for n by (auto simp: word23_def dest: less_trans)
  then have "weight x = (\<Sum>i < 24. of_bool (bit x i))"
    using weight_loop_sum [of x 6 0 0] by (simp add: weight_def)
  also have "\<dots> = card (ones x \<inter> {..<24})"
    by (simp add: ones_def sum.If_cases of_bool_def Int_commute)
  also have "ones x \<inter> {..<24} = ones x"
    using \<open>\<And>n. bit x n \<Longrightarrow> n < 24\<close> by (auto simp: ones_def)
  finally show ?thesis .
qed


text \<open>The number of ones of a natural number, digit by digit, for the enumeration below.\<close>

function pop :: "nat \<Rightarrow> nat" where
  "pop n = (if n = 0 then 0 else n mod 2 + pop (n div 2))"
  by pat_completeness auto
termination
  by (relation "measure id") auto

declare pop.simps [simp del]

lemma pop_simps:
  "pop 0 = 0" "pop (Suc 0) = 1" "pop 1 = 1"
  "pop (numeral (num.Bit0 n)) = pop (numeral n)" "pop (numeral (num.Bit1 n)) = Suc (pop (numeral n))"
  using pop.simps by auto

lemma pop_card: "pop n = card {k. bit n k}"
proof (induction n rule: pop.induct)
  case (1 n)
  show ?case
  proof (cases "n = 0")
    case False
    have lt: "k < m" if "bit m k" for m k :: nat
    proof -
      have "m div 2 ^ k \<noteq> 0" using that by (metis bit_iff_odd even_zero)
      then have "2 ^ k \<le> m" by (metis div_less not_less)
      then show ?thesis by (rule less_le_trans [OF less_exp])
    qed
    have fin: "finite {k. bit m k}" for m :: nat
      by (rule finite_subset [of _ "{..<m}"]) (blast dest: lt, simp)
    have "{k. bit n k} = (if odd n then {0} else {}) \<union> Suc ` {k. bit (n div 2) k}"
    proof (rule set_eqI)
      fix k
      show "k \<in> {k. bit n k} \<longleftrightarrow> k \<in> (if odd n then {0} else {}) \<union> Suc ` {k. bit (n div 2) k}"
        by (cases k) (auto simp: bit_Suc bit_0)
    qed
    then have "card {k. bit n k} = n mod 2 + card {k. bit (n div 2) k}"
      using fin by (auto simp: card_image odd_iff_mod_2_eq_one card_insert_if)
    then show ?thesis
      using 1 False by (simp add: pop.simps [of n])
  qed (simp add: pop.simps)
qed

lemma pop_unat: "pop (unat x) = card (ones x)" for x :: uint32
  by (simp add: pop_card ones_def bit_unsigned_iff)

text \<open>The syndromes of the twelve data bits.\<close>

definition golay_basis :: "nat list" where
  "golay_basis = [0x2e3, 0x5c6, 0x16f, 0x2de, 0x5bc, 0x19b, 0x336, 0x66c, 0x63b, 0x695, 0x7c9, 0x571]"

lemma synd_powers:
  "synd 1 = 0x2e3" "synd 2 = 0x5c6" "synd 4 = 0x16f" "synd 8 = 0x2de" "synd 0x10 = 0x5bc" "synd 0x20 = 0x19b"
  "synd 0x40 = 0x336" "synd 0x80 = 0x66c" "synd 0x100 = 0x63b" "synd 0x200 = 0x695" "synd 0x400 = 0x7c9"
  "synd 0x800 = 0x571"
  unfolding synd_def by (simp_all add: golay_loop_numeral golay_step_def POLY_def)

lemma golay_basis_nth: "k < 12 \<Longrightarrow> golay_basis ! k = unat (synd (2 ^ k))"
proof -
  assume "k < 12"
  then have "k = 0 \<or> k = 1 \<or> k = 2 \<or> k = 3 \<or> k = 4 \<or> k = 5 \<or> k = 6 \<or> k = 7 \<or> k = 8 \<or> k = 9 \<or>
      k = 10 \<or> k = 11"
    by presburger
  then show ?thesis
    by (elim disjE) (simp_all add: golay_basis_def synd_powers)
qed

text \<open>
  Every combination of the data bits whose syndromes are listed, added to a word of \<open>w\<close> data bits
  and check bits \<open>acc\<close>, has a weight of at least 7 unless it is empty.
\<close>

primrec span_min :: "nat list \<Rightarrow> nat \<Rightarrow> nat \<Rightarrow> bool" where
  "span_min [] acc w \<longleftrightarrow> w = 0 \<or> 7 \<le> w + pop acc"
| "span_min (b # bs) acc w \<longleftrightarrow> 7 \<le> w \<or> span_min bs acc w \<and> span_min bs (acc XOR b) (Suc w)"

lemma span_min_all: "span_min golay_basis 0 0"
  by (simp add: golay_basis_def pop_simps numeral_3_eq_3 [symmetric])

lemma span_minD:
  "span_min (drop k golay_basis) (unat a) w \<Longrightarrow> k \<le> 12 \<Longrightarrow> (\<And>n. bit d n \<Longrightarrow> k \<le> n \<and> n < 12) \<Longrightarrow>
   (w = 0 \<and> d = 0) \<or> 7 \<le> w + card (ones d) + card (ones (a XOR synd d))"
proof (induction "12 - k" arbitrary: k a w d)
  case 0
  then have k: "k = 12" by simp
  have "\<not> bit d n" for n using "0.prems"(3) [of n] k by auto
  then have "d = 0" by (intro bit_word_eqI) simp
  with 0 k show ?case by (simp add: golay_basis_def pop_unat)
next
  case (Suc n)
  then have k: "k < 12" "n = 12 - Suc k" "Suc k \<le> 12" by simp_all
  have len: "length golay_basis = 12" by (simp add: golay_basis_def)
  have dr: "drop k golay_basis = unat (synd (2 ^ k)) # drop (Suc k) golay_basis"
    using k(1) by (simp add: len golay_basis_nth flip: Cons_nth_drop_Suc)
  show ?case
  proof (cases "7 \<le> w")
    case False
    with Suc.prems(1) dr have sp: "span_min (drop (Suc k) golay_basis) (unat a) w"
      "span_min (drop (Suc k) golay_basis) (unat (a XOR synd (2 ^ k))) (Suc w)"
      by (simp_all add: unsigned_xor_eq)
    show ?thesis
    proof (cases "bit d k")
      case True
      let ?d = "d XOR 2 ^ k"
      have bits: "bit ?d n \<longleftrightarrow> bit d n \<and> n \<noteq> k" for n
        using True by (auto simp: bit_xor_iff bit_exp_iff dest: bit_imp_le_length)
      have d: "d = 2 ^ k XOR ?d" by (simp add: xor.left_commute)
      have "ones d = insert k (ones ?d)" "k \<notin> ones ?d"
        using True by (auto simp: ones_def bits)
      then have "card (ones d) = Suc (card (ones ?d))" by simp
      moreover have "a XOR synd d = a XOR synd (2 ^ k) XOR synd ?d"
        by (subst d) (simp only: synd_xor)
      moreover have "Suc k \<le> n \<and> n < 12" if "bit ?d n" for n
        using Suc.prems(3) [of n] that by (auto simp: bits)
      ultimately show ?thesis
        using Suc.hyps(1) [OF k(2) sp(2) k(3), of ?d] by (auto simp: xor.assoc)
    next
      case False
      then have "Suc k \<le> n \<and> n < 12" if "bit d n" for n
        using Suc.prems(3) [of n] that by (cases "n = k") auto
      then show ?thesis
        using Suc.hyps(1) [OF k(2) sp(1) k(3), of d] by auto
    qed
  qed simp
qed

lemma codeword_weight:
  assumes "codeword c" "c \<noteq> 0"
  shows "7 \<le> card (ones c)"
proof -
  define d where "d = c AND 0xfff"
  define s where "s = synd d"
  have c: "c = push_bit 12 s XOR d"
    using codeword_golay [OF assms(1)] golay_split [of d] by (simp add: d_def s_def)
  have d: "bit d n \<Longrightarrow> n < 12" for n
    by (simp add: d_def)
  have s: "bit s k \<Longrightarrow> k < 11" for k
    unfolding s_def d_def by (rule synd_bound [OF word23_low])
  have "ones c = ones d \<union> (\<lambda>k. k + 12) ` ones s"
  proof (rule set_eqI)
    fix n
    have "n < 32" if "bit s (n - 12)" using s [OF that] by simp
    then have "bit c n \<longleftrightarrow> bit d n \<or> 12 \<le> n \<and> bit s (n - 12)"
      unfolding c using d [of n] by (auto simp: bit_xor_iff bit_push_bit_iff)
    moreover have "n \<in> (\<lambda>k. k + 12) ` ones s \<longleftrightarrow> 12 \<le> n \<and> bit s (n - 12)"
      by (auto simp: ones_def image_iff intro!: exI [of _ "n - 12"])
    ultimately show "n \<in> ones c \<longleftrightarrow> n \<in> ones d \<union> (\<lambda>k. k + 12) ` ones s"
      by (simp add: ones_def)
  qed
  moreover have "ones d \<inter> (\<lambda>k. k + 12) ` ones s = {}"
    using d by (force simp: ones_def)
  ultimately have "card (ones c) = card (ones d) + card (ones s)"
    by (simp add: card_Un_disjoint card_image)
  moreover have "d \<noteq> 0" using c assms(2) by (auto simp: s_def)
  ultimately show ?thesis
    using span_minD [of 0 0 0 d] span_min_all d by (auto simp: s_def)
qed

lemma codeword_unique:
  assumes "codeword c" "codeword d" "card (ones (c XOR x)) \<le> 3" "card (ones (d XOR x)) \<le> 3"
  shows "c = d"
proof (rule ccontr)
  assume "c \<noteq> d"
  then have "7 \<le> card (ones (c XOR d))"
    using codeword_weight [OF codeword_xor [OF assms(1,2)]] by (simp add: xor_word_eq_0)
  moreover have "c XOR d = (c XOR x) XOR (d XOR x)"
    by (rule bit_word_eqI) (auto simp: bit_xor_iff)
  ultimately show False
    using card_ones_xor [of "c XOR x" "d XOR x"] assms(3,4) by simp
qed



subsection \<open>Decoding\<close>

text \<open>Two bits can be rotated into the eleven check bits unless they are 11 places apart.\<close>

definition fits :: "nat set \<Rightarrow> bool" where
  "fits B \<longleftrightarrow> (\<exists>i < 23. \<forall>p \<in> B. 12 \<le> (p + i) mod 23)"

lemma mod23: "m = 23 + k \<Longrightarrow> k < 23 \<Longrightarrow> m mod 23 = (k :: nat)"
  by simp

lemma fits_at:
  assumes "y < 23" "12 \<le> (a + 35 - y) mod 23" "12 \<le> (b + 35 - y) mod 23"
  shows "fits {a, b}"
proof -
  have "(x + (35 - y) mod 23) mod 23 = (x + 35 - y) mod 23" for x
    using assms(1) by (simp add: mod_add_right_eq)
  with assms(2,3) show ?thesis
    unfolding fits_def by (intro exI [of _ "(35 - y) mod 23"]) simp
qed

lemma distance_cases:
  "(a \<le> b \<and> b \<le> a + 10) \<or> b + 13 \<le> a \<or> (b \<le> a \<and> a \<le> b + 10) \<or> a + 13 \<le> b \<or>
    b = a + 11 \<or> b = a + 12 \<or> a = b + 11 \<or> a = b + (12::nat)"
  by presburger

lemma fits_two:
  assumes ab: "a < 23" "b < 23"
  shows "fits {a, b} \<or> (a + 11) mod 23 = b \<or> (b + 11) mod 23 = a"
proof -
  consider "a \<le> b" "b \<le> a + 10" | "b + 13 \<le> a" | "b \<le> a" "a \<le> b + 10" | "a + 13 \<le> b" |
        "b = a + 11" | "b = a + 12" | "a = b + 11" | "a = b + 12"
    using distance_cases by blast
  then show ?thesis
  proof cases
    case 1
    then have "(b + 35 - a) mod 23 = 12 + (b - a)" using ab by (intro mod23) auto
    then show ?thesis using fits_at [of a a b] ab by simp
  next
    case 2
    then have "(b + 35 - a) mod 23 = b + 35 - a" using ab by (intro mod_less) auto
    then show ?thesis using fits_at [of a a b] ab by simp
  next
    case 3
    then have "(a + 35 - b) mod 23 = 12 + (a - b)" using ab by (intro mod23) auto
    then show ?thesis using fits_at [of b a b] ab by simp
  next
    case 4
    then have "(a + 35 - b) mod 23 = a + 35 - b" using ab by (intro mod_less) auto
    then show ?thesis using fits_at [of b a b] ab by simp
  next
    case 6
    then have "(b + 11) mod 23 = a" using ab by (intro mod23) auto
    then show ?thesis by simp
  next
    case 8
    then have "(a + 11) mod 23 = b" using ab by (intro mod23) auto
    then show ?thesis by simp
  qed (use ab in simp_all)
qed

lemma fits_empty [simp]: "fits {}"
  by (auto simp: fits_def intro: exI [of _ 0])

lemma fits_set: "fits (set xs) \<longleftrightarrow> list_ex (\<lambda>i. list_all (\<lambda>p. 12 \<le> (p + i) mod 23) xs) [0..<23]"
  by (auto simp: fits_def list_ex_iff list_all_iff)

lemma ones_filter: "ones x = set (filter (bit x) [0..<32])"
  by (auto simp: ones_def dest: bit_imp_le_length)

lemma fits_one: "a < 23 \<Longrightarrow> fits {a}"
  using fits_at [of a a a] by simp

lemma dist11: "(a + 11) mod 23 = b \<Longrightarrow> a < 23 \<Longrightarrow> b = a + 11 \<or> a = b + (12::nat)"
  using mod23 [of "a + 11" "a - 12"] by (cases "a + 11 < 23") auto

lemma dist11':
  fixes a b :: nat
  assumes lt: "a < 23" "b < 23" and "(a + 11) mod 23 = b \<or> (b + 11) mod 23 = a"
  shows "b = a + 11 \<or> a = b + 12 \<or> a = b + 11 \<or> b = a + 12"
  using assms(3)
proof
  assume "(a + 11) mod 23 = b"
  from dist11 [OF this lt(1)] show ?thesis by (elim disjE) simp_all
next
  assume "(b + 11) mod 23 = a"
  from dist11 [OF this lt(2)] show ?thesis by (elim disjE) simp_all
qed

lemma no_three_opposite:
  fixes a b c :: nat
  assumes lt: "a < 23" "b < 23" "c < 23"
    and "(a + 11) mod 23 = b \<or> (b + 11) mod 23 = a" "(b + 11) mod 23 = c \<or> (c + 11) mod 23 = b"
      "(a + 11) mod 23 = c \<or> (c + 11) mod 23 = a"
  shows False
  using dist11' [OF lt(1,2) assms(4)] dist11' [OF lt(2,3) assms(5)] dist11' [OF lt(1,3) assms(6)] lt
  by (elim disjE) linarith+

text \<open>Of two or three error bits, one can be flipped so that a rotation moves the others into the check bits.\<close>

lemma fits_without_one:
  assumes "B \<subseteq> {..<23}" "card B = 2 \<or> card B = 3"
  shows "\<exists>q \<in> B. fits (B - {q})"
  using assms(2)
proof
  assume "card B = 2"
  then obtain a b where B: "B = {a, b}" "a \<noteq> b" by (auto simp: card_2_iff)
  then have "B - {b} = {a}" by auto
  moreover have "fits {a}" using assms(1) B by (auto intro: fits_one)
  ultimately show ?thesis using B by (intro bexI [of _ b]) simp_all
next
  assume "card B = 3"
  then obtain a b c where B: "B = {a, b, c}" "a \<noteq> b" "b \<noteq> c" "a \<noteq> c"
    by (auto simp: card_3_iff)
  have lt: "a < 23" "b < 23" "c < 23" using assms(1) B by auto
  have "fits {a, b} \<or> fits {b, c} \<or> fits {a, c}"
    using no_three_opposite [OF lt] fits_two [OF lt(1,2)] fits_two [OF lt(2,3)] fits_two [OF lt(1,3)]
    by satx
  moreover have "B - {c} = {a, b}" "B - {a} = {b, c}" "B - {b} = {a, c}" using B by auto
  moreover have "a \<in> B" "b \<in> B" "c \<in> B" using B by auto
  ultimately show ?thesis by (elim disjE) (rule bexI; simp)+
qed

lemma not_fits_card: "word23 x \<Longrightarrow> \<not> fits (ones x) \<Longrightarrow> 2 \<le> card (ones x)"
proof -
  assume w: "word23 x" and nf: "\<not> fits (ones x)"
  have "card (ones x) \<noteq> 0" using nf by auto
  moreover have "card (ones x) \<noteq> 1"
    using nf fits_one w by (auto simp: card_1_singleton_iff word23_def ones_def)
  ultimately show ?thesis by linarith
qed

lemma correct_shifts_Inl:
  assumes "word23 x"
    and "correct_shifts w i ((rotl ^^ i) x) (syndrome ((rotl ^^ i) x)) errs = Inl (y, n)"
  shows "codeword y \<and> card (ones (y XOR x)) = n \<and> n \<le> w \<and> fits (ones (y XOR x))"
  using assms(2)
proof (induction "23 - i" arbitrary: i errs)
  case 0
  then show ?case by (simp add: correct_shifts.simps)
next
  case (Suc m)
  let ?cw = "(rotl ^^ i) x"
  let ?s = "syndrome ?cw"
  have i: "i < 23" "m = 23 - Suc i" using Suc.hyps(2) by simp_all
  have w: "word23 ?cw" "word23 ?s" using rotl_pow_word23 [OF assms(1)] syndrome_word23 by auto
  show ?case
  proof (cases "weight ?s \<le> w")
    case True
    let ?z = "?cw XOR ?s"
    have z: "codeword ?z"
      using w by (simp add: codeword_def word23_xor synd_xor synd_syndrome)
    have y: "y = rotate_right ?z i" "n = weight ?s"
      using Suc.prems True i(1) by (simp_all add: correct_shifts.simps)
    have c: "codeword y" "(rotl ^^ i) y = ?z"
      using rotate_right_codeword [OF z, of i] y by simp_all
    have "(rotl ^^ i) (y XOR x) = ?s"
      by (rule bit_word_eqI) (auto simp: rotl_pow_xor c(2) bit_xor_iff)
    moreover have wyx: "word23 (y XOR x)" using c(1) assms(1) by (simp add: codeword_def word23_xor)
    ultimately have s: "ones ?s = (\<lambda>p. (p + i) mod 23) ` ones (y XOR x)" "card (ones (y XOR x)) = card (ones ?s)"
      using ones_rotl_pow [OF wyx, of i] card_ones_rotl_pow [OF wyx, of i] by simp_all
    have "12 \<le> p" if "p \<in> ones ?s" for p
      using that w(1) by (simp add: ones_def syndrome_synd bit_push_bit_iff)
    then have "fits (ones (y XOR x))"
      unfolding fits_def using i(1) s(1) by (intro exI [of _ i]) auto
    then show ?thesis using c(1) y(2) True w s(2) by (simp add: weight_card)
  next
    case False
    then have "correct_shifts w (Suc i) ((rotl ^^ Suc i) x) (syndrome ((rotl ^^ Suc i) x)) (weight ?s) = Inl (y, n)"
      using Suc.prems i(1) by (simp add: correct_shifts.simps [of w i] rotl_def Let_def)
    from Suc.hyps(1) [OF i(2) this] show ?thesis .
  qed
qed

lemma correct_shifts_Inr:
  assumes "word23 x"
    and "correct_shifts w i ((rotl ^^ i) x) (syndrome ((rotl ^^ i) x)) errs = Inr r"
  shows "\<forall>k. i \<le> k \<and> k < 23 \<longrightarrow> w < card (ones (syndrome ((rotl ^^ k) x)))"
  using assms(2)
proof (induction "23 - i" arbitrary: i errs)
  case (Suc m)
  let ?s = "syndrome ((rotl ^^ i) x)"
  have i: "i < 23" "m = 23 - Suc i" using Suc.hyps(2) by simp_all
  have s: "weight ?s = card (ones ?s)"
    using rotl_pow_word23 [OF assms(1)] syndrome_word23 weight_card by blast
  have ws: "w < weight ?s"
    using Suc.prems i(1) by (cases "weight ?s \<le> w") (simp_all add: correct_shifts.simps [of w i])
  then have "correct_shifts w (Suc i) ((rotl ^^ Suc i) x) (syndrome ((rotl ^^ Suc i) x)) (weight ?s) = Inr r"
    using Suc.prems i(1) by (simp add: correct_shifts.simps [of w i] rotl_def Let_def)
  from Suc.hyps(1) [OF i(2) this] show ?case
    using ws s by (metis Suc_leI le_eq_less_or_eq)
qed simp


definition bit_flip :: "nat \<Rightarrow> uint32" where
  "bit_flip q = 2 ^ q"

lemma bit_bit_flip: "q < 23 \<Longrightarrow> bit (bit_flip q) n \<longleftrightarrow> n = q"
  by (auto simp: bit_flip_def bit_exp_iff)

lemma bit_flip_props:
  assumes "q < 23"
  shows "word23 (bit_flip q)" "ones (x XOR bit_flip q) = (if bit x q then ones x - {q} else insert q (ones x))"
    "bit_flip q + bit_flip q = bit_flip (Suc q)"
  using assms by (auto simp: word23_def ones_def bit_bit_flip bit_xor_iff)
    (simp add: bit_flip_def)

text \<open>
  A pass that tries the shifts of a word at distance \<open>w\<close> or less from a codeword finds it when the
  errors fit in the check bits.
\<close>

lemma correct_shifts_finds:
  assumes "codeword c" "word23 x" "fits (ones (c XOR x))" "card (ones (c XOR x)) \<le> w" "w \<le> 3"
  shows "correct_shifts w 0 x (syndrome x) errs = Inl (c, card (ones (c XOR x)))"
proof -
  let ?e = "c XOR x"
  have we: "word23 ?e" using assms(1,2) by (simp add: codeword_def word23_xor)
  have xe: "x = c XOR ?e" by (simp add: xor.left_commute flip: xor.assoc)
  obtain i where i: "i < 23" "\<forall>p \<in> ones ?e. 12 \<le> (p + i) mod 23"
    using assms(3) by (auto simp: fits_def)
  have "syndrome ((rotl ^^ i) x) = (rotl ^^ i) ?e"
    using syndrome_codeword_xor [OF assms(1) we, of i] syndrome_fits [OF we i(2)] xe by simp
  then have le: "card (ones (syndrome ((rotl ^^ i) x))) \<le> w"
    using card_ones_rotl_pow [OF we] assms(4) by simp
  show ?thesis
  proof (cases "correct_shifts w 0 x (syndrome x) errs")
    case (Inl r)
    then have "codeword (fst r) \<and> card (ones (fst r XOR x)) = snd r \<and> snd r \<le> w"
      using correct_shifts_Inl [OF assms(2), of w 0 errs "fst r" "snd r"] by simp
    moreover from this have "fst r = c"
      using codeword_unique [of "fst r" c x] assms by simp
    ultimately show ?thesis using Inl by (metis prod.collapse)
  next
    case (Inr r)
    then have "w < card (ones (syndrome ((rotl ^^ i) x)))"
      using correct_shifts_Inr [OF assms(2), of w 0 errs r] i(1) by simp
    with le show ?thesis by simp
  qed
qed


lemma correct_loop_flips:
  assumes c: "codeword c" and r: "word23 r" and e: "card (ones (c XOR r)) = 2 \<or> card (ones (c XOR r)) = 3"
    and q: "bit (c XOR r) q" "fits (ones (c XOR r) - {q})"
    and j: "j \<le> q" "msk = bit_flip (j - 1)"
  shows "correct_loop r (int j) msk cw w errs = (c, card (ones (c XOR r)) - 1)"
  using j
proof (induction "q - j" arbitrary: j msk cw w errs)
  have we: "word23 (c XOR r)" using c r by (simp add: codeword_def word23_xor)
  then have q23: "q < 23" using q(1) by (auto simp: word23_def)
  {
    fix j msk
    assume jq: "j \<le> q" and m: "msk = bit_flip (j - 1)"
    define x where "x = r XOR bit_flip j"
    have j23: "j < 23" using jq q23 by simp
    have wx: "word23 x" using r j23 by (simp add: x_def word23_xor bit_flip_props)
    have cx: "c XOR x = (c XOR r) XOR bit_flip j" by (simp add: x_def xor.assoc)
    have ones: "ones (c XOR x) = (if bit (c XOR r) j then ones (c XOR r) - {j} else insert j (ones (c XOR r)))"
      unfolding cx using j23 by (simp add: bit_flip_props)
    have card: "card (ones (c XOR x)) =
        (if bit (c XOR r) j then card (ones (c XOR r)) - 1 else card (ones (c XOR r)) + 1)"
      unfolding ones by (auto simp: ones_def)
    have flip: "(if int j \<noteq> - 1 \<and> int j > 0 then msk + msk else msk) = bit_flip j"
      using m j23 bit_flip_props(3) [of "j - 1"] by (cases j) (auto simp: bit_flip_def)
    have near: "y = c \<and> n = card (ones (c XOR r)) - 1"
      if y: "codeword y" "card (ones (y XOR x)) = n" "n \<le> 2" for y n
    proof -
      have "ones (bit_flip j) = {j}" using j23 by (auto simp: ones_def bit_bit_flip)
      moreover have "y XOR r = (y XOR x) XOR bit_flip j"
        by (rule bit_word_eqI) (auto simp: x_def bit_xor_iff)
      ultimately have "card (ones (y XOR r)) \<le> 3"
        using card_ones_xor [of "y XOR x" "bit_flip j"] y by simp
      then have "y = c" using codeword_unique [OF y(1) c] e by auto
      then show ?thesis using y card e by (auto split: if_splits)
    qed
    have nz: "syndrome x \<noteq> 0"
    proof
      assume "syndrome x = 0"
      then have "codeword x" using wx by (simp add: codeword_def syndrome_eq_0)
      from near [OF this refl] have "card (ones (c XOR r)) \<le> 1" by simp
      with e show False by auto
    qed
    have step: "correct_loop r (int j) msk cw w errs =
        (case correct_shifts 2 0 x (syndrome x) errs of Inl r' \<Rightarrow> r'
         | Inr (cw, errs) \<Rightarrow> correct_loop r (int j + 1) (bit_flip j) cw 2 errs)" for cw w errs
      using j23 nz flip
      by (simp add: correct_loop.simps [of r "int j"] Let_def x_def [symmetric] split del: if_split)
    have inl: "correct_shifts 2 0 x (syndrome x) errs = Inl (y, n) \<Longrightarrow> y = c \<and> n = card (ones (c XOR r)) - 1"
      for errs y n
      using correct_shifts_Inl [OF wx, of 2 0 errs y n] near [of y n] by simp
    have last: "\<exists>r'. correct_shifts 2 0 x (syndrome x) errs = Inl r'" if "j = q" for errs
      using correct_shifts_finds [OF c wx, of 2 errs] q e that ones card by auto
    note step inl last
  } note * = this
  {
    case 0
    then have "j = q" by simp
    from *(3) [OF "0.prems" this] obtain p
      where "correct_shifts 2 0 (r XOR bit_flip j) (syndrome (r XOR bit_flip j)) errs = Inl p" by blast
    then show ?case
      using *(1) [OF "0.prems"] *(2) [OF "0.prems", of errs "fst p" "snd p"] by (cases p) simp
  next
    case (Suc m)
    then have j: "m = q - Suc j" "Suc j \<le> q" by simp_all
    show ?case
    proof (cases "correct_shifts 2 0 (r XOR bit_flip j) (syndrome (r XOR bit_flip j)) errs")
      case (Inl p)
      then show ?thesis
        using *(1) [OF Suc.prems] *(2) [OF Suc.prems, of errs "fst p" "snd p"] by (cases p) simp
    next
      case (Inr p)
      then show ?thesis
        using *(1) [OF Suc.prems] Suc.hyps(1) [OF j] by (cases p) (simp add: add.commute)
    qed
  }
qed

lemma correct_spec:
  assumes c: "codeword c" and we: "word23 e" and le: "card (ones e) \<le> 3"
  shows "correct (c XOR e) = (c, if fits (ones e) then card (ones e) else card (ones e) - 1)"
proof -
  let ?r = "c XOR e"
  have r: "word23 ?r" using c we by (simp add: codeword_def word23_xor)
  have e: "c XOR ?r = e" by (simp flip: xor.assoc)
  have step: "correct ?r = (if syndrome ?r \<noteq> 0 then case correct_shifts 3 0 ?r (syndrome ?r) 0 of Inl p \<Rightarrow> p
      | Inr (cw, errs) \<Rightarrow> correct_loop ?r (- 1 + 1) 1 cw 3 errs else (?r, 0))"
    by (simp add: correct_def correct_loop.simps [of ?r "- 1"] Let_def bit_flip_def)
  show ?thesis
  proof (cases "syndrome ?r = 0")
    case True
    then have "codeword ?r" using r by (simp add: codeword_def syndrome_eq_0)
    then have "?r = c" using codeword_unique [OF _ c, of ?r ?r] e le by simp
    then have "e = 0" using e by (metis xor_self_eq)
    then show ?thesis using step True \<open>?r = c\<close> by simp
  next
    case False
    then have "e \<noteq> 0" using syndrome_codeword_xor [OF c we, of 0] by (auto simp: syndrome_def)
    then have pos: "0 < card (ones e)" by (simp add: card_gt_0_iff)
    show ?thesis
    proof (cases "correct_shifts 3 0 ?r (syndrome ?r) 0")
      case (Inl p)
      then have p: "codeword (fst p) \<and> card (ones (fst p XOR ?r)) = snd p \<and> snd p \<le> 3 \<and> fits (ones (fst p XOR ?r))"
        using correct_shifts_Inl [OF r, of 3 0 0 "fst p" "snd p"] by simp
      then have "fst p = c" using codeword_unique [of "fst p" c ?r] c e le by simp
      with p e have "p = (c, card (ones e))" "fits (ones e)" by (metis prod.collapse)+
      then show ?thesis using step Inl False by simp
    next
      case (Inr p)
      have sub: "ones e \<subseteq> {..<23}" using we by (auto simp: ones_def word23_def)
      have nf: "\<not> fits (ones e)"
        using correct_shifts_finds [OF c r, unfolded e, of 3 0] le Inr by auto
      have "card (ones e) \<noteq> 1"
        using nf sub fits_one by (auto simp: card_1_singleton_iff)
      then have two: "card (ones e) = 2 \<or> card (ones e) = 3" using le pos by linarith
      then obtain q where "q \<in> ones e" "fits (ones e - {q})"
        using fits_without_one [OF sub] by blast
      then have "correct_loop ?r (int 0) (bit_flip 0) (fst p) 3 (snd p) = (c, card (ones e) - 1)"
        using correct_loop_flips [OF c r, unfolded e, OF two, of q 0] by (simp add: ones_def)
      then show ?thesis
        using step Inr False nf by (cases p) (auto simp: bit_flip_def)
    qed
  qed
qed


subsection \<open>Headers of three bytes\<close>

definition fold_half :: "nat \<Rightarrow> byte \<Rightarrow> byte" where
  "fold_half k p = p XOR drop_bit k p"

definition fold_bytes :: "uint32 \<Rightarrow> byte" where
  "fold_bytes cw = (ucast cw AND 0xFF) XOR ucast (drop_bit 8 cw AND 0xFF) XOR ucast (drop_bit 16 cw AND 0xFF)"

lemma fold_half_xor: "fold_half k (p XOR q) = fold_half k p XOR fold_half k q"
  by (rule bit_word_eqI) (auto simp: fold_half_def bit_xor_iff bit_drop_bit_eq)

lemma fold_bytes_xor: "fold_bytes (x XOR y) = fold_bytes x XOR fold_bytes y"
proof -
  have "bit (fold_bytes x) n \<longleftrightarrow> n < 8 \<and> (bit x n \<noteq> (bit x (8 + n) \<noteq> bit x (16 + n)))" for x n
    by (auto simp: fold_bytes_def bit_xor_iff bit_and_iff bit_drop_bit_eq bit_unsigned_iff)
  then show ?thesis
    by (intro bit_word_eqI) (auto simp: bit_xor_iff)
qed

lemma parity_fold: "parity x \<longleftrightarrow> bit (fold_half 1 (fold_half 2 (fold_half 4 (fold_bytes x)))) 0"
  by (simp add: parity_def fold_half_def fold_bytes_def Let_def and_one_eq odd_iff_mod_2_eq_one bit_0 xor.assoc)

lemma parity_xor: "parity (x XOR y) \<longleftrightarrow> parity x \<noteq> parity y"
  by (simp add: parity_fold fold_bytes_xor fold_half_xor bit_xor_iff)

lemma golay_load_3:
  "golay_load [a, b, c] = Some (ucast a OR push_bit 8 (ucast b) OR push_bit 16 (ucast c))"
  by (simp add: golay_load_def mem_read_def)

lemma bit_golay_load:
  "golay_load [a, b, c] = Some x \<Longrightarrow>
   bit x n \<longleftrightarrow> (if n < 8 then bit a n else if n < 16 then bit b (n - 8) else n < 24 \<and> bit c (n - 16))"
  unfolding golay_load_3 option.inject
  by (drule sym) (auto simp: bit_or_iff bit_push_bit_iff bit_unsigned_iff dest: bit_imp_le_length)

lemma golay_load_xor:
  assumes "golay_load [a, b, c] = Some x" "golay_load [a', b', c'] = Some y"
  shows "golay_load [a XOR a', b XOR b', c XOR c'] = Some (x XOR y)"
proof -
  obtain z where z: "golay_load [a XOR a', b XOR b', c XOR c'] = Some z"
    by (simp add: golay_load_3)
  have "z = x XOR y"
    by (rule bit_word_eqI)
      (auto simp: bit_xor_iff bit_golay_load [OF z] bit_golay_load [OF assms(1)] bit_golay_load [OF assms(2)])
  with z show ?thesis by simp
qed

lemma golay_load_stored:
  assumes "\<And>n. bit cw n \<Longrightarrow> n < 24"
  shows "golay_load [byte_at 0 cw, byte_at 8 cw, byte_at 16 cw] = Some cw"
proof -
  obtain x where x: "golay_load [byte_at 0 cw, byte_at 8 cw, byte_at 16 cw] = Some x"
    by (simp add: golay_load_3)
  have "x = cw"
  proof (rule bit_word_eqI)
    fix n
    have "n - 16 < 8" if "bit cw n" using assms [OF that] by simp
    then show "bit x n \<longleftrightarrow> bit cw n"
      using assms [of n] by (auto simp: bit_golay_load [OF x])
  qed
  with x show ?thesis by simp
qed

lemma bit_clear_23: "bit (x AND NOT 0x800000) n \<longleftrightarrow> bit x n \<and> n \<noteq> 23" for x :: uint32
  by (simp only: bit_and_iff bit_not_iff) (auto dest: bit_imp_le_length)

lemma bit_only_23: "bit (x AND 0x800000) n \<longleftrightarrow> bit x n \<and> n = 23" for x :: uint32
  by (simp only: bit_and_iff) auto

lemma golay_word23: "word23 (golay d)"
  using golay_codeword by (simp add: codeword_def)

text \<open>
  (C1) The code corrects three errors. Whatever twelve data bits are encoded, and whichever bits of
  the 24 are damaged in transit, as long as they are at most three, \<open>golay_decode\<close> returns the data
  bits; and it reports no error exactly when there was none.
\<close>

theorem golay_corrects:
  assumes "golay_load data = Some d" and "length data = 3"
    and "length es = 3" and "golay_load es = Some e" and "card (ones e) \<le> 3"
  shows "\<exists>code n. golay_encode data = Some code \<and>
    golay_decode (map2 (XOR) code es) = Some (d AND 0xfff, n) \<and> (n = 0 \<longleftrightarrow> e = 0)"
proof -
  obtain e1 e2 e3 where es: "es = [e1, e2, e3]"
    using assms(3) by (auto simp: numeral_3_eq_3 length_Suc_conv)
  obtain d1 d2 d3 where data: "data = [d1, d2, d3]"
    using assms(2) by (auto simp: numeral_3_eq_3 length_Suc_conv)
  let ?g = "golay d" and ?p = "if parity (golay d) then 0x800000 else 0 :: uint32"
  define cw where "cw = ?g XOR ?p"
  define e' where "e' = e AND 0x7fffff"
  have g: "bit ?g n \<Longrightarrow> n < 23" for n using golay_word23 by (simp add: word23_def)
  have cw: "(if parity ?g then ?g OR 0x800000 else ?g) = cw"
    unfolding cw_def by (rule bit_word_eqI) (use g in \<open>auto simp: bit_xor_iff bit_or_iff\<close>)
  have cw24: "bit cw n \<Longrightarrow> n < 24" for n
    unfolding cw_def using g [of n] by (auto simp: bit_xor_iff split: if_splits)
  have enc: "golay_encode data = Some [byte_at 0 cw, byte_at 8 cw, byte_at 16 cw]"
    using assms(1) by (simp add: golay_encode_def data cw Let_def mem_write_def)
  have bit_e: "bit e n \<Longrightarrow> n < 24" for n
    using bit_golay_load [of e1 e2 e3 e n] assms(4) es by (auto split: if_splits)
  have ld: "golay_load (map2 (XOR) [byte_at 0 cw, byte_at 8 cw, byte_at 16 cw] es) = Some (cw XOR e)"
    using golay_load_xor [OF golay_load_stored [OF cw24]] assms(4) es by simp
  have low: "(cw XOR e) AND NOT 0x800000 = ?g XOR e'"
  proof (rule bit_word_eqI)
    fix n
    show "bit ((cw XOR e) AND NOT 0x800000) n \<longleftrightarrow> bit (?g XOR e') n"
      unfolding bit_clear_23 e'_def cw_def using g [of n] bit_e [of n]
      by (cases "n = 23") (auto simp: bit_xor_iff split: if_splits)
  qed
  have top: "(cw XOR e) AND 0x800000 = (if parity ?g \<noteq> bit e 23 then 0x800000 else 0)"
  proof (rule bit_word_eqI)
    fix n
    show "bit ((cw XOR e) AND 0x800000) n \<longleftrightarrow> bit (if parity ?g \<noteq> bit e 23 then 0x800000 else 0 :: uint32) n"
      unfolding bit_only_23 cw_def using g [of n] by (auto simp: bit_xor_iff split: if_splits)
  qed
  have "ones e' \<subseteq> ones e" by (auto simp: ones_def e'_def)
  then have "card (ones e') \<le> 3" using assms(5) card_mono [OF ones_finite] le_trans by blast
  then have corr: "correct (?g XOR e') = (?g, if fits (ones e') then card (ones e') else card (ones e') - 1)"
    using correct_spec [OF golay_codeword, of e' d] by (simp add: e'_def)
  define n where "n = (if fits (ones e') then card (ones e') else card (ones e') - 1)"
  have n: "correct (?g XOR e') = (?g, n)" using corr by (simp add: n_def)
  let ?z = "?g OR (if parity ?g \<noteq> bit e 23 then 0x800000 else 0)"
  have z: "?z = ?g XOR (if parity ?g \<noteq> bit e 23 then 0x800000 else 0)"
    by (rule bit_word_eqI) (use g in \<open>auto simp: bit_xor_iff bit_or_iff\<close>)
  have p80: "parity 0x800000" "\<not> parity 0" by (simp_all add: parity_def)
  have "parity ?z \<longleftrightarrow> bit e 23"
    unfolding z parity_xor using p80 by auto
  moreover have "?z AND 0xfff = d AND 0xfff"
    by (subst golay_data [symmetric], rule bit_word_eqI) (auto simp: bit_or_iff)
  ultimately have dec: "golay_decode (map2 (XOR) [byte_at 0 cw, byte_at 8 cw, byte_at 16 cw] es) =
      Some (d AND 0xfff, if bit e 23 then n + 1 else n)"
    unfolding golay_decode_def ld bind.bind_lunit Let_def low top n prod.case by (simp only: simp_thms)
  have "e' = 0 \<and> \<not> bit e 23 \<longleftrightarrow> e = 0"
  proof
    assume "e' = 0 \<and> \<not> bit e 23"
    then have "\<not> bit (e AND 0x7fffff) n" "\<not> bit e 23" for n by (simp_all add: e'_def)
    note z = this
    have "\<not> bit e n" for n
      using z(1) [of n] z(2) bit_e [of n] by (cases "n = 23") auto
    then show "e = 0" by (intro bit_word_eqI) simp
  qed (simp add: e'_def)
  moreover have "n = 0 \<longleftrightarrow> e' = 0"
    using not_fits_card [of e'] card_0_eq [OF ones_finite, of e'] by (auto simp: n_def e'_def)
  ultimately show ?thesis
    using enc dec by auto
qed


theorem golay_corrects_witness:
  "\<exists>code n. golay_encode [0xBC, 0x0A, 0] = Some code \<and>
    golay_decode (map2 (XOR) code [0x11, 0, 0x80]) = Some (0xABC, n) \<and> (n = 0 \<longleftrightarrow> (0x800011 :: uint32) = 0)"
proof -
  have e: "ones 0x800011 = {0, 4, 23}"
    unfolding ones_filter by (simp add: upt_conv_Cons bit_0 eval_nat_numeral del: set_filter set_upt)
  have "golay_load [0xBC, 0x0A, 0] = Some 0xABC" "golay_load [0x11, 0, 0x80] = Some 0x800011"
    by (simp_all add: golay_load_3)
  from golay_corrects [OF this(1) _ _ this(2)] e show ?thesis by simp
qed

text \<open>
  (C35) The error count. For at most three errors in the 23 bits, \<open>correct\<close> restores the codeword
  and stores the number of errors when some rotation moves all of them into the eleven check bits;
  otherwise a trial flip was needed and the count is one less than the number of bits corrected.
\<close>

theorem correct_error_count:
  assumes "word23 e" and "card (ones e) \<le> 3"
  shows "correct (golay d XOR e) = (golay d, if fits (ones e) then card (ones e) else card (ones e) - 1)"
  by (rule correct_spec [OF golay_codeword assms])

theorem correct_error_count_witness: "correct (golay 0x123 XOR 0x10101) = (golay 0x123, 2)"
proof -
  have e: "ones 0x10101 = {0, 8, 16}"
    unfolding ones_filter by (simp add: upt_conv_Cons bit_0 eval_nat_numeral del: set_filter set_upt)
  then have "word23 0x10101" by (simp add: word23_ones)
  moreover have "\<not> fits {0, 8, 16}"
    using fits_set [of "[0, 8, 16]"] by (simp add: upt_conv_Cons)
  ultimately show ?thesis using correct_error_count [of "0x10101" "0x123"] e by simp
qed


end
