(* ===== verification/Rotbuf.thy ===== *)
theory Rotbuf
  imports Serval_Prelude
begin

text \<open>
  The rotated buffer of rotbuf.h and rotbuf.c, which the Rhizome store and the slip decoder read
  circular memory with. The memory region from \<open>buf\<close> to \<open>ebuf\<close> is the list \<open>buf\<close>; the pointers
  \<open>start\<close> and \<open>cursor\<close> are offsets in it; \<open>wrap\<close> is the 32-bit \<open>unsigned int\<close> of the code. The
  refinement shows that the cursor moves through the linear sequence \<open>rotate start buf\<close>.
\<close>

section \<open>Operations\<close>

record rotbuf =
  buf :: "byte list"
  start :: nat
  cursor :: nat
  wrap :: uint32

definition EOF :: int where
  "EOF = - 1"

abbreviation ebuf :: "rotbuf \<Rightarrow> nat" where
  "ebuf rb \<equiv> length (buf rb)"

text \<open>
  \<open>rot < 0 ? size - 1 - (-1 - rot) % size : rot % size\<close>: the divisor is a \<open>size_t\<close>, so both
  remainders are unsigned; a zero size divides by zero.
\<close>

definition rotbuf_init :: "byte list \<Rightarrow> int \<Rightarrow> rotbuf option" where
  "rotbuf_init mem rot =
     (let n = length mem
      in if n = 0 then None
         else let s = (if rot < 0 then n - 1 - nat (- 1 - rot) mod n else nat rot mod n)
              in Some \<lparr>buf = mem, start = s, cursor = s, wrap = 0\<rparr>)"

definition rotbuf_reset :: "rotbuf \<Rightarrow> rotbuf" where
  "rotbuf_reset rb = rb\<lparr>cursor := start rb, wrap := 0\<rparr>"

definition rotbuf_position :: "rotbuf \<Rightarrow> nat" where
  "rotbuf_position rb =
     (if wrap rb \<noteq> 0 then ebuf rb
      else if cursor rb \<ge> start rb then cursor rb - start rb
      else cursor rb + (ebuf rb - start rb))"

definition rotbuf_remain :: "rotbuf \<Rightarrow> nat" where
  "rotbuf_remain rb =
     (if wrap rb \<noteq> 0 then 0
      else if cursor rb < start rb then start rb - cursor rb
      else (ebuf rb - cursor rb) + start rb)"

definition rotbuf_count :: "rotbuf \<Rightarrow> nat" where
  "rotbuf_count rb = (if wrap rb \<noteq> 0 then ebuf rb + unat (wrap rb) - 1 else rotbuf_position rb)"

text \<open>
  The cursor is moved before it is compared with the end; the sum is taken in a flat address space, also
  where it lies beyond the memory region.
\<close>

definition rotbuf_advance :: "rotbuf \<Rightarrow> nat \<Rightarrow> rotbuf" where
  "rotbuf_advance rb len =
     (if wrap rb \<noteq> 0 then rb\<lparr>wrap := wrap rb + of_nat len\<rparr>
      else if len \<noteq> 0
      then if cursor rb \<ge> start rb
           then let c = cursor rb + len
                in if c \<ge> ebuf rb
                   then let c = c - ebuf rb
                        in if c \<ge> start rb then rb\<lparr>cursor := start rb, wrap := of_nat (1 + (c - start rb))\<rparr>
                           else rb\<lparr>cursor := c\<rparr>
                   else rb\<lparr>cursor := c\<rparr>
           else let c = cursor rb + len
                in if c \<ge> start rb then rb\<lparr>cursor := start rb, wrap := of_nat (1 + (c - start rb))\<rparr>
                   else rb\<lparr>cursor := c\<rparr>
      else rb)"

text \<open>The steps of the cursor that \<open>rotbuf_getc\<close> and \<open>rotbuf_putc\<close> share.\<close>

definition rotbuf_step :: "rotbuf \<Rightarrow> rotbuf" where
  "rotbuf_step rb =
     (let c = cursor rb + 1;
          c = (if c = ebuf rb then 0 else c)
      in rb\<lparr>cursor := c, wrap := (if c = start rb then 1 else wrap rb)\<rparr>)"

definition rotbuf_getc :: "rotbuf \<Rightarrow> (int \<times> rotbuf) option" where
  "rotbuf_getc rb =
     (if wrap rb \<noteq> 0 then Some (EOF, rb\<lparr>wrap := wrap rb + 1\<rparr>)
      else do {
        c \<leftarrow> mem_read (buf rb) (cursor rb) 1;
        Some (uint (hd c), rotbuf_step rb)
      })"

fun rotbuf_getbuf :: "rotbuf \<Rightarrow> nat \<Rightarrow> (byte list \<times> rotbuf) option" where
  "rotbuf_getbuf rb 0 = Some ([], rb)"
| "rotbuf_getbuf rb (Suc len) = do {
     (c, rb) \<leftarrow> rotbuf_getc rb;
     (cs, rb) \<leftarrow> rotbuf_getbuf rb len;
     Some (word_of_int c # cs, rb)
   }"

definition rotbuf_putc :: "rotbuf \<Rightarrow> byte \<Rightarrow> rotbuf option" where
  "rotbuf_putc rb c =
     (if wrap rb \<noteq> 0 then Some (rb\<lparr>wrap := wrap rb + 1\<rparr>)
      else do {
        m \<leftarrow> mem_write (buf rb) (cursor rb) [c];
        Some (rotbuf_step (rb\<lparr>buf := m\<rparr>))
      })"

fun rotbuf_putbuf :: "rotbuf \<Rightarrow> byte list \<Rightarrow> rotbuf option" where
  "rotbuf_putbuf rb [] = Some rb"
| "rotbuf_putbuf rb (c # cs) = do { rb \<leftarrow> rotbuf_putc rb c; rotbuf_putbuf rb cs }"

text \<open>\<open>same\<close> says whether the two look at the same memory, that is have equal pointers \<open>buf\<close> and \<open>ebuf\<close>.\<close>

definition rotbuf_delta :: "bool \<Rightarrow> rotbuf \<Rightarrow> rotbuf \<Rightarrow> int option" where
  "rotbuf_delta same origin dest = do {
     assert same;
     assert (start origin = start dest);
     let org = (if cursor origin < start origin then cursor origin + ebuf origin else cursor origin);
     assert (org \<ge> start origin);
     let dst = (if cursor dest < start dest then cursor dest + ebuf dest else cursor dest);
     assert (dst \<ge> start dest);
     Some (int dst - int org)
   }"

text \<open>The chunk is its offset and its length; \<open>None\<close> for the return value 0.\<close>

definition rotbuf_next_chunk :: "rotbuf \<Rightarrow> (nat \<times> nat) option \<times> rotbuf" where
  "rotbuf_next_chunk rb =
     (if wrap rb \<noteq> 0 then (None, rb)
      else if cursor rb \<ge> start rb
      then (Some (cursor rb, ebuf rb - cursor rb),
            rb\<lparr>cursor := 0, wrap := (if 0 = start rb then wrap rb + 1 else wrap rb)\<rparr>)
      else (Some (cursor rb, start rb - cursor rb), rb\<lparr>cursor := start rb, wrap := wrap rb + 1\<rparr>))"

section \<open>The linear view\<close>

text \<open>
  The invariant: the pointers are in the region, and a wrapped cursor is parked at the start. The
  content of the buffer, read from the start, is \<open>rotbuf_linear\<close>.
\<close>

definition rotbuf_wf :: "rotbuf \<Rightarrow> bool" where
  "rotbuf_wf rb \<longleftrightarrow> start rb < ebuf rb \<and> cursor rb < ebuf rb \<and> (wrap rb \<noteq> 0 \<longrightarrow> cursor rb = start rb)"

definition rotbuf_linear :: "rotbuf \<Rightarrow> byte list" where
  "rotbuf_linear rb = rotate (start rb) (buf rb)"

lemma rotbuf_linear_length [simp]: "length (rotbuf_linear rb) = ebuf rb"
  by (simp add: rotbuf_linear_def)

lemma rotbuf_position_less: "rotbuf_wf rb \<Longrightarrow> wrap rb = 0 \<Longrightarrow> rotbuf_position rb < ebuf rb"
  by (auto simp: rotbuf_wf_def rotbuf_position_def)

lemma rotbuf_cursor:
  assumes "rotbuf_wf rb" "wrap rb = 0"
  shows "cursor rb = (start rb + rotbuf_position rb) mod ebuf rb"
  using assms by (auto simp: rotbuf_wf_def rotbuf_position_def mod_if)

lemma rotbuf_linear_nth:
  assumes "rotbuf_wf rb" "wrap rb = 0"
  shows "rotbuf_linear rb ! rotbuf_position rb = buf rb ! cursor rb"
  using assms rotbuf_position_less [OF assms] rotbuf_cursor [OF assms]
  by (simp add: rotbuf_linear_def nth_rotate)

lemma rotbuf_remain_position: "rotbuf_wf rb \<Longrightarrow> rotbuf_position rb + rotbuf_remain rb = ebuf rb"
  by (auto simp: rotbuf_wf_def rotbuf_position_def rotbuf_remain_def)

lemma rotbuf_count_cases:
  assumes "rotbuf_wf rb"
  shows "wrap rb = 0 \<Longrightarrow> rotbuf_count rb = rotbuf_position rb \<and> rotbuf_count rb < ebuf rb"
    "wrap rb \<noteq> 0 \<Longrightarrow> ebuf rb \<le> rotbuf_count rb"
proof -
  show "wrap rb = 0 \<Longrightarrow> rotbuf_count rb = rotbuf_position rb \<and> rotbuf_count rb < ebuf rb"
    using rotbuf_position_less [OF assms] by (simp add: rotbuf_count_def)
  assume "wrap rb \<noteq> 0"
  then have "0 < unat (wrap rb)" by (simp add: unat_gt_0)
  with \<open>wrap rb \<noteq> 0\<close> show "ebuf rb \<le> rotbuf_count rb" by (simp add: rotbuf_count_def)
qed

text \<open>
  The number of advances that the 32-bit wrap counter can hold: \<open>rotbuf_count\<close> stays exact while
  it is below \<open>ebuf + 2 ^ 32 - 1\<close>.
\<close>

definition rotbuf_room :: "rotbuf \<Rightarrow> nat \<Rightarrow> bool" where
  "rotbuf_room rb n \<longleftrightarrow> rotbuf_count rb + n < ebuf rb + 2 ^ 32 - 1"

lemma rotbuf_advance_spec:
  assumes wf: "rotbuf_wf rb" and room: "rotbuf_room rb n"
  shows "rotbuf_wf (rotbuf_advance rb n)" "buf (rotbuf_advance rb n) = buf rb"
    "start (rotbuf_advance rb n) = start rb" "rotbuf_count (rotbuf_advance rb n) = rotbuf_count rb + n"
proof -
  show "buf (rotbuf_advance rb n) = buf rb" "start (rotbuf_advance rb n) = start rb"
    by (simp_all add: rotbuf_advance_def Let_def)
  have of: "unat (of_nat m :: uint32) = m" if "m < 2 ^ 32" for m
    using that by (simp add: unat_of_nat_small)
  consider (wrapped) "wrap rb \<noteq> 0" | (none) "wrap rb = 0" "n = 0" | (upper) "wrap rb = 0" "n \<noteq> 0" "cursor rb \<ge> start rb"
    | (lower) "wrap rb = 0" "n \<noteq> 0" "cursor rb < start rb"
    by linarith
  then have "rotbuf_wf (rotbuf_advance rb n) \<and> rotbuf_count (rotbuf_advance rb n) = rotbuf_count rb + n"
  proof cases
    case wrapped
    then have "unat (wrap rb) + n < 2 ^ 32" "0 < unat (wrap rb)"
      using room by (auto simp: rotbuf_room_def rotbuf_count_def unat_gt_0)
    moreover have "wrap rb + of_nat n = of_nat (unat (wrap rb) + n)" by simp
    ultimately have "unat (wrap rb + of_nat n) = unat (wrap rb) + n"
      using of by metis
    moreover from this have "wrap rb + of_nat n \<noteq> 0"
      using \<open>0 < unat (wrap rb)\<close> by (metis add_gr_0 neq0_conv unat_0)
    ultimately show ?thesis
      using wrapped wf \<open>0 < unat (wrap rb)\<close> by (auto simp: rotbuf_advance_def rotbuf_wf_def rotbuf_count_def)
  next
    case none
    then show ?thesis using wf by (simp add: rotbuf_advance_def)
  next
    case upper
    have cnt: "rotbuf_count rb = cursor rb - start rb"
      using upper by (simp add: rotbuf_count_def rotbuf_position_def)
    show ?thesis
    proof (cases "cursor rb + n \<ge> ebuf rb + start rb")
      case True
      let ?w = "1 + (cursor rb + n - ebuf rb - start rb)"
      have w: "?w < 2 ^ 32" using room True cnt upper by (simp add: rotbuf_room_def)
      then have "(of_nat ?w :: uint32) \<noteq> 0" using of [OF w] by (metis add_is_0 unat_0 zero_neq_one)
      then show ?thesis
        using True upper wf w of [OF w] cnt
        by (auto simp: rotbuf_advance_def Let_def rotbuf_wf_def rotbuf_count_def)
    next
      case False
      then show ?thesis
        using upper wf cnt
        by (auto simp: rotbuf_advance_def Let_def rotbuf_wf_def rotbuf_count_def rotbuf_position_def)
    qed
  next
    case lower
    have cnt: "rotbuf_count rb = cursor rb + (ebuf rb - start rb)"
      using lower by (simp add: rotbuf_count_def rotbuf_position_def)
    show ?thesis
    proof (cases "cursor rb + n \<ge> start rb")
      case True
      let ?w = "1 + (cursor rb + n - start rb)"
      have w: "?w < 2 ^ 32" using room True cnt lower wf by (simp add: rotbuf_room_def rotbuf_wf_def)
      then have "(of_nat ?w :: uint32) \<noteq> 0" using of [OF w] by (metis add_is_0 unat_0 zero_neq_one)
      then show ?thesis
        using True lower wf w of [OF w] cnt
        by (auto simp: rotbuf_advance_def Let_def rotbuf_wf_def rotbuf_count_def)
    next
      case False
      then show ?thesis
        using lower wf cnt
        by (auto simp: rotbuf_advance_def Let_def rotbuf_wf_def rotbuf_count_def rotbuf_position_def)
    qed
  qed
  then show "rotbuf_wf (rotbuf_advance rb n)" "rotbuf_count (rotbuf_advance rb n) = rotbuf_count rb + n"
    by simp_all
qed


lemma rotbuf_step_advance:
  assumes "rotbuf_wf rb" "wrap rb = 0"
  shows "rotbuf_step rb = rotbuf_advance rb 1"
  using assms by (auto simp: rotbuf_step_def rotbuf_advance_def Let_def rotbuf_wf_def)

lemma rotbuf_wrap_advance: "wrap rb \<noteq> 0 \<Longrightarrow> rb\<lparr>wrap := wrap rb + 1\<rparr> = rotbuf_advance rb 1"
  by (simp add: rotbuf_advance_def)

lemma rotbuf_advance_0 [simp]: "rotbuf_advance rb 0 = rb"
  by (simp add: rotbuf_advance_def)

lemma rotbuf_wrap_iff: "rotbuf_wf rb \<Longrightarrow> wrap rb = 0 \<longleftrightarrow> rotbuf_count rb < ebuf rb"
  using rotbuf_count_cases [of rb] by (cases "wrap rb = 0") (auto simp: not_less)

lemma rotbuf_eqI:
  assumes "rotbuf_wf rb" "rotbuf_wf rb'" "buf rb = buf rb'" "start rb = start rb'"
    and "rotbuf_count rb = rotbuf_count rb'"
  shows "rb = rb'"
proof -
  have w: "wrap rb = 0 \<longleftrightarrow> wrap rb' = 0"
    using rotbuf_wrap_iff [OF assms(1)] rotbuf_wrap_iff [OF assms(2)] assms(3,5) by simp
  have "wrap rb = wrap rb' \<and> cursor rb = cursor rb'"
  proof (cases "wrap rb = 0")
    case True
    then have "rotbuf_position rb = rotbuf_position rb'"
      using w assms(5) by (simp add: rotbuf_count_def)
    then show ?thesis
      using True w rotbuf_cursor [OF assms(1)] rotbuf_cursor [OF assms(2)] assms(3,4) by simp
  next
    case False
    then have "0 < unat (wrap rb)" "0 < unat (wrap rb')" using w by (simp_all add: unat_gt_0)
    then have "unat (wrap rb) = unat (wrap rb')"
      using False w assms(3,5) by (simp add: rotbuf_count_def)
    then have "wrap rb = wrap rb'" by (rule unsigned_word_eqI)
    then show ?thesis
      using False w assms by (simp add: rotbuf_wf_def)
  qed
  then show ?thesis using assms(3,4) by (cases rb; cases rb') simp
qed

lemma rotbuf_getc_spec:
  assumes "rotbuf_wf rb"
  shows "rotbuf_getc rb =
    Some (if rotbuf_count rb < ebuf rb then uint (rotbuf_linear rb ! rotbuf_count rb) else EOF,
          rotbuf_advance rb 1)"
proof (cases "wrap rb = 0")
  case True
  have "mem_read (buf rb) (cursor rb) 1 = Some [buf rb ! cursor rb]"
    using assms by (simp add: rotbuf_wf_def mem_read_def take_Suc hd_drop_conv_nth)
  then show ?thesis
    using True assms rotbuf_count_cases(1) [OF assms True] rotbuf_linear_nth [OF assms True]
      rotbuf_step_advance [OF assms True]
    by (simp add: rotbuf_getc_def)
next
  case False
  then show ?thesis
    using rotbuf_count_cases(2) [OF assms False] rotbuf_wrap_advance [OF False]
    by (simp add: rotbuf_getc_def)
qed

lemma rotbuf_putc_spec:
  assumes "rotbuf_wf rb"
  shows "\<exists>rb'. rotbuf_putc rb c = Some (rotbuf_advance rb' 1) \<and> rotbuf_wf rb' \<and> start rb' = start rb \<and>
    ebuf rb' = ebuf rb \<and> rotbuf_count rb' = rotbuf_count rb \<and>
    rotbuf_linear rb' = (rotbuf_linear rb)[rotbuf_count rb := c]"
proof (cases "wrap rb = 0")
  case True
  let ?rb = "rb\<lparr>buf := (buf rb)[cursor rb := c]\<rparr>"
  have lt: "cursor rb < ebuf rb" using assms by (simp add: rotbuf_wf_def)
  then have "mem_write (buf rb) (cursor rb) [c] = Some ((buf rb)[cursor rb := c])"
    by (simp add: mem_write_def upd_conv_take_nth_drop)
  then have put: "rotbuf_putc rb c = Some (rotbuf_step ?rb)"
    using True by (simp add: rotbuf_putc_def)
  have wf: "rotbuf_wf ?rb" using assms by (simp add: rotbuf_wf_def)
  have cnt: "rotbuf_count ?rb = rotbuf_count rb"
    by (simp add: rotbuf_count_def rotbuf_position_def)
  have "rotbuf_linear ?rb = (rotbuf_linear rb)[rotbuf_count rb := c]"
  proof (rule nth_equalityI)
    fix i
    assume "i < length (rotbuf_linear ?rb)"
    then have i: "i < ebuf rb" by simp
    let ?p = "rotbuf_position rb"
    have p: "?p < ebuf rb" "rotbuf_count rb = ?p" "cursor rb = (start rb + ?p) mod ebuf rb"
      using rotbuf_count_cases(1) [OF assms True] rotbuf_cursor [OF assms True] by simp_all
    have "(start rb + i) mod ebuf rb = cursor rb \<longleftrightarrow> i = ?p"
    proof
      assume "(start rb + i) mod ebuf rb = cursor rb"
      then show "i = ?p"
        using i p assms by (auto simp: rotbuf_wf_def mod_if split: if_splits)
    qed (simp add: p)
    then show "rotbuf_linear ?rb ! i = (rotbuf_linear rb)[rotbuf_count rb := c] ! i"
      using i p lt by (auto simp: rotbuf_linear_def nth_rotate nth_list_update)
  qed simp
  then show ?thesis
    using put wf cnt True rotbuf_step_advance [OF wf] by (intro exI [of _ ?rb]) simp
next
  case False
  then have "(rotbuf_linear rb)[rotbuf_count rb := c] = rotbuf_linear rb"
    using rotbuf_count_cases(2) [OF assms False] by (simp add: list_update_beyond)
  then show ?thesis
    using False assms rotbuf_wrap_advance [OF False] by (intro exI [of _ rb]) (simp add: rotbuf_putc_def)
qed


lemma rotbuf_advance_add:
  assumes "rotbuf_wf rb" "rotbuf_room rb (m + n)"
  shows "rotbuf_advance (rotbuf_advance rb m) n = rotbuf_advance rb (m + n)"
proof -
  have m: "rotbuf_room rb m" using assms(2) by (simp add: rotbuf_room_def)
  note a = rotbuf_advance_spec [OF assms(1) m]
  have n: "rotbuf_room (rotbuf_advance rb m) n"
    using assms(2) a by (simp add: rotbuf_room_def)
  note b = rotbuf_advance_spec [OF a(1) n] and c = rotbuf_advance_spec [OF assms]
  show ?thesis
    by (rule rotbuf_eqI) (simp_all add: a b c)
qed

lemma rotbuf_getbuf_spec:
  assumes "rotbuf_wf rb" "rotbuf_room rb n"
  shows "rotbuf_getbuf rb n = Some (take n (drop (rotbuf_count rb) (rotbuf_linear rb)) @
      replicate (n - (ebuf rb - rotbuf_count rb)) 0xFF, rotbuf_advance rb n)"
  using assms
proof (induction n arbitrary: rb)
  case (Suc n)
  have r: "rotbuf_room rb 1" "rotbuf_room rb (1 + n)" using Suc.prems(2) by (simp_all add: rotbuf_room_def)
  note a = rotbuf_advance_spec [OF Suc.prems(1) r(1)] rotbuf_advance_spec [OF Suc.prems(1) r(1), unfolded One_nat_def]
  let ?rb = "rotbuf_advance rb 1"
  have lin: "rotbuf_linear ?rb = rotbuf_linear rb" "ebuf ?rb = ebuf rb" by (simp_all add: rotbuf_linear_def a)
  have "rotbuf_room ?rb n" using Suc.prems(2) a by (simp add: rotbuf_room_def)
  note ih = Suc.IH [OF a(1) this]
  have step: "rotbuf_advance ?rb n = rotbuf_advance rb (Suc n)"
    using rotbuf_advance_add [OF Suc.prems(1) r(2)] by simp
  show ?case
  proof (cases "rotbuf_count rb < ebuf rb")
    case True
    then have "drop (rotbuf_count rb) (rotbuf_linear rb) =
        rotbuf_linear rb ! rotbuf_count rb # drop (Suc (rotbuf_count rb)) (rotbuf_linear rb)"
      by (simp add: Cons_nth_drop_Suc)
    then show ?thesis
      using True ih step lin a rotbuf_getc_spec [OF Suc.prems(1)] by (simp add: Suc_diff_Suc)
  next
    case False
    then show ?thesis
      using ih step lin a rotbuf_getc_spec [OF Suc.prems(1)] by (simp add: EOF_def)
  qed
qed simp

lemma rotbuf_putbuf_spec:
  assumes "rotbuf_wf rb" "rotbuf_room rb (length xs)"
  shows "\<exists>rb'. rotbuf_putbuf rb xs = Some rb' \<and> rotbuf_wf rb' \<and> start rb' = start rb \<and> ebuf rb' = ebuf rb \<and>
    rotbuf_count rb' = rotbuf_count rb + length xs \<and>
    rotbuf_linear rb' = take (ebuf rb) (take (rotbuf_count rb) (rotbuf_linear rb) @ xs @
      drop (rotbuf_count rb + length xs) (rotbuf_linear rb))"
  using assms
proof (induction xs arbitrary: rb)
  case (Cons c xs)
  obtain rb1 where put: "rotbuf_putc rb c = Some (rotbuf_advance rb1 1)" and
      rb1: "rotbuf_wf rb1" "start rb1 = start rb" "ebuf rb1 = ebuf rb" "rotbuf_count rb1 = rotbuf_count rb"
        "rotbuf_linear rb1 = (rotbuf_linear rb)[rotbuf_count rb := c]"
    using rotbuf_putc_spec [OF Cons.prems(1), of c] by blast
  have r: "rotbuf_room rb1 1" using Cons.prems(2) rb1 by (simp add: rotbuf_room_def)
  note a = rotbuf_advance_spec [OF rb1(1) r] rotbuf_advance_spec [OF rb1(1) r, unfolded One_nat_def]
  let ?rb = "rotbuf_advance rb1 1"
  have "rotbuf_room ?rb (length xs)" using Cons.prems(2) rb1 a by (simp add: rotbuf_room_def)
  then obtain rb' where rb': "rotbuf_putbuf ?rb xs = Some rb'" "rotbuf_wf rb'" "start rb' = start ?rb"
      "ebuf rb' = ebuf ?rb" "rotbuf_count rb' = rotbuf_count ?rb + length xs"
      "rotbuf_linear rb' = take (ebuf ?rb) (take (rotbuf_count ?rb) (rotbuf_linear ?rb) @ xs @
        drop (rotbuf_count ?rb + length xs) (rotbuf_linear ?rb))"
    using Cons.IH [OF a(1)] by blast
  have lin: "rotbuf_linear ?rb = (rotbuf_linear rb)[rotbuf_count rb := c]"
    using rb1 a by (simp add: rotbuf_linear_def)
  have "take (ebuf rb) (take (Suc (rotbuf_count rb)) ((rotbuf_linear rb)[rotbuf_count rb := c]) @ xs @
        drop (Suc (rotbuf_count rb) + length xs) ((rotbuf_linear rb)[rotbuf_count rb := c])) =
      take (ebuf rb) (take (rotbuf_count rb) (rotbuf_linear rb) @ (c # xs) @
        drop (rotbuf_count rb + length (c # xs)) (rotbuf_linear rb))"
  proof (cases "rotbuf_count rb < ebuf rb")
    case True
    then show ?thesis by (simp add: take_Suc_conv_app_nth drop_update_cancel)
  next
    case False
    then show ?thesis by (simp add: list_update_beyond)
  qed
  then show ?case
    using put rb' rb1 a lin by simp
qed simp


lemma rotbuf_init_spec:
  assumes "mem \<noteq> []"
  shows "\<exists>rb. rotbuf_init mem rot = Some rb \<and> rotbuf_wf rb \<and> buf rb = mem \<and>
    int (start rb) = rot mod int (length mem) \<and> rotbuf_count rb = 0"
proof -
  let ?n = "length mem"
  have n: "0 < ?n" using assms by simp
  have "int (?n - 1 - nat (- 1 - rot) mod ?n) = rot mod int ?n" if "rot < 0"
  proof -
    have lt: "nat (- 1 - rot) mod ?n < ?n" using n by simp
    have "int (nat (- 1 - rot) mod ?n) = (- 1 - rot) mod int ?n" using that by (simp add: zmod_int)
    also have "\<dots> = int ?n - 1 - rot mod int ?n"
    proof (rule int_mod_pos_eq)
      show "- 1 - rot = int ?n * (- (rot div int ?n) - 1) + (int ?n - 1 - rot mod int ?n)"
        using mult_div_mod_eq [of "int ?n" rot] by (simp add: algebra_simps)
    qed (use n pos_mod_bound [of "int ?n" rot] pos_mod_sign [of "int ?n" rot] in linarith)+
    finally show ?thesis using lt by linarith
  qed
  moreover have "int (nat rot mod ?n) = rot mod int ?n" if "\<not> rot < 0"
    using that by (simp add: zmod_int)
  moreover have "?n - 1 - nat (- 1 - rot) mod ?n < ?n" "nat rot mod ?n < ?n" using n by simp_all
  ultimately show ?thesis
    using assms by (simp add: rotbuf_init_def Let_def rotbuf_wf_def rotbuf_count_def rotbuf_position_def)
qed

section \<open>Properties\<close>

text \<open>
  (C16) Refinement. The rotated buffer behaves as a linear buffer with one position, the total number
  of advances: \<open>rotbuf_getc\<close> returns the byte at that position, or \<open>EOF\<close> at the end;
  \<open>rotbuf_putc\<close> replaces it, and leaves the content alone at the end; both add one to the count,
  and \<open>rotbuf_advance\<close> adds its argument. Nothing leaves the memory region.
\<close>

theorem rotbuf_refines_linear:
  assumes "rotbuf_wf rb" and "rotbuf_room rb n" and "0 < n"
  shows "(\<exists>rb'. rotbuf_getc rb = Some (if rotbuf_count rb < ebuf rb
        then uint (rotbuf_linear rb ! rotbuf_count rb) else EOF, rb') \<and>
      rotbuf_wf rb' \<and> rotbuf_linear rb' = rotbuf_linear rb \<and> rotbuf_count rb' = rotbuf_count rb + 1) \<and>
    (\<exists>rb'. rotbuf_putc rb c = Some rb' \<and> rotbuf_wf rb' \<and>
      rotbuf_linear rb' = (rotbuf_linear rb)[rotbuf_count rb := c] \<and> rotbuf_count rb' = rotbuf_count rb + 1) \<and>
    rotbuf_wf (rotbuf_advance rb n) \<and> rotbuf_linear (rotbuf_advance rb n) = rotbuf_linear rb \<and>
    rotbuf_count (rotbuf_advance rb n) = rotbuf_count rb + n"
proof (intro conjI)
  have r: "rotbuf_room rb 1" using assms(2,3) by (simp add: rotbuf_room_def)
  note a = rotbuf_advance_spec [OF assms(1) r] and an = rotbuf_advance_spec [OF assms(1,2)]
  show "\<exists>rb'. rotbuf_getc rb = Some (if rotbuf_count rb < ebuf rb
        then uint (rotbuf_linear rb ! rotbuf_count rb) else EOF, rb') \<and>
      rotbuf_wf rb' \<and> rotbuf_linear rb' = rotbuf_linear rb \<and> rotbuf_count rb' = rotbuf_count rb + 1"
    using a by (intro exI [of _ "rotbuf_advance rb 1"] conjI)
      (simp_all only: rotbuf_getc_spec [OF assms(1)] rotbuf_linear_def)
  obtain rb1 where rb1: "rotbuf_putc rb c = Some (rotbuf_advance rb1 1)" "rotbuf_wf rb1"
      "ebuf rb1 = ebuf rb" "rotbuf_count rb1 = rotbuf_count rb" "rotbuf_linear rb1 = (rotbuf_linear rb)[rotbuf_count rb := c]"
    using rotbuf_putc_spec [OF assms(1), of c] by blast
  have "rotbuf_room rb1 1" using r rb1 by (simp add: rotbuf_room_def)
  note b = rotbuf_advance_spec [OF rb1(2) this]
  show "\<exists>rb'. rotbuf_putc rb c = Some rb' \<and> rotbuf_wf rb' \<and>
      rotbuf_linear rb' = (rotbuf_linear rb)[rotbuf_count rb := c] \<and> rotbuf_count rb' = rotbuf_count rb + 1"
    using b rb1 by (intro exI [of _ "rotbuf_advance rb1 1"] conjI) (simp_all only: rotbuf_linear_def)
  show "rotbuf_wf (rotbuf_advance rb n)" "rotbuf_linear (rotbuf_advance rb n) = rotbuf_linear rb"
    "rotbuf_count (rotbuf_advance rb n) = rotbuf_count rb + n"
    using an by (simp_all add: rotbuf_linear_def)
qed

theorem rotbuf_refines_linear_witness:
  "\<exists>rb'. rotbuf_getc \<lparr>buf = [3, 1, 2], start = 1, cursor = 0, wrap = 0\<rparr> = Some (3, rb') \<and> rotbuf_count rb' = 3"
proof -
  let ?rb = "\<lparr>buf = [3, 1, 2], start = 1, cursor = 0, wrap = 0\<rparr>"
  have "rotbuf_wf ?rb" "rotbuf_room ?rb 1" "rotbuf_count ?rb = 2" "rotbuf_linear ?rb = [1, 2, 3]"
    by (simp_all add: rotbuf_wf_def rotbuf_room_def rotbuf_count_def rotbuf_position_def rotbuf_linear_def)
  with rotbuf_refines_linear [of ?rb 1 0] show ?thesis by auto
qed

text \<open>
  (C17) Round trip. Whatever the rotation, positive, negative or beyond the size, bytes put into a
  rotated buffer of sufficient size are got back in order after a reset.
\<close>

theorem rotbuf_roundtrip:
  assumes "mem \<noteq> []" and "length xs \<le> length mem"
  shows "\<exists>rb rb1 rb2. rotbuf_init mem rot = Some rb \<and> rotbuf_putbuf rb xs = Some rb1 \<and>
    rotbuf_getbuf (rotbuf_reset rb1) (length xs) = Some (xs, rb2) \<and> rotbuf_count rb2 = length xs \<and>
    rotbuf_remain rb2 = length mem - length xs"
proof -
  obtain rb where rb: "rotbuf_init mem rot = Some rb" "rotbuf_wf rb" "buf rb = mem" "rotbuf_count rb = 0"
    using rotbuf_init_spec [OF assms(1)] by blast
  have "rotbuf_room rb (length xs)" using rb assms by (simp add: rotbuf_room_def)
  then obtain rb1 where rb1: "rotbuf_putbuf rb xs = Some rb1" "rotbuf_wf rb1" "ebuf rb1 = length mem"
      "rotbuf_linear rb1 = take (ebuf rb) (xs @ drop (length xs) (rotbuf_linear rb))"
    using rotbuf_putbuf_spec [OF rb(2), of xs] rb(3,4) by auto
  let ?r = "rotbuf_reset rb1"
  have r: "rotbuf_wf ?r" "rotbuf_count ?r = 0" "rotbuf_linear ?r = rotbuf_linear rb1" "ebuf ?r = length mem"
    using rb1(2,3) by (simp_all add: rotbuf_reset_def rotbuf_wf_def rotbuf_count_def rotbuf_position_def rotbuf_linear_def)
  have room: "rotbuf_room ?r (length xs)" using r assms by (simp add: rotbuf_room_def)
  note get = rotbuf_getbuf_spec [OF r(1) room] and a = rotbuf_advance_spec [OF r(1) room]
  let ?rb2 = "rotbuf_advance ?r (length xs)"
  have "take (length xs) (rotbuf_linear rb1) = xs"
    using rb1(4) rb(3) assms(2) by simp
  then have "rotbuf_getbuf ?r (length xs) = Some (xs, ?rb2)"
    using get r assms(2) by simp
  moreover have "rotbuf_count ?rb2 = length xs" "rotbuf_wf ?rb2" "ebuf ?rb2 = length mem"
    using a r by simp_all
  moreover from this have "rotbuf_remain ?rb2 = length mem - length xs"
    using rotbuf_remain_position [of ?rb2] rotbuf_count_cases [of ?rb2] rotbuf_wrap_iff [of ?rb2] assms(2)
    by (cases "wrap ?rb2 = 0") (auto simp: rotbuf_remain_def [of ?rb2] rotbuf_position_def [of ?rb2])
  ultimately show ?thesis using rb rb1 by blast
qed

theorem rotbuf_roundtrip_witness:
  "\<exists>rb rb1 rb2. rotbuf_init [0, 0, 0] (- 7) = Some rb \<and> rotbuf_putbuf rb [5, 6] = Some rb1 \<and>
    rotbuf_getbuf (rotbuf_reset rb1) 2 = Some ([5, 6], rb2) \<and> rotbuf_count rb2 = 2 \<and> rotbuf_remain rb2 = 1"
  using rotbuf_roundtrip [of "[0, 0, 0]" "[5, 6]" "- 7"] by (simp add: numeral_2_eq_2)


text \<open>
  (C36) \<open>rotbuf_next_chunk\<close> walks the content in contiguous pieces: it returns 0 exactly at the end;
  otherwise the piece is not empty, lies in the region, holds the next bytes of the linear content,
  and the count advances by its length.
\<close>

theorem rotbuf_next_chunk_correct:
  assumes "rotbuf_wf rb"
  shows "(ebuf rb \<le> rotbuf_count rb \<longrightarrow> rotbuf_next_chunk rb = (None, rb)) \<and>
    (rotbuf_count rb < ebuf rb \<longrightarrow>
      (\<exists>p n. rotbuf_next_chunk rb = (Some (p, n), rotbuf_advance rb n) \<and> 0 < n \<and> p + n \<le> ebuf rb \<and>
        take n (drop p (buf rb)) = take n (drop (rotbuf_count rb) (rotbuf_linear rb)) \<and>
        rotbuf_count (rotbuf_advance rb n) = rotbuf_count rb + n \<and> rotbuf_count rb + n \<le> ebuf rb))"
proof (cases "wrap rb = 0")
  case True
  let ?b = "buf rb" and ?s = "start rb" and ?c = "cursor rb"
  have wf: "?s < length ?b" "?c < length ?b" using assms by (simp_all add: rotbuf_wf_def)
  have lin: "rotbuf_linear rb = drop ?s ?b @ take ?s ?b"
    using wf by (simp add: rotbuf_linear_def rotate_drop_take)
  have lt: "rotbuf_count rb < ebuf rb" using True rotbuf_wrap_iff [OF assms] by simp
  define n where "n = (if ?c \<ge> ?s then length ?b - ?c else ?s - ?c)"
  have n: "0 < n" "?c + n \<le> ebuf rb" using wf by (auto simp: n_def)
  have cnt: "rotbuf_count rb = (if ?c \<ge> ?s then ?c - ?s else ?c + (length ?b - ?s))"
    using True by (simp add: rotbuf_count_def rotbuf_position_def)
  then have fit: "rotbuf_count rb + n \<le> ebuf rb" using wf by (auto simp: n_def)
  then have room: "rotbuf_room rb n" using wf by (simp add: rotbuf_room_def)
  have chunk: "rotbuf_next_chunk rb = (Some (?c, n), rotbuf_advance rb n)"
    using True wf by (auto simp: n_def rotbuf_next_chunk_def rotbuf_advance_def Let_def)
  have content: "take n (drop ?c ?b) = take n (drop (rotbuf_count rb) (rotbuf_linear rb))"
    using wf by (auto simp: lin cnt n_def drop_take)
  show ?thesis
    using chunk content n fit lt rotbuf_advance_spec(4) [OF assms room] by (metis not_le)
next
  case False
  then show ?thesis
    using rotbuf_count_cases(2) [OF assms] by (simp add: rotbuf_next_chunk_def)
qed

theorem rotbuf_next_chunk_correct_witness:
  "\<exists>p n. rotbuf_next_chunk \<lparr>buf = [3, 1, 2], start = 1, cursor = 1, wrap = 0\<rparr> =
     (Some (p, n), rotbuf_advance \<lparr>buf = [3, 1, 2], start = 1, cursor = 1, wrap = 0\<rparr> n) \<and> 0 < n"
proof -
  let ?rb = "\<lparr>buf = [3, 1, 2], start = 1, cursor = 1, wrap = 0\<rparr>"
  have "rotbuf_wf ?rb" "rotbuf_count ?rb < ebuf ?rb"
    by (simp_all add: rotbuf_wf_def rotbuf_count_def rotbuf_position_def)
  from conjunct2 [OF rotbuf_next_chunk_correct [OF this(1)], THEN mp, OF this(2)] show ?thesis
    by (elim exE conjE) (intro exI conjI)
qed

text \<open>
  (C37) The wrap counter is 32 bits wide and the length of an advance is not: advancing a full
  buffer by the right length wraps the counter to 0, and the buffer looks untouched again, so that
  the next bytes put overwrite the first pass.
\<close>

theorem rotbuf_wrap_overflows:
  assumes "rotbuf_wf rb" and "wrap rb \<noteq> 0"
  shows "rotbuf_count (rotbuf_advance rb (2 ^ 32 - unat (wrap rb))) = 0 \<and>
    rotbuf_remain (rotbuf_advance rb (2 ^ 32 - unat (wrap rb))) = ebuf rb"
proof -
  have "unat (wrap rb) < 2 ^ 32" using unsigned_less [of "wrap rb"] by simp
  then have "wrap rb + of_nat (2 ^ 32 - unat (wrap rb)) = of_nat (2 ^ 32)"
    by (simp add: of_nat_diff)
  also have "\<dots> = (0 :: uint32)" by simp
  finally have "rotbuf_advance rb (2 ^ 32 - unat (wrap rb)) = rb\<lparr>wrap := 0\<rparr>"
    using assms(2) by (simp add: rotbuf_advance_def)
  then show ?thesis
    using assms by (simp add: rotbuf_count_def rotbuf_position_def rotbuf_remain_def rotbuf_wf_def)
qed

theorem rotbuf_wrap_overflows_witness:
  "rotbuf_count (rotbuf_advance \<lparr>buf = [3, 1, 2], start = 1, cursor = 1, wrap = 1\<rparr> (2 ^ 32 - 1)) = 0"
  using rotbuf_wrap_overflows [of "\<lparr>buf = [3, 1, 2], start = 1, cursor = 1, wrap = 1\<rparr>"]
  by (simp add: rotbuf_wf_def)

end
