(* ===== verification/Limit.thy ===== *)
theory Limit
  imports Serval_Prelude
begin

text \<open>
  The rate limiter of limit.c, which paces the packets of an interface. Times are the code's
  signed 64-bit milliseconds and its \<open>int\<close> counters as integers: the burst size is at most 5001, the
  burst length below \<open>2 ^ 32 / 1000\<close> milliseconds, \<open>sent\<close> at most the burst size, so that nothing
  overflows while the clock is that far from the end of its range. The time that \<open>gettime_ms()\<close>
  returns is an argument.
\<close>

section \<open>Operations\<close>

record limit_state =
  rate_micro_seconds :: uint32
  burst_length :: int
  burst_size :: int
  sent :: int
  next_interval :: int

definition MIN_BURST_LENGTH :: nat where
  "MIN_BURST_LENGTH = 5000"

definition update_limit_state :: "limit_state \<Rightarrow> int \<Rightarrow> limit_state" where
  "update_limit_state state now =
     (if next_interval state > now \<or> burst_size state = 0 then state
      else state\<lparr>next_interval :=
               (if next_interval state + burst_length state > now
                then next_interval state + burst_length state else now + burst_length state),
             sent := 0\<rparr>)"

definition limit_next_allowed :: "limit_state \<Rightarrow> int \<Rightarrow> int \<times> limit_state" where
  "limit_next_allowed state now =
     (if burst_size state = 0 then (now, state)
      else let state = update_limit_state state now
           in if sent state < burst_size state then (now, state) else (next_interval state, state))"

text \<open>The return value 0 is \<open>True\<close>, \<open>-1\<close> is \<open>False\<close>.\<close>

definition limit_is_allowed :: "limit_state \<Rightarrow> int \<Rightarrow> bool \<times> limit_state" where
  "limit_is_allowed state now =
     (if burst_size state = 0 then (True, state)
      else let state = update_limit_state state now
           in if sent state \<ge> burst_size state then (False, state)
              else (True, state\<lparr>sent := sent state + 1\<rparr>))"

text \<open>
  The burst length is a product of unsigned 32-bit integers, divided by the \<open>double\<close> 1000.0 and
  truncated to milliseconds; for a 32-bit dividend that is the integer quotient.
\<close>

definition limit_init :: "limit_state \<Rightarrow> uint32 \<Rightarrow> limit_state" where
  "limit_init state rate =
     (let state = state\<lparr>rate_micro_seconds := rate\<rparr>
      in if rate = 0 then state\<lparr>burst_size := 0, burst_length := 0\<rparr>
         else let size = of_nat MIN_BURST_LENGTH div rate + 1
              in state\<lparr>burst_size := uint size, burst_length := uint (size * rate) div 1000\<rparr>)"

section \<open>Initialisation\<close>

lemma limit_init_sizes:
  assumes "rate \<noteq> 0"
  shows "burst_size (limit_init state rate) = 5000 div uint rate + 1"
    "burst_length (limit_init state rate) = ((5000 div uint rate + 1) * uint rate) div 1000"
proof -
  have pos: "0 < uint rate" using assms by (simp add: word_neq_0_conv word_less_def)
  have rate: "uint rate < 2 ^ 32" using unsigned_less [of rate, where ?'a = int] by simp
  have "0 \<le> 5000 div uint rate" using pos by (simp add: pos_imp_zdiv_nonneg_iff)
  then have "5000 div uint rate * 1 \<le> 5000 div uint rate * uint rate"
    using pos by (intro mult_left_mono) auto
  then have q: "5000 div uint rate * uint rate \<le> 5000" "5000 div uint rate \<le> 5000" "0 \<le> 5000 div uint rate"
    using pos div_mult_mod_eq [of 5000 "uint rate"] pos_mod_sign [of "uint rate" 5000] \<open>0 \<le> _\<close>
    by linarith+
  have sz: "uint (of_nat MIN_BURST_LENGTH div rate + 1) = 5000 div uint rate + 1"
    using q pos by (simp add: MIN_BURST_LENGTH_def uint_word_ariths uint_div_distrib take_bit_int_eq_self)
  then show "burst_size (limit_init state rate) = 5000 div uint rate + 1"
    using assms by (simp add: limit_init_def Let_def)
  have "(5000 div uint rate + 1) * uint rate < 2 ^ 32"
  proof (cases "uint rate \<le> 5000")
    case True
    then show ?thesis using q by (simp add: distrib_right)
  next
    case False
    then have "5000 div uint rate = 0" by simp
    then show ?thesis using rate by simp
  qed
  moreover have "uint (w * rate) = (uint w * uint rate) mod 2 ^ 32" for w
    by (simp add: uint_word_ariths)
  ultimately have "uint ((of_nat MIN_BURST_LENGTH div rate + 1) * rate) = (5000 div uint rate + 1) * uint rate"
    using pos q by (simp add: sz)
  then show "burst_length (limit_init state rate) = ((5000 div uint rate + 1) * uint rate) div 1000"
    using assms by (simp add: limit_init_def Let_def)
qed


section \<open>Sequences of requests\<close>

text \<open>The number of requests allowed when they arrive at the given times.\<close>

fun limit_run :: "limit_state \<Rightarrow> int list \<Rightarrow> nat \<times> limit_state" where
  "limit_run state [] = (0, state)"
| "limit_run state (now # ts) =
     (let (ok, state) = limit_is_allowed state now; (n, state) = limit_run state ts
      in (if ok then n + 1 else n, state))"

definition limit_wf :: "limit_state \<Rightarrow> bool" where
  "limit_wf state \<longleftrightarrow> 0 \<le> sent state \<and> sent state \<le> burst_size state \<and> 0 < burst_length state \<and> 0 < burst_size state"

lemma update_limit_state_wf: "limit_wf state \<Longrightarrow> limit_wf (update_limit_state state now)"
  by (auto simp: limit_wf_def update_limit_state_def)

lemma limit_is_allowed_wf: "limit_wf state \<Longrightarrow> limit_wf (snd (limit_is_allowed state now))"
  using update_limit_state_wf [of state now] by (auto simp: limit_is_allowed_def Let_def limit_wf_def)

text \<open>
  The potential of a state: the requests made, plus what is left of the bursts up to the end of the
  interval, never exceeds the bursts begun.
\<close>

lemma limit_is_allowed_step:
  assumes "limit_wf state" "limit_is_allowed state now = (ok, state')" "now \<le> T"
  shows "\<exists>k. 0 \<le> k \<and> next_interval state + k * burst_length state \<le> next_interval state' \<and>
    next_interval state' \<le> max (next_interval state) (T + burst_length state) \<and>
    sent state + of_bool ok \<le> sent state' + k * burst_size state \<and>
    burst_length state' = burst_length state \<and> burst_size state' = burst_size state"
proof (cases "next_interval state > now")
  case True
  then show ?thesis
    using assms by (intro exI [of _ 0])
      (auto simp: limit_is_allowed_def update_limit_state_def Let_def limit_wf_def split: if_splits)
next
  case False
  then show ?thesis
    using assms by (intro exI [of _ 1])
      (auto simp: limit_is_allowed_def update_limit_state_def Let_def limit_wf_def split: if_splits)
qed

lemma limit_run_bound:
  assumes "limit_wf state" "limit_run state ts = (n, state')" "\<forall>t \<in> set ts. t \<le> T"
  shows "\<exists>k. 0 \<le> k \<and> next_interval state + k * burst_length state \<le> max (next_interval state) (T + burst_length state) \<and>
    sent state + int n \<le> (k + 1) * burst_size state"
proof -
  have "\<exists>k. 0 \<le> k \<and> next_interval state + k * burst_length state \<le> next_interval state' \<and>
      next_interval state' \<le> max (next_interval state) (T + burst_length state) \<and>
      sent state + int n \<le> sent state' + k * burst_size state \<and> limit_wf state' \<and> burst_size state' = burst_size state"
    using assms
  proof (induction ts arbitrary: state n)
    case (Cons t ts)
    obtain ok s1 where s1: "limit_is_allowed state t = (ok, s1)" by fastforce
    obtain m where m: "limit_run s1 ts = (m, state')" "n = (if ok then m + 1 else m)"
      using Cons.prems(2) s1 by (auto split: prod.splits)
    have wf1: "limit_wf s1" using limit_is_allowed_wf [OF Cons.prems(1), of t] s1 by simp
    obtain k where k: "0 \<le> k" "next_interval state + k * burst_length state \<le> next_interval s1"
        "next_interval s1 \<le> max (next_interval state) (T + burst_length state)"
        "sent state + of_bool ok \<le> sent s1 + k * burst_size state"
        "burst_length s1 = burst_length state" "burst_size s1 = burst_size state"
      using limit_is_allowed_step [OF Cons.prems(1) s1, of T] Cons.prems(3) by auto
    obtain l where l: "0 \<le> l" "next_interval s1 + l * burst_length s1 \<le> next_interval state'"
        "next_interval state' \<le> max (next_interval s1) (T + burst_length s1)"
        "sent s1 + int m \<le> sent state' + l * burst_size s1" "limit_wf state'" "burst_size state' = burst_size s1"
      using Cons.IH [OF wf1 m(1)] Cons.prems(3) by auto
    show ?case
      using k l m(2) by (intro exI [of _ "k + l"]) (auto simp: distrib_right)
  qed (auto intro!: exI [of _ 0])
  then obtain k where k: "0 \<le> k" "next_interval state + k * burst_length state \<le> next_interval state'"
      "next_interval state' \<le> max (next_interval state) (T + burst_length state)"
      "sent state + int n \<le> sent state' + k * burst_size state" "limit_wf state'" "burst_size state' = burst_size state"
    by blast
  then show ?thesis by (intro exI [of _ k]) (auto simp: limit_wf_def distrib_right)
qed

section \<open>Properties\<close>

text \<open>
  (C18) The rate bound. For any non-zero rate, a limiter whose interval ends at \<open>t0\<close> allows, of any
  requests up to time \<open>T\<close>, in whatever order they come, at most one burst if \<open>T\<close> is before \<open>t0\<close>, and
  otherwise at most one burst for every burst length started from \<open>t0\<close> to \<open>T\<close>, both included, and the
  burst already running.
\<close>

theorem limit_rate_bound:
  assumes "rate \<noteq> 0" and "\<forall>t \<in> set ts. t \<le> T" and "sent s = 0"
  shows "int (fst (limit_run (limit_init s rate) ts)) \<le>
    (if T < next_interval s then 1 else (T - next_interval s) div burst_length (limit_init s rate) + 2) *
      burst_size (limit_init s rate)"
proof -
  let ?s = "limit_init s rate"
  let ?B = "burst_size ?s" and ?L = "burst_length ?s"
  have same: "sent ?s = 0" "next_interval ?s = next_interval s"
    using assms(3) by (simp_all add: limit_init_def Let_def)
  have pos: "0 < uint rate" using assms(1) by (simp add: word_neq_0_conv word_less_def)
  have "5000 div uint rate * uint rate + 5000 mod uint rate = 5000" by (rule div_mult_mod_eq)
  then have "5000 \<le> (5000 div uint rate + 1) * uint rate"
    unfolding distrib_right using pos_mod_bound [OF pos, of 5000] by linarith
  then have L: "5 \<le> ?L"
    using limit_init_sizes(2) [OF assms(1), of s] by (simp add: zdiv_mono1 [of 5000 _ 1000, simplified])
  have B: "0 < ?B"
    using limit_init_sizes(1) [OF assms(1), of s] pos pos_imp_zdiv_nonneg_iff [OF pos, of 5000] by linarith
  have "limit_wf ?s" using L B same by (simp add: limit_wf_def)
  from limit_run_bound [OF this prod.collapse [symmetric] assms(2)] obtain k where
    k: "0 \<le> k" "next_interval s + k * ?L \<le> max (next_interval s) (T + ?L)"
      "int (fst (limit_run ?s ts)) \<le> (k + 1) * ?B"
    unfolding same by auto
  have "k \<le> (if T < next_interval s then 0 else (T - next_interval s) div ?L + 1)"
  proof (cases "T < next_interval s")
    case True
    then have "max (next_interval s) (T + ?L) < next_interval s + ?L" using L by linarith
    then have "k * ?L < 1 * ?L" using k(2) by linarith
    then have "k < 1" using L by (simp only: mult_less_cancel_right_pos)
    then show ?thesis using True by simp
  next
    case False
    then have "(k - 1) * ?L \<le> T - next_interval s" using k(2) L by (simp add: left_diff_distrib)
    then have "(k - 1) * ?L div ?L \<le> (T - next_interval s) div ?L" using L by (intro zdiv_mono1) auto
    then show ?thesis using False L by simp
  qed
  then have "(k + 1) * ?B \<le> (if T < next_interval s then 1 else (T - next_interval s) div ?L + 2) * ?B"
    using B by (intro mult_right_mono) (auto split: if_splits)
  then show ?thesis using k(3) by linarith
qed

theorem limit_rate_bound_witness:
  "\<exists>ts s. length ts = 35 \<and> (\<forall>t \<in> set ts. t \<le> 18) \<and> fst (limit_run (limit_init s 1000) ts) = 30 \<and>
     int (fst (limit_run (limit_init s 1000) ts)) \<le> 30"
proof -
  let ?s = "\<lparr>rate_micro_seconds = 0, burst_length = 0, burst_size = 0, sent = 0, next_interval = 0\<rparr>"
  let ?ts = "concat (map (replicate 7) [- 1, 0, 6, 12, 18])"
  have "burst_size (limit_init ?s 1000) = 6" "burst_length (limit_init ?s 1000) = 6"
    using limit_init_sizes [of 1000 ?s] by simp_all
  then have "int (fst (limit_run (limit_init ?s 1000) ?ts)) \<le> 30"
    using limit_rate_bound [of 1000 ?ts 18 ?s] by simp
  moreover have "length ?ts = 35 \<and> fst (limit_run (limit_init ?s 1000) ?ts) = 30" by code_simp
  ultimately show ?thesis by (intro exI [of _ ?ts] exI [of _ ?s]) auto
qed

text \<open>
  (C38) The announced time is right: a request made at the time \<open>limit_next_allowed\<close> returns, if that
  is not before now, is allowed, and until then a refused limiter keeps refusing.
\<close>

theorem limit_next_allowed_correct:
  assumes "limit_wf s" and "limit_next_allowed s now = (t, s')"
  shows "now \<le> t \<and> fst (limit_is_allowed s' t) \<and> (\<forall>u. now \<le> u \<and> u < t \<longrightarrow> \<not> fst (limit_is_allowed s' u))"
  using assms
  by (auto simp: limit_next_allowed_def limit_is_allowed_def update_limit_state_def Let_def limit_wf_def split: if_splits)

theorem limit_next_allowed_correct_witness:
  "fst (limit_is_allowed \<lparr>rate_micro_seconds = 1000, burst_length = 6, burst_size = 6, sent = 6, next_interval = 10\<rparr> 10)"
proof -
  let ?s = "\<lparr>rate_micro_seconds = 1000, burst_length = 6, burst_size = 6, sent = 6, next_interval = 10\<rparr>"
  have "limit_wf ?s" "limit_next_allowed ?s 5 = (10, ?s)"
    by (simp_all add: limit_wf_def limit_next_allowed_def update_limit_state_def)
  from limit_next_allowed_correct [OF this] show ?thesis by blast
qed

end
