(* ===== verification/Ctype.thy ===== *)
theory Ctype
  imports Serval_Prelude
begin

text \<open>
  Characters: the \<open>ctype.h\<close> predicates that the code uses, in the C locale, and the character class
  tables of str.c with the inline predicates of str.h. A C string is the list of its characters
  before the terminating NUL; a pointer into it is a suffix of the list and \<open>deref\<close> is what it
  points at. A table has 255 entries, so the lookup of the character 255 is out of bounds:
  \<open>ctype_read\<close> is \<open>None\<close> there.
\<close>

section \<open>The C library\<close>

definition deref :: "string \<Rightarrow> char" where
  "deref s = (case s of [] \<Rightarrow> CHR 0x00 | c # _ \<Rightarrow> c)"

lemma deref_simps [simp]: "deref [] = CHR 0x00" "deref (c # s) = c"
  by (simp_all add: deref_def)

definition digits :: string where
  "digits = ''0123456789''"

definition uppers :: string where
  "uppers = ''ABCDEFGHIJKLMNOPQRSTUVWXYZ''"

definition lowers :: string where
  "lowers = ''abcdefghijklmnopqrstuvwxyz''"

definition isdigit :: "char \<Rightarrow> bool" where
  "isdigit c \<longleftrightarrow> c \<in> set digits"

definition isxdigit :: "char \<Rightarrow> bool" where
  "isxdigit c \<longleftrightarrow> c \<in> set ''0123456789ABCDEFabcdef''"

definition isalpha :: "char \<Rightarrow> bool" where
  "isalpha c \<longleftrightarrow> c \<in> set uppers \<or> c \<in> set lowers"

definition isspace :: "char \<Rightarrow> bool" where
  "isspace c \<longleftrightarrow> c \<in> {CHR 0x20, CHR 0x09, CHR 0x0A, CHR 0x0B, CHR 0x0C, CHR 0x0D}"

definition iscntrl :: "char \<Rightarrow> bool" where
  "iscntrl c \<longleftrightarrow> (of_char c :: nat) < 32 \<or> c = CHR 0x7F"

definition isascii :: "char \<Rightarrow> bool" where
  "isascii c \<longleftrightarrow> (of_char c :: nat) < 128"

definition toupper :: "char \<Rightarrow> char" where
  "toupper c = (case map_of (zip lowers uppers) c of Some u \<Rightarrow> u | None \<Rightarrow> c)"

definition tolower :: "char \<Rightarrow> char" where
  "tolower c = (case map_of (zip uppers lowers) c of Some l \<Rightarrow> l | None \<Rightarrow> c)"

section \<open>The tables of str.c\<close>

definition B64 :: byte where "B64 = 0x40"
definition B64U :: byte where "B64U = 0x80"
definition SEP :: byte where "SEP = 0x10"
definition URI_SCHEME :: byte where "URI_SCHEME = 0x20"
definition URI_UNRES :: byte where "URI_UNRES = 0x40"
definition URI_RES :: byte where "URI_RES = 0x80"
definition BND :: byte where "BND = 0x01"

lemmas ctype_masks = B64_def B64U_def SEP_def URI_SCHEME_def URI_UNRES_def URI_RES_def BND_def

text \<open>A designated initialiser: the entries listed, zero elsewhere.\<close>

definition table_of :: "(char \<times> byte) list \<Rightarrow> char \<Rightarrow> byte" where
  "table_of entries c = (case map_of entries c of Some v \<Rightarrow> v | None \<Rightarrow> 0)"

definition serval_ctype_0 :: "char \<Rightarrow> byte" where
  "serval_ctype_0 = table_of
     (zip (uppers @ lowers @ digits) (map (\<lambda>n. B64 OR B64U OR of_nat n) [0..<62]) @
      [(CHR ''+'', B64 OR 62), (CHR ''/'', B64 OR 63), (CHR ''-'', B64U OR 62), (CHR ''_'', B64U OR 63)])"

definition serval_ctype_1 :: "char \<Rightarrow> byte" where
  "serval_ctype_1 = table_of
     (zip ''ABCDEF'' (map (\<lambda>n. URI_SCHEME OR URI_UNRES OR of_nat n) [10..<16]) @
      map (\<lambda>c. (c, URI_SCHEME OR URI_UNRES)) ''GHIJKLMNOPQRSTUVWXYZ'' @
      zip ''abcdef'' (map (\<lambda>n. URI_SCHEME OR URI_UNRES OR of_nat n) [10..<16]) @
      map (\<lambda>c. (c, URI_SCHEME OR URI_UNRES)) ''ghijklmnopqrstuvwxyz'' @
      zip digits (map (\<lambda>n. URI_SCHEME OR URI_UNRES OR of_nat n) [0..<10]) @
      [(CHR 0x09, SEP), (CHR '' '', SEP), (CHR ''_'', URI_UNRES), (CHR ''='', SEP OR URI_RES),
       (CHR ''<'', SEP), (CHR ''>'', SEP), (CHR '';'', SEP OR URI_RES), (CHR '':'', SEP OR URI_RES),
       (CHR 0x5C, SEP), (CHR 0x27, URI_RES), (CHR 0x22, SEP), (CHR ''/'', SEP OR URI_RES),
       (CHR ''['', SEP OR URI_RES), (CHR '']'', SEP OR URI_RES), (CHR ''{'', SEP), (CHR ''}'', SEP),
       (CHR ''('', SEP OR URI_RES), (CHR '')'', SEP OR URI_RES), (CHR '','', SEP OR URI_RES),
       (CHR ''.'', URI_SCHEME OR URI_UNRES), (CHR ''?'', SEP OR URI_RES), (CHR ''!'', URI_RES),
       (CHR ''+'', URI_SCHEME OR URI_RES), (CHR ''-'', URI_SCHEME OR URI_UNRES), (CHR ''*'', URI_RES),
       (CHR ''$'', URI_RES), (CHR ''&'', URI_RES), (CHR ''#'', URI_RES), (CHR ''@'', SEP OR URI_RES),
       (CHR ''~'', URI_UNRES)])"

definition serval_ctype_2 :: "char \<Rightarrow> byte" where
  "serval_ctype_2 = table_of (map (\<lambda>c. (c, BND)) (uppers @ lowers @ digits @ ''+/=-.:_(),? ''))"

definition ctype_read :: "(char \<Rightarrow> byte) \<Rightarrow> char \<Rightarrow> byte option" where
  "ctype_read tbl c = (if c = CHR 0xFF then None else Some (tbl c))"

section \<open>The predicates of str.h\<close>

definition is_base64_digit :: "char \<Rightarrow> bool option" where
  "is_base64_digit c = map_option (\<lambda>v. v AND B64 \<noteq> 0) (ctype_read serval_ctype_0 c)"

definition is_base64url_digit :: "char \<Rightarrow> bool option" where
  "is_base64url_digit c = map_option (\<lambda>v. v AND B64U \<noteq> 0) (ctype_read serval_ctype_0 c)"

definition is_base64_pad :: "char \<Rightarrow> bool" where
  "is_base64_pad c \<longleftrightarrow> c = CHR ''=''"

definition is_base64url_pad :: "char \<Rightarrow> bool" where
  "is_base64url_pad c \<longleftrightarrow> c = CHR ''=''"

definition base64_digit :: "char \<Rightarrow> byte option" where
  "base64_digit c = map_option (\<lambda>v. v AND 0x3f) (ctype_read serval_ctype_0 c)"

definition base64url_digit :: "char \<Rightarrow> byte option" where
  "base64url_digit c = map_option (\<lambda>v. v AND 0x3f) (ctype_read serval_ctype_0 c)"

definition is_multipart_boundary :: "char \<Rightarrow> bool option" where
  "is_multipart_boundary c = map_option (\<lambda>v. v AND BND \<noteq> 0) (ctype_read serval_ctype_2 c)"

fun is_multipart_boundary_chars :: "string \<Rightarrow> bool option" where
  "is_multipart_boundary_chars [] = Some True"
| "is_multipart_boundary_chars (c # s) = do {
     b \<leftarrow> is_multipart_boundary c;
     if \<not> b then Some False else is_multipart_boundary_chars s
   }"

definition is_valid_multipart_boundary_string :: "string \<Rightarrow> bool option" where
  "is_valid_multipart_boundary_string s =
     (if s = [] then Some False
      else do {
        b \<leftarrow> is_multipart_boundary_chars s;
        Some (b \<and> last s \<noteq> CHR '' '')
      })"

definition is_http_separator :: "char \<Rightarrow> bool option" where
  "is_http_separator c = map_option (\<lambda>v. v AND SEP \<noteq> 0) (ctype_read serval_ctype_1 c)"

definition is_http_token :: "char \<Rightarrow> bool option" where
  "is_http_token c =
     (if isascii c \<and> \<not> iscntrl c then map_option Not (is_http_separator c) else Some False)"

definition is_uri_char_scheme :: "char \<Rightarrow> bool option" where
  "is_uri_char_scheme c = map_option (\<lambda>v. v AND URI_SCHEME \<noteq> 0) (ctype_read serval_ctype_1 c)"

definition is_uri_char_unreserved :: "char \<Rightarrow> bool option" where
  "is_uri_char_unreserved c = map_option (\<lambda>v. v AND URI_UNRES \<noteq> 0) (ctype_read serval_ctype_1 c)"

definition is_uri_char_reserved :: "char \<Rightarrow> bool option" where
  "is_uri_char_reserved c = map_option (\<lambda>v. v AND URI_RES \<noteq> 0) (ctype_read serval_ctype_1 c)"

text \<open>\<open>hexvalue\<close> reads the table only at hexadecimal digits.\<close>

definition hexvalue :: "char \<Rightarrow> int" where
  "hexvalue c = (if isxdigit c then uint (serval_ctype_1 c AND 0xf) else - 1)"

lemma serval_ctype_1_hex:
  "map (\<lambda>c. serval_ctype_1 c AND 0xf) ''0123456789ABCDEFabcdef'' =
     [0, 1, 2, 3, 4, 5, 6, 7, 8, 9, 10, 11, 12, 13, 14, 15, 10, 11, 12, 13, 14, 15]"
  unfolding serval_ctype_1_def table_of_def
  by (simp add: ctype_masks digits_def upt_conv_Cons cong: option.case_cong_weak)

lemma hexvalue_digits:
  "map hexvalue ''0123456789ABCDEFabcdef'' = [0, 1, 2, 3, 4, 5, 6, 7, 8, 9, 10, 11, 12, 13, 14, 15, 10, 11, 12, 13, 14, 15]"
proof -
  have "map hexvalue cs = map uint (map (\<lambda>c. serval_ctype_1 c AND 0xf) cs)" if "\<forall>c \<in> set cs. isxdigit c" for cs
    using that by (simp add: hexvalue_def)
  from this [of "''0123456789ABCDEFabcdef''"] have
    "map hexvalue ''0123456789ABCDEFabcdef'' = map uint (map (\<lambda>c. serval_ctype_1 c AND 0xf) ''0123456789ABCDEFabcdef'')"
    by (simp only: isxdigit_def Ball_def simp_thms)
  then show ?thesis
    unfolding serval_ctype_1_hex by (rule trans) simp
qed

end
