(* ===== verification/Str.thy ===== *)
theory Str
  imports Ctype "HOL-Library.Sublist"
begin

text \<open>
  The string primitives of str.c and str.h: hexadecimal conversion, prefixes, searches, comparison
  and splitting. Where C stores through an \<open>afterp\<close> pointer, the model returns the rest of the
  string; a result that is stored in a buffer is returned as the list of what is stored.
\<close>

section \<open>Hexadecimal\<close>

definition hexdigit_upper :: string where
  "hexdigit_upper = ''0123456789ABCDEF''"

definition hexdigit_lower :: string where
  "hexdigit_lower = ''0123456789abcdef''"

text \<open>\<open>tohex\<close>: the source pointer moves on after every second digit; the terminating NUL is implicit.\<close>

fun tohex_loop :: "nat \<Rightarrow> nat \<Rightarrow> byte list \<Rightarrow> string option" where
  "tohex_loop 0 i src = Some []"
| "tohex_loop (Suc n) i src =
     (case src of
        [] \<Rightarrow> None
      | b # rest \<Rightarrow>
          if odd i then map_option ((#) (hexdigit_upper ! unat (b AND 0xf))) (tohex_loop n (i + 1) rest)
          else map_option ((#) (hexdigit_upper ! unat (drop_bit 4 b))) (tohex_loop n (i + 1) src))"

definition tohex :: "nat \<Rightarrow> byte list \<Rightarrow> string option" where
  "tohex dstStrLen srcBinary = tohex_loop dstStrLen 0 srcBinary"

text \<open>
  \<open>strn_fromhex\<close>: the bytes decoded and the rest of the source; \<open>dstsiz\<close> is the size of the
  destination, \<open>-1\<close> for no limit. The characters are read up to the terminating NUL, which is not a
  digit.
\<close>

fun strn_fromhex_loop :: "int \<Rightarrow> nat \<Rightarrow> string \<Rightarrow> byte list \<times> string" where
  "strn_fromhex_loop dstsiz n (c0 # c1 # s) =
     (if dstsiz = - 1 \<or> int n < dstsiz
      then if hexvalue c0 = - 1 then ([], c0 # c1 # s)
           else if hexvalue c1 = - 1 then ([], c0 # c1 # s)
           else let (bs, after) = strn_fromhex_loop dstsiz (n + 1) s
                in (word_of_int (hexvalue c0 * 16 + hexvalue c1) # bs, after)
      else ([], c0 # c1 # s))"
| "strn_fromhex_loop dstsiz n s = ([], s)"

definition strn_fromhex :: "int \<Rightarrow> string \<Rightarrow> byte list \<times> string" where
  "strn_fromhex dstsiz srcHex = strn_fromhex_loop dstsiz 0 srcHex"

definition fromhex :: "string \<Rightarrow> nat \<Rightarrow> byte list option" where
  "fromhex srcHex nbinary =
     (let (bs, _) = strn_fromhex (int nbinary) srcHex in if length bs = nbinary then Some bs else None)"

definition fromhexstr :: "string \<Rightarrow> nat \<Rightarrow> byte list option" where
  "fromhexstr srcHex nbinary =
     (let (bs, p) = strn_fromhex (int nbinary) srcHex
      in if length bs = nbinary \<and> deref p = CHR 0x00 then Some bs else None)"

fun is_xsubstring :: "string \<Rightarrow> nat \<Rightarrow> bool" where
  "is_xsubstring text 0 = True"
| "is_xsubstring text (Suc len) = (isxdigit (deref text) \<and> is_xsubstring (tl text) len)"

fun is_xstring :: "string \<Rightarrow> nat \<Rightarrow> bool" where
  "is_xstring text 0 = (deref text = CHR 0x00)"
| "is_xstring text (Suc len) = (isxdigit (deref text) \<and> is_xstring (tl text) len)"

section \<open>Buffers and strings\<close>

fun is_all_matching :: "byte list \<Rightarrow> nat \<Rightarrow> byte \<Rightarrow> bool option" where
  "is_all_matching ptr 0 v = Some True"
| "is_all_matching [] (Suc len) v = None"
| "is_all_matching (b # ptr) (Suc len) v = (if b \<noteq> v then Some False else is_all_matching ptr len v)"

definition str_toupper_inplace :: "string \<Rightarrow> string" where
  "str_toupper_inplace s = map toupper s"

definition str_tolower_inplace :: "string \<Rightarrow> string" where
  "str_tolower_inplace s = map tolower s"

fun strnchr :: "string \<Rightarrow> nat \<Rightarrow> char \<Rightarrow> string option" where
  "strnchr s 0 c = None"
| "strnchr s (Suc n) c =
     (if deref s = c then Some s else if deref s = CHR 0x00 then None else strnchr (tl s) n c)"

fun str_startswith :: "string \<Rightarrow> string \<Rightarrow> string option" where
  "str_startswith s [] = Some s"
| "str_startswith s (c # sub) = (if c = deref s then str_startswith (tl s) sub else None)"

text \<open>\<open>len\<close> counts down from \<open>-1\<close> without ever being 0, so \<open>-1\<close> is no limit.\<close>

fun strn_startswith :: "string \<Rightarrow> int \<Rightarrow> string \<Rightarrow> string option" where
  "strn_startswith s len [] = Some s"
| "strn_startswith s len (c # sub) =
     (if len \<noteq> 0 \<and> c = deref s then strn_startswith (tl s) (len - 1) sub else None)"

fun strcase_startswith :: "string \<Rightarrow> string \<Rightarrow> string option" where
  "strcase_startswith s [] = Some s"
| "strcase_startswith s (c # sub) =
     (if s \<noteq> [] \<and> toupper c = toupper (deref s) then strcase_startswith (tl s) sub else None)"

fun strncase_startswith :: "string \<Rightarrow> nat \<Rightarrow> string \<Rightarrow> string option" where
  "strncase_startswith s len [] = Some s"
| "strncase_startswith s len (c # sub) =
     (if len \<noteq> 0 \<and> toupper c = toupper (deref s) then strncase_startswith (tl s) (len - 1) sub else None)"

text \<open>
  \<open>parse_argv\<close>: the arguments, each up to the delimiter that the code overwrites with NUL; at most
  \<open>max_argv\<close> of them. The state is the count of arguments so far; the strings are cut at the end.
\<close>

fun parse_argv_loop :: "string \<Rightarrow> char \<Rightarrow> nat \<Rightarrow> string list \<Rightarrow> string list" where
  "parse_argv_loop [] delim max_argv argv = argv"
| "parse_argv_loop (c # s) delim max_argv argv =
     (if c = delim \<and> s \<noteq> [] \<and> length argv < max_argv
      then parse_argv_loop s delim max_argv (argv @ [takeWhile (\<lambda>c. c \<noteq> delim) s])
      else parse_argv_loop s delim max_argv argv)"

definition parse_argv :: "string \<Rightarrow> char \<Rightarrow> nat \<Rightarrow> string list" where
  "parse_argv cmdline delim max_argv =
     parse_argv_loop cmdline delim max_argv
       (if cmdline \<noteq> [] \<and> 0 < max_argv then [takeWhile (\<lambda>c. c \<noteq> delim) cmdline] else [])"

text \<open>\<open>strncmp(haystack, needle, needle_len) == 0\<close> for a needle of that length is a prefix test.\<close>

function str_str_loop :: "string \<Rightarrow> string \<Rightarrow> nat \<Rightarrow> string option" where
  "str_str_loop haystack needle haystack_len =
     (if haystack \<noteq> [] \<and> haystack_len \<ge> length needle \<and> needle \<noteq> []
      then if prefix needle haystack then Some haystack
           else str_str_loop (tl haystack) needle (haystack_len - 1)
      else None)"
  by pat_completeness auto
termination
  by (relation "measure (\<lambda>(h, n, l). length h)") auto

declare str_str_loop.simps [simp del]

definition str_str :: "string \<Rightarrow> string \<Rightarrow> nat \<Rightarrow> string option" where
  "str_str haystack needle haystack_len =
     (if length needle = 0 then Some haystack
      else if haystack_len \<ge> length needle then str_str_loop haystack needle haystack_len else None)"

section \<open>Lemmas on digits\<close>

lemma hexvalue_upper: "n < 16 \<Longrightarrow> hexvalue (hexdigit_upper ! n) = int n"
proof -
  have "map hexvalue hexdigit_upper = map int [0..<16]"
    using hexvalue_digits by (simp add: hexdigit_upper_def upt_conv_Cons)
  then show "n < 16 \<Longrightarrow> ?thesis"
    by (metis add_0 diff_zero length_map length_upt nth_map nth_upt)
qed

lemma isxdigit_mem: "isxdigit c \<longleftrightarrow> c \<in> set ''0123456789ABCDEFabcdef''"
  by (simp only: isxdigit_def)

lemma hexvalue_lower: "n < 16 \<Longrightarrow> hexvalue (hexdigit_lower ! n) = int n"
proof -
  have "map hexvalue hexdigit_lower = map int [0..<16]"
    using hexvalue_digits by (simp add: hexdigit_lower_def upt_conv_Cons)
  then show "n < 16 \<Longrightarrow> ?thesis"
    by (metis add_0 diff_zero length_map length_upt nth_map nth_upt)
qed

lemma hexvalue_range:
  assumes "isxdigit c"
  shows "0 \<le> hexvalue c" "hexvalue c < 16"
proof -
  have "hexvalue c \<in> set (map hexvalue ''0123456789ABCDEFabcdef'')"
    using assms unfolding isxdigit_mem set_map by (rule imageI)
  then show "0 \<le> hexvalue c" "hexvalue c < 16"
    unfolding hexvalue_digits by auto
qed

lemma hexvalue_minus_1: "hexvalue c = - 1 \<longleftrightarrow> \<not> isxdigit c"
proof (cases "isxdigit c")
  case True
  then show ?thesis using hexvalue_range(1) [OF True] by simp
qed (simp add: hexvalue_def)

lemma not_isxdigit_NUL [simp]: "\<not> isxdigit (CHR 0x00)"
  by (simp add: isxdigit_def)

lemma toupper_hex: "isxdigit c \<Longrightarrow> toupper c = hexdigit_upper ! nat (hexvalue c)"
proof -
  have "map toupper ''0123456789ABCDEFabcdef'' =
      map (\<lambda>v. hexdigit_upper ! nat v) (map hexvalue ''0123456789ABCDEFabcdef'')"
    unfolding hexvalue_digits by (simp add: toupper_def lowers_def uppers_def hexdigit_upper_def)
  then have "\<forall>c \<in> set ''0123456789ABCDEFabcdef''. toupper c = hexdigit_upper ! nat (hexvalue c)"
    unfolding map_map map_eq_conv by (simp only: o_def)
  then show "isxdigit c \<Longrightarrow> ?thesis"
    unfolding isxdigit_mem by blast
qed

lemma toupper_isxdigit: "toupper c \<in> set hexdigit_upper \<Longrightarrow> isxdigit c"
proof (cases "map_of (zip lowers uppers) c")
  case None
  moreover assume "toupper c \<in> set hexdigit_upper"
  ultimately show ?thesis
    by (auto simp: toupper_def hexdigit_upper_def isxdigit_def)
next
  case (Some u)
  moreover assume "toupper c \<in> set hexdigit_upper"
  ultimately have "(c, u) \<in> set (filter (\<lambda>p. snd p \<in> set hexdigit_upper) (zip lowers uppers))"
    by (simp add: toupper_def map_of_SomeD)
  then show ?thesis
    by (auto simp: lowers_def uppers_def hexdigit_upper_def isxdigit_def simp del: set_filter)
qed

lemma hexdigit_upper_inj: "m < 16 \<Longrightarrow> n < 16 \<Longrightarrow> hexdigit_upper ! m = hexdigit_upper ! n \<longleftrightarrow> m = n"
  by (metis hexvalue_upper of_nat_eq_iff)

lemma hexdigit_upper_mem [simp]: "n < 16 \<Longrightarrow> hexdigit_upper ! n \<in> set hexdigit_upper"
  by (rule nth_mem) (simp add: hexdigit_upper_def)

lemma nibbles:
  fixes b :: byte
  shows "unat (drop_bit 4 b) < 16" "unat (b AND 0xf) < 16"
    "word_of_int (int (unat (drop_bit 4 b)) * 16 + int (unat (b AND 0xf))) = b"
    "0 \<le> h \<Longrightarrow> h < 16 \<Longrightarrow> 0 \<le> l \<Longrightarrow> l < 16 \<Longrightarrow> word_of_int (h * 16 + l) = b \<longleftrightarrow>
      h = int (unat (drop_bit 4 b)) \<and> l = int (unat (b AND 0xf))"
proof -
  have m: "b AND 0xf = take_bit 4 b" by (simp add: take_bit_eq_mask mask_eq_exp_minus_1)
  have u: "uint (drop_bit 4 b) = uint b div 16" "uint (b AND 0xf) = uint b mod 16"
    unfolding m by (simp_all add: unsigned_drop_bit_eq unsigned_take_bit_eq drop_bit_eq_div take_bit_eq_mod
        uint_div_distrib uint_mod_distrib)
  have b: "0 \<le> uint b" "uint b < 256" using unsigned_less [of b, where ?'a = int] by simp_all
  have nat: "int (unat w) = uint w" for w :: byte by simp
  show "unat (drop_bit 4 b) < 16" "unat (b AND 0xf) < 16"
    using u b nat [of "drop_bit 4 b"] nat [of "b AND 0xf"] by linarith+
  have "uint b div 16 * 16 + uint b mod 16 = uint b" by (rule div_mult_mod_eq)
  then show "word_of_int (int (unat (drop_bit 4 b)) * 16 + int (unat (b AND 0xf))) = b"
    unfolding nat u by simp
  assume h: "0 \<le> h" "h < 16" "0 \<le> l" "l < 16"
  have eq: "word_of_int x = b \<longleftrightarrow> x = uint b" if "0 \<le> x" "x < 256" for x
    using that by (auto simp: uint_word_of_int_eq take_bit_int_eq_self)
  have "word_of_int (h * 16 + l) = b \<longleftrightarrow> h * 16 + l = uint b"
    by (rule eq) (use h in linarith)+
  also have "\<dots> \<longleftrightarrow> h = uint b div 16 \<and> l = uint b mod 16"
  proof -
    have "(h * 16 + l) div 16 = h" "(h * 16 + l) mod 16 = l" using h by simp_all
    then show ?thesis by (metis div_mult_mod_eq)
  qed
  finally show "word_of_int (h * 16 + l) = b \<longleftrightarrow>
      h = int (unat (drop_bit 4 b)) \<and> l = int (unat (b AND 0xf))"
    unfolding nat u .
qed


lemma strn_fromhex_length: "0 \<le> dstsiz \<Longrightarrow> int (length (fst (strn_fromhex_loop dstsiz n s))) \<le> max 0 (dstsiz - int n)"
  by (induction dstsiz n s rule: strn_fromhex_loop.induct) (auto split: prod.splits)

text \<open>The hexadecimal representation: two upper case digits for every byte.\<close>

definition hex_of :: "byte list \<Rightarrow> string" where
  "hex_of bs = concat (map (\<lambda>b. [hexdigit_upper ! unat (drop_bit 4 b), hexdigit_upper ! unat (b AND 0xf)]) bs)"

lemma hex_of_simps [simp]:
  "hex_of [] = []"
  "hex_of (b # bs) = hexdigit_upper ! unat (drop_bit 4 b) # hexdigit_upper ! unat (b AND 0xf) # hex_of bs"
  by (simp_all add: hex_of_def)

lemma hex_of_length [simp]: "length (hex_of bs) = 2 * length bs"
  by (induction bs) simp_all

lemma tohex_hex_of: "even i \<Longrightarrow> tohex_loop (2 * length bs) i bs = Some (hex_of bs)"
  by (induction bs arbitrary: i) simp_all

lemma fromhex_step:
  "map toupper [c0, c1] = hex_of [b] \<longleftrightarrow>
   isxdigit c0 \<and> isxdigit c1 \<and> word_of_int (hexvalue c0 * 16 + hexvalue c1) = b"
proof
  assume "map toupper [c0, c1] = hex_of [b]"
  then have u: "toupper c0 = hexdigit_upper ! unat (drop_bit 4 b)" "toupper c1 = hexdigit_upper ! unat (b AND 0xf)"
    by simp_all
  then have x: "isxdigit c0" "isxdigit c1"
    using nibbles(1,2) [of b] toupper_isxdigit by simp_all
  have "nat (hexvalue c0) = unat (drop_bit 4 b)" "nat (hexvalue c1) = unat (b AND 0xf)"
    using u toupper_hex [OF x(1)] toupper_hex [OF x(2)] hexvalue_range [OF x(1)] hexvalue_range [OF x(2)]
      nibbles(1,2) [of b] by (simp_all flip: hexdigit_upper_inj)
  then have "hexvalue c0 = int (unat (drop_bit 4 b))" "hexvalue c1 = int (unat (b AND 0xf))"
    using hexvalue_range [OF x(1)] hexvalue_range [OF x(2)] by linarith+
  then show "isxdigit c0 \<and> isxdigit c1 \<and> word_of_int (hexvalue c0 * 16 + hexvalue c1) = b"
    using x nibbles(3) [of b] by (simp only: simp_thms)
next
  assume x: "isxdigit c0 \<and> isxdigit c1 \<and> word_of_int (hexvalue c0 * 16 + hexvalue c1) = b"
  then have "hexvalue c0 = int (unat (drop_bit 4 b)) \<and> hexvalue c1 = int (unat (b AND 0xf))"
    using nibbles(4) [of "hexvalue c0" "hexvalue c1" b] hexvalue_range [of c0] hexvalue_range [of c1] by blast
  then show "map toupper [c0, c1] = hex_of [b]"
    using x toupper_hex by simp
qed

lemma strn_fromhex_loop_sound:
  "strn_fromhex_loop (int n) k s = (bs, after) \<Longrightarrow> k \<le> n \<Longrightarrow>
   (\<exists>t. s = t @ after \<and> map toupper t = hex_of bs) \<and> length bs \<le> n - k"
proof (induction "int n" k s arbitrary: bs rule: strn_fromhex_loop.induct)
  case (1 k c0 c1 s)
  show ?case
  proof (cases "k < n \<and> isxdigit c0 \<and> isxdigit c1")
    case True
    then obtain bs' where bs': "strn_fromhex_loop (int n) (k + 1) s = (bs', after)"
        "bs = word_of_int (hexvalue c0 * 16 + hexvalue c1) # bs'"
      using 1(2) by (auto simp: hexvalue_minus_1 split: prod.splits)
    with True have "(\<exists>t. s = t @ after \<and> map toupper t = hex_of bs') \<and> length bs' \<le> n - (k + 1)"
      using 1(1) by (simp add: hexvalue_minus_1)
    then obtain t where t: "s = t @ after" "map toupper t = hex_of bs'" "length bs' \<le> n - (k + 1)" by blast
    have "map toupper [c0, c1] = hex_of [word_of_int (hexvalue c0 * 16 + hexvalue c1)]"
      using True fromhex_step by blast
    then have "map toupper (c0 # c1 # t) = hex_of bs"
      using t bs' by simp
    then show ?thesis using t bs' True by (intro conjI exI [of _ "c0 # c1 # t"]) auto
  next
    case False
    then show ?thesis using 1(2,3) by (auto simp: hexvalue_minus_1 split: if_splits)
  qed
qed auto

lemma strn_fromhex_loop_complete:
  "map toupper t = hex_of bs \<Longrightarrow> length bs = n - k \<Longrightarrow> k \<le> n \<Longrightarrow>
   strn_fromhex_loop (int n) k (t @ u) = (bs, u)"
proof (induction bs arbitrary: t k)
  case Nil
  then show ?case by (cases "(int n, k, u)" rule: strn_fromhex_loop.cases) simp_all
next
  case (Cons b bs)
  then obtain c0 c1 t' where t: "t = c0 # c1 # t'" "map toupper t' = hex_of bs"
      "map toupper [c0, c1] = hex_of [b]"
    by (auto simp: Cons_eq_map_conv map_eq_Cons_conv)
  have "isxdigit c0 \<and> isxdigit c1 \<and> word_of_int (hexvalue c0 * 16 + hexvalue c1) = b"
    using t(3) fromhex_step by blast
  moreover have "strn_fromhex_loop (int n) (k + 1) (t' @ u) = (bs, u)"
    using Cons.IH [OF t(2), of "k + 1"] Cons.prems(2,3) by simp
  ultimately show ?case
    using Cons.prems(2) by (simp add: t(1) hexvalue_minus_1)
qed

lemma fromhex_eq_Some:
  "fromhex s n = Some bs \<longleftrightarrow> length bs = n \<and> (\<exists>t u. s = t @ u \<and> map toupper t = hex_of bs)"
proof
  assume "fromhex s n = Some bs"
  then obtain after where "strn_fromhex_loop (int n) 0 s = (bs, after)" "length bs = n"
    by (auto simp: fromhex_def strn_fromhex_def split: prod.splits if_splits)
  then show "length bs = n \<and> (\<exists>t u. s = t @ u \<and> map toupper t = hex_of bs)"
    using strn_fromhex_loop_sound [of n 0 s bs after] by auto
next
  assume "length bs = n \<and> (\<exists>t u. s = t @ u \<and> map toupper t = hex_of bs)"
  then show "fromhex s n = Some bs"
    using strn_fromhex_loop_complete [of _ bs n 0] by (auto simp: fromhex_def strn_fromhex_def)
qed

section \<open>Properties\<close>

text \<open>
  (C13) Hexadecimal round trip, both ways. \<open>tohex\<close> writes every byte string in upper case;
  \<open>fromhexstr\<close> accepts, for a size, exactly the strings that are that representation up to case, and
  \<open>fromhex\<close> exactly the strings that begin with it, whatever follows; both return the bytes represented.
\<close>

theorem hex_roundtrip:
  assumes "CHR 0x00 \<notin> set s"
  shows "tohex (2 * length bs) bs = Some (hex_of bs) \<and>
    (fromhexstr s n = Some bs \<longleftrightarrow> map toupper s = hex_of bs \<and> length bs = n) \<and>
    (fromhex s n = Some bs \<longleftrightarrow> (\<exists>t u. s = t @ u \<and> map toupper t = hex_of bs) \<and> length bs = n)"
proof (intro conjI)
  show "fromhex s n = Some bs \<longleftrightarrow> (\<exists>t u. s = t @ u \<and> map toupper t = hex_of bs) \<and> length bs = n"
    unfolding fromhex_eq_Some by blast
  show "tohex (2 * length bs) bs = Some (hex_of bs)"
    by (simp add: tohex_def tohex_hex_of)
  show "fromhexstr s n = Some bs \<longleftrightarrow> map toupper s = hex_of bs \<and> length bs = n"
  proof
    assume "fromhexstr s n = Some bs"
    then obtain p where p: "strn_fromhex_loop (int n) 0 s = (bs, p)" "length bs = n" "deref p = CHR 0x00"
      by (auto simp: fromhexstr_def strn_fromhex_def split: prod.splits if_splits)
    then obtain t where t: "s = t @ p" "map toupper t = hex_of bs"
      using strn_fromhex_loop_sound [OF p(1)] by auto
    moreover have "p = []" using p(3) t(1) assms by (cases p) auto
    ultimately show "map toupper s = hex_of bs \<and> length bs = n" using p(2) by simp
  next
    assume "map toupper s = hex_of bs \<and> length bs = n"
    then show "fromhexstr s n = Some bs"
      using strn_fromhex_loop_complete [of s bs n 0 "[]"] by (simp add: fromhexstr_def strn_fromhex_def)
  qed
qed

theorem hex_roundtrip_witness:
  "tohex 4 [0xAB, 0x0C] = Some ''AB0C'' \<and> fromhexstr ''aB0c'' 2 = Some [0xAB, 0x0C] \<and> fromhex ''aB0cz'' 2 = Some [0xAB, 0x0C]"
proof -
  have h: "hex_of [0xAB, 0x0C] = ''AB0C''" "map toupper ''aB0c'' = ''AB0C''"
    by (simp_all add: hexdigit_upper_def toupper_def lowers_def uppers_def)
  have "\<exists>t u. ''aB0cz'' = t @ u \<and> map toupper t = hex_of [0xAB, 0x0C]"
    using h by (intro exI [of _ "''aB0c''"] exI [of _ "''z''"]) simp
  then have "fromhex ''aB0cz'' 2 = Some [0xAB, 0x0C]"
    using hex_roundtrip [of "''aB0cz''" "[0xAB, 0x0C]" 2] by simp
  then show ?thesis
    using h hex_roundtrip [of "''aB0c''" "[0xAB, 0x0C]" 2] by simp
qed

text \<open>
  The other predicates on strings mean what they say: \<open>is_xstring\<close> holds of the strings of \<open>len\<close>
  hexadecimal digits, \<open>str_startswith\<close> returns what follows the prefix and nothing if it is not one,
  with and without a length limit, and \<open>strnchr\<close> finds the first occurrence in the first \<open>n\<close>
  characters.
\<close>

theorem str_predicates_correct:
  assumes "CHR 0x00 \<notin> set s" and "CHR 0x00 \<notin> set sub" and "c \<noteq> CHR 0x00"
  shows "(is_xstring s len \<longleftrightarrow> length s = len \<and> list_all isxdigit s) \<and>
    (str_startswith s sub = Some t \<longleftrightarrow> s = sub @ t) \<and>
    (strn_startswith s (int len) sub = Some t \<longleftrightarrow> s = sub @ t \<and> length sub \<le> len) \<and>
    strn_startswith s (- 1) sub = str_startswith s sub \<and>
    (strnchr s len c = Some t \<longleftrightarrow> (\<exists>u. s = u @ t \<and> c \<notin> set u \<and> length u < len \<and> t \<noteq> [] \<and> hd t = c))"
proof (intro conjI)
  show "is_xstring s len \<longleftrightarrow> length s = len \<and> list_all isxdigit s"
    using assms(1)
  proof (induction s len rule: is_xstring.induct)
    case (1 s)
    then show ?case by (cases s) auto
  next
    case (2 s len)
    then show ?case by (cases s) auto
  qed
  show "str_startswith s sub = Some t \<longleftrightarrow> s = sub @ t"
    using assms(1,2)
  proof (induction s sub rule: str_startswith.induct)
    case (2 s c sub)
    then show ?case by (cases s) auto
  qed simp
  show "strn_startswith s (int len) sub = Some t \<longleftrightarrow> s = sub @ t \<and> length sub \<le> len"
    using assms(1,2)
  proof (induction sub arbitrary: s len)
    case (Cons c sub)
    then show ?case by (cases s; cases len) auto
  qed simp
  have "n < 0 \<Longrightarrow> strn_startswith s n sub = str_startswith s sub" for n
    by (induction sub arbitrary: s n) simp_all
  then show "strn_startswith s (- 1) sub = str_startswith s sub" by simp
  show "strnchr s len c = Some t \<longleftrightarrow> (\<exists>u. s = u @ t \<and> c \<notin> set u \<and> length u < len \<and> t \<noteq> [] \<and> hd t = c)"
    using assms(1,3)
  proof (induction s len c rule: strnchr.induct)
    case (2 s n c)
    show ?case
    proof (cases s)
      case (Cons d s')
      then show ?thesis
      proof (cases "d = c")
        case True
        then show ?thesis using Cons by (auto simp: Cons_eq_append_conv)
      next
        case False
        then show ?thesis using Cons 2 by (auto simp: Cons_eq_append_conv)
      qed
    qed (use 2 in auto)
  qed simp
qed

theorem str_predicates_correct_witness:
  "is_xstring ''0a'' 2 \<and> str_startswith ''foobar'' ''foo'' = Some ''bar''"
  using str_predicates_correct [of "''0a''" "''0''" "CHR ''x''" 2 "''a''"]
    str_predicates_correct [of "''foobar''" "''foo''" "CHR ''x''" 2 "''bar''"]
  by (simp add: isxdigit_def)

end
