(* ===== verification/Base64.thy ===== *)
theory Base64
  imports Ctype
begin

text \<open>
  Base64 and Base64-URL of str.c. The encoder gathers from a list of buffers and returns the
  characters it stores; the decoder reads a C string, within a length if one is given, and returns
  the bytes it stores, the number it counts and where it stopped. The contract between the two
  alphabets' tables and the codec is the locale \<open>base64_alphabet\<close>, in which the round trip is
  proved once.
\<close>

section \<open>Encoding\<close>

definition base64_symbols :: string where
  "base64_symbols = uppers @ lowers @ digits @ ''+/=''"

definition base64url_symbols :: string where
  "base64url_symbols = uppers @ lowers @ digits @ ''-_=''"

text \<open>The loop over one buffer; the state is \<open>place\<close> and \<open>buf\<close>.\<close>

fun base64_encode_buf :: "string \<Rightarrow> nat \<Rightarrow> byte \<Rightarrow> byte list \<Rightarrow> string \<times> nat \<times> byte" where
  "base64_encode_buf symbols place buf [] = ([], place, buf)"
| "base64_encode_buf symbols place buf (b # src) =
     (let (out, place, buf) =
        (if place = 0 then ([symbols ! unat (drop_bit 2 b)], 1, push_bit 4 b AND 0x3f)
         else if place = 1 then ([symbols ! unat (drop_bit 4 b OR buf)], 2, push_bit 2 b AND 0x3f)
         else ([symbols ! unat (drop_bit 6 b OR buf), symbols ! unat (b AND 0x3f)], 0, buf));
        (outs, place, buf) = base64_encode_buf symbols place buf src
      in (out @ outs, place, buf))"

fun base64_encode_iov :: "string \<Rightarrow> nat \<Rightarrow> byte \<Rightarrow> byte list list \<Rightarrow> string \<times> nat \<times> byte" where
  "base64_encode_iov symbols place buf [] = ([], place, buf)"
| "base64_encode_iov symbols place buf (src # iov) =
     (let (out, place, buf) = base64_encode_buf symbols place buf src;
          (outs, place, buf) = base64_encode_iov symbols place buf iov
      in (out @ outs, place, buf))"

definition base64_finish :: "string \<Rightarrow> nat \<Rightarrow> byte \<Rightarrow> string" where
  "base64_finish symbols place buf =
     (if place \<noteq> 0 then [symbols ! unat buf] else []) @
     (if place = 1 then [symbols ! 64, symbols ! 64] else if place = 2 then [symbols ! 64] else [])"

definition base64_encodev_with :: "string \<Rightarrow> byte list list \<Rightarrow> string" where
  "base64_encodev_with symbols iov =
     (let (out, place, buf) = base64_encode_iov symbols 0 0 iov in out @ base64_finish symbols place buf)"

definition base64_encodev :: "byte list list \<Rightarrow> string" where
  "base64_encodev iov = base64_encodev_with base64_symbols iov"

definition base64url_encodev :: "byte list list \<Rightarrow> string" where
  "base64url_encodev iov = base64_encodev_with base64url_symbols iov"

definition base64_encode :: "byte list \<Rightarrow> string" where
  "base64_encode src = base64_encodev_with base64_symbols [src]"

definition base64url_encode :: "byte list \<Rightarrow> string" where
  "base64url_encode src = base64_encodev_with base64url_symbols [src]"

definition BASE64_ENCODED_LEN :: "nat \<Rightarrow> nat" where
  "BASE64_ENCODED_LEN n = (n + 2) div 3 * 4"

section \<open>Decoding\<close>

record b64_state =
  b64_buf :: byte
  b64_digits :: nat
  b64_pads :: nat
  b64_bytes :: nat
  b64_out :: "byte list"
  b64_first_pad :: "string option"

text \<open>What \<open>_base64_decode\<close> is given besides the source: the destination, the flag and the predicates.\<close>

record b64_params =
  b64_dst :: bool
  b64_dstsiz :: nat
  b64_consume_all :: bool
  b64_skip :: "(char \<Rightarrow> bool) option"
  b64_isdigit :: "char \<Rightarrow> bool option"
  b64_ispad :: "char \<Rightarrow> bool"
  b64_todigit :: "char \<Rightarrow> byte option"

text \<open>The \<open>switch (place)\<close> that stores a digit.\<close>

definition b64_store :: "nat \<Rightarrow> byte \<Rightarrow> b64_state \<Rightarrow> b64_state" where
  "b64_store place d st =
     (if place = 0 then st\<lparr>b64_buf := push_bit 2 d\<rparr>
      else if place = 1
      then st\<lparr>b64_out := b64_out st @ [b64_buf st OR drop_bit 4 d], b64_bytes := b64_bytes st + 1, b64_buf := push_bit 4 d\<rparr>
      else if place = 2
      then st\<lparr>b64_out := b64_out st @ [b64_buf st OR drop_bit 2 d], b64_bytes := b64_bytes st + 1, b64_buf := push_bit 6 d\<rparr>
      else st\<lparr>b64_out := b64_out st @ [b64_buf st OR d], b64_bytes := b64_bytes st + 1\<rparr>)"

text \<open>
  One pass through the body of the loop with the source at \<open>src\<close>: whether the loop goes on, the
  state and, if it does not, the source pointer. Failed assertions and reads outside the tables are
  \<open>None\<close>.
\<close>

definition b64_char :: "b64_params \<Rightarrow> string \<Rightarrow> b64_state \<Rightarrow> (bool \<times> b64_state \<times> string) option" where
  "b64_char pr src st = do {
     isdigit \<leftarrow> b64_isdigit pr (deref src);
     let ispad = b64_ispad pr (deref src);
     if \<not> isdigit \<and> \<not> ispad \<and> (case b64_skip pr of None \<Rightarrow> False | Some f \<Rightarrow> f (deref src))
     then Some (True, st, src)
     else do {
       assert (b64_pads st \<le> 2);
       if b64_pads st = 2 then Some (False, st, src)
       else let place = b64_digits st mod 4
            in if b64_pads st = 1
               then if place = 3 then Some (False, st, src)
                    else do {
                      assert (place = 2);
                      if ispad then Some (True, st\<lparr>b64_pads := b64_pads st + 1\<rparr>, src)
                      else do {
                        p \<leftarrow> b64_first_pad st;
                        Some (False, st, p)
                      }
                    }
               else if ispad \<and> place \<ge> 2
               then Some (True, st\<lparr>b64_first_pad := Some src, b64_pads := b64_pads st + 1\<rparr>, src)
               else if \<not> isdigit then Some (False, st, src)
               else let st = st\<lparr>b64_digits := b64_digits st + 1\<rparr>
                    in if b64_dst pr \<and> b64_bytes st < b64_dstsiz pr
                       then do {
                         d \<leftarrow> b64_todigit pr (deref src);
                         Some (True, b64_store place d st, src)
                       }
                       else if b64_consume_all pr
                       then Some (True, if place = 0 then st else st\<lparr>b64_bytes := b64_bytes st + 1\<rparr>, src)
                       else Some (False, st, src)
     }
   }"

text \<open>The loop: \<open>left\<close> is the number of characters left when a length was given.\<close>

fun b64_loop :: "b64_params \<Rightarrow> nat option \<Rightarrow> string \<Rightarrow> b64_state \<Rightarrow> (b64_state \<times> string) option" where
  "b64_loop pr left [] st =
     (if left = Some 0 then Some (st, [])
      else do {
        (go, st, src) \<leftarrow> b64_char pr [] st;
        if go then None else Some (st, src)
      })"
| "b64_loop pr left (c # s) st =
     (if left = Some 0 then Some (st, c # s)
      else do {
        (go, st, src) \<leftarrow> b64_char pr (c # s) st;
        if go then b64_loop pr (map_option (\<lambda>n. n - 1) left) s st else Some (st, src)
      })"

text \<open>
  The bytes stored, the count returned and the place where decoding stopped. Without \<open>afterp\<close> the
  count is 0 unless decoding stopped at the terminating NUL.
\<close>

definition base64_decode_with ::
  "b64_params \<Rightarrow> string \<Rightarrow> nat \<Rightarrow> bool \<Rightarrow> (byte list \<times> nat \<times> string) option" where
  "base64_decode_with pr src srclen afterp = do {
     (st, after) \<leftarrow> b64_loop pr (if srclen = 0 then None else Some srclen) src
        \<lparr>b64_buf = 0, b64_digits = 0, b64_pads = 0, b64_bytes = 0, b64_out = [], b64_first_pad = None\<rparr>;
     Some (b64_out st, if afterp \<or> deref after = CHR 0x00 then b64_bytes st else 0, after)
   }"

definition base64_decode ::
  "bool \<Rightarrow> nat \<Rightarrow> string \<Rightarrow> nat \<Rightarrow> bool \<Rightarrow> bool \<Rightarrow> (char \<Rightarrow> bool) option \<Rightarrow> (byte list \<times> nat \<times> string) option" where
  "base64_decode dst dstsiz src srclen afterp consume_all skip =
     base64_decode_with \<lparr>b64_dst = dst, b64_dstsiz = dstsiz, b64_consume_all = consume_all, b64_skip = skip,
       b64_isdigit = is_base64_digit, b64_ispad = is_base64_pad, b64_todigit = base64_digit\<rparr> src srclen afterp"

definition base64url_decode ::
  "bool \<Rightarrow> nat \<Rightarrow> string \<Rightarrow> nat \<Rightarrow> bool \<Rightarrow> bool \<Rightarrow> (char \<Rightarrow> bool) option \<Rightarrow> (byte list \<times> nat \<times> string) option" where
  "base64url_decode dst dstsiz src srclen afterp consume_all skip =
     base64_decode_with \<lparr>b64_dst = dst, b64_dstsiz = dstsiz, b64_consume_all = consume_all, b64_skip = skip,
       b64_isdigit = is_base64url_digit, b64_ispad = is_base64url_pad, b64_todigit = base64url_digit\<rparr> src srclen afterp"

section \<open>The encoding in groups of three\<close>

fun base64_groups :: "string \<Rightarrow> byte list \<Rightarrow> string" where
  "base64_groups sy (a # b # c # xs) =
     sy ! unat (drop_bit 2 a) # sy ! unat (drop_bit 4 b OR (push_bit 4 a AND 0x3f)) #
     sy ! unat (drop_bit 6 c OR (push_bit 2 b AND 0x3f)) # sy ! unat (c AND 0x3f) # base64_groups sy xs"
| "base64_groups sy [a, b] =
     [sy ! unat (drop_bit 2 a), sy ! unat (drop_bit 4 b OR (push_bit 4 a AND 0x3f)),
      sy ! unat (push_bit 2 b AND 0x3f), sy ! 64]"
| "base64_groups sy [a] = [sy ! unat (drop_bit 2 a), sy ! unat (push_bit 4 a AND 0x3f), sy ! 64, sy ! 64]"
| "base64_groups sy [] = []"

lemma base64_encode_buf_append:
  "base64_encode_buf sy place buf (xs @ ys) =
     (let (out, place, buf) = base64_encode_buf sy place buf xs;
          (outs, place, buf) = base64_encode_buf sy place buf ys
      in (out @ outs, place, buf))"
  by (induction sy place buf xs rule: base64_encode_buf.induct) (auto simp: Let_def split: prod.splits)

lemma base64_encode_iov_concat: "base64_encode_iov sy place buf iov = base64_encode_buf sy place buf (concat iov)"
  by (induction iov arbitrary: place buf) (auto simp: base64_encode_buf_append Let_def split: prod.splits)

lemma base64_encodev_groups: "base64_encodev_with sy iov = base64_groups sy (concat iov)"
proof -
  have "(case base64_encode_buf sy 0 buf xs of (out, place, buf) \<Rightarrow> out @ base64_finish sy place buf) =
      base64_groups sy xs" for buf xs
  proof (induction sy xs arbitrary: buf rule: base64_groups.induct)
    case (1 sy a b c xs)
    show ?case
      using 1 [of "push_bit 2 b AND 0x3f"]
      by (cases "base64_encode_buf sy 0 (push_bit 2 b AND 0x3f) xs") simp
  qed (simp_all add: base64_finish_def)
  then show ?thesis by (simp add: base64_encodev_with_def base64_encode_iov_concat)
qed

lemma base64_groups_length: "length (base64_groups sy xs) = BASE64_ENCODED_LEN (length xs)"
proof (induction sy xs rule: base64_groups.induct)
  case (1 sy a b c xs)
  have "(length (a # b # c # xs) + 2) div 3 = (length xs + 2) div 3 + 1" by simp
  then show ?case using 1 by (simp only: BASE64_ENCODED_LEN_def base64_groups.simps list.size) simp
qed (simp_all add: BASE64_ENCODED_LEN_def)

lemma bit_int_3f [simp]: "bit (0x3f :: int) n \<longleftrightarrow> n < 6"
proof -
  have "(0x3f :: int) = mask 6" by (simp add: mask_eq_exp_minus_1)
  then show ?thesis by (simp only: bit_mask_iff) simp
qed

lemma less_64_iff: "w < 64 \<longleftrightarrow> (\<forall>n. bit w n \<longrightarrow> n < 6)" for w :: byte
proof -
  have "w < 64 \<longleftrightarrow> take_bit 6 w = w"
    by (simp add: word_unat_eq_iff [of "take_bit 6 w" w] word_less_nat_alt unsigned_take_bit_eq
        take_bit_nat_eq_self_iff)
  also have "\<dots> \<longleftrightarrow> (\<forall>n. bit w n \<longrightarrow> n < 6)"
    by (auto simp: bit_eq_iff [of "take_bit 6 w" w] bit_take_bit_iff) (use bit_imp_le_length [of w] in auto)
  finally show ?thesis .
qed

lemma byte_eqI:
  fixes a b :: byte
  assumes "bit a 0 = bit b 0" "bit a 1 = bit b 1" "bit a 2 = bit b 2" "bit a 3 = bit b 3"
    "bit a 4 = bit b 4" "bit a 5 = bit b 5" "bit a 6 = bit b 6" "bit a 7 = bit b 7"
  shows "a = b"
proof (rule bit_word_eqI)
  fix n
  assume "n < LENGTH(8)"
  then have "n \<in> {0, 1, 2, 3, 4, 5, 6, 7}" by auto
  then show "bit a n = bit b n" using assms by auto
qed

lemma b64_less_64:
  fixes a b :: byte
  shows "drop_bit 2 a < 64" "drop_bit 4 b OR (push_bit 4 a AND 0x3f) < 64" "drop_bit 6 b OR (push_bit 2 a AND 0x3f) < 64"
    "a AND 0x3f < 64" "push_bit 4 a AND 0x3f < 64" "push_bit 2 a AND 0x3f < 64"
  by (auto simp: less_64_iff bit_or_iff bit_and_iff bit_drop_bit_eq dest: bit_imp_le_length)

lemma b64_bits:
  fixes a b c :: byte
  shows "push_bit 2 (drop_bit 2 a) OR drop_bit 4 (drop_bit 4 b OR (push_bit 4 a AND 0x3f)) = a"
    "push_bit 2 (drop_bit 2 a) OR drop_bit 4 (push_bit 4 a AND 0x3f) = a"
    "push_bit 4 (drop_bit 4 b OR (push_bit 4 a AND 0x3f)) OR drop_bit 2 (drop_bit 6 c OR (push_bit 2 b AND 0x3f)) = b"
    "push_bit 4 (drop_bit 4 b OR (push_bit 4 a AND 0x3f)) OR drop_bit 2 (push_bit 2 b AND 0x3f) = b"
    "push_bit 6 (drop_bit 6 c) OR (c AND 0x3f) = c"
  by (rule byte_eqI; simp add: bit_or_iff bit_and_iff bit_drop_bit_eq bit_push_bit_iff)+

lemma list3_induct [case_names three two one zero]:
  fixes xs :: "byte list"
  assumes "\<And>a b c xs. P xs \<Longrightarrow> P (a # b # c # xs)" "\<And>a b. P [a, b]" "\<And>a. P [a]" "P []"
  shows "P xs"
  by (rule base64_groups.induct [of "\<lambda>_. P" "[]" xs]) (rule assms; assumption?)+

section \<open>The contract of an alphabet\<close>

text \<open>Decoding into a buffer of exactly the size \<open>n\<close>, with no characters to skip.\<close>

definition b64_exact :: "(char \<Rightarrow> bool option) \<Rightarrow> (char \<Rightarrow> bool) \<Rightarrow> (char \<Rightarrow> byte option) \<Rightarrow> nat \<Rightarrow> b64_params" where
  "b64_exact isdig ispad todig n = \<lparr>b64_dst = True, b64_dstsiz = n, b64_consume_all = False, b64_skip = None,
     b64_isdigit = isdig, b64_ispad = ispad, b64_todigit = todig\<rparr>"

locale base64_alphabet =
  fixes symbols :: string
    and isdig :: "char \<Rightarrow> bool option" and ispad :: "char \<Rightarrow> bool" and todig :: "char \<Rightarrow> byte option"
  assumes symbol: "i < 64 \<Longrightarrow> isdig (symbols ! i) = Some True \<and> todig (symbols ! i) = Some (of_nat i) \<and>
      \<not> ispad (symbols ! i)"
    and pad: "ispad (symbols ! 64)" "isdig (symbols ! 64) = Some False"
    and NUL: "isdig (CHR 0x00) = Some False" "\<not> ispad (CHR 0x00)"
begin

lemma symbol_word:
  assumes "w < 64"
  shows "isdig (symbols ! unat w) = Some True" "todig (symbols ! unat w) = Some w" "\<not> ispad (symbols ! unat w)"
proof -
  have "unat w < 64" using assms by (simp add: word_less_nat_alt)
  from symbol [OF this] show "isdig (symbols ! unat w) = Some True" "todig (symbols ! unat w) = Some w"
      "\<not> ispad (symbols ! unat w)"
    by simp_all
qed

lemma loop_digit:
  assumes "w < 64" "b64_pads st = 0" "b64_bytes st < n"
  shows "b64_loop (b64_exact isdig ispad todig n) None (symbols ! unat w # s) st =
    b64_loop (b64_exact isdig ispad todig n) None s
      (b64_store (b64_digits st mod 4) w (st\<lparr>b64_digits := b64_digits st + 1\<rparr>))"
  using symbol_word [OF assms(1)] assms(2,3) by (simp add: b64_char_def b64_exact_def)

lemma loop_two_pads:
  assumes "b64_pads st = 0" "b64_digits st mod 4 = 2"
  shows "b64_loop (b64_exact isdig ispad todig n) None [symbols ! 64, symbols ! 64] st =
    Some (st\<lparr>b64_first_pad := Some [symbols ! 64, symbols ! 64], b64_pads := 2\<rparr>, [])"
  using pad NUL assms by (simp add: b64_char_def b64_exact_def)

lemma loop_one_pad:
  assumes "b64_pads st = 0" "b64_digits st mod 4 = 3"
  shows "b64_loop (b64_exact isdig ispad todig n) None [symbols ! 64] st =
    Some (st\<lparr>b64_first_pad := Some [symbols ! 64], b64_pads := 1\<rparr>, [])"
  using pad NUL assms by (simp add: b64_char_def b64_exact_def)

lemma digits_mod:
  assumes "n mod 4 = 0"
  shows "Suc n mod 4 = 1" "Suc (Suc n) mod 4 = 2" "Suc (Suc (Suc n)) mod 4 = 3"
  using assms by presburger+

lemma loop_2:
  assumes "w1 < 64" "w2 < 64" "b64_pads st = 0" "b64_digits st mod 4 = 0" "b64_bytes st + 1 \<le> n"
  shows "b64_loop (b64_exact isdig ispad todig n) None (symbols ! unat w1 # symbols ! unat w2 # s) st =
    b64_loop (b64_exact isdig ispad todig n) None s (st\<lparr>b64_digits := b64_digits st + 2,
      b64_out := b64_out st @ [push_bit 2 w1 OR drop_bit 4 w2], b64_bytes := b64_bytes st + 1, b64_buf := push_bit 4 w2\<rparr>)"
  using assms digits_mod [OF assms(4)] by (simp add: loop_digit b64_store_def del: b64_loop.simps)

lemma loop_3:
  assumes "w < 64" "b64_pads st = 0" "b64_digits st mod 4 = 2" "b64_bytes st + 1 \<le> n"
  shows "b64_loop (b64_exact isdig ispad todig n) None (symbols ! unat w # s) st =
    b64_loop (b64_exact isdig ispad todig n) None s (st\<lparr>b64_digits := b64_digits st + 1,
      b64_out := b64_out st @ [b64_buf st OR drop_bit 2 w], b64_bytes := b64_bytes st + 1, b64_buf := push_bit 6 w\<rparr>)"
  using assms by (simp add: loop_digit b64_store_def del: b64_loop.simps)

lemma loop_4:
  assumes "w < 64" "b64_pads st = 0" "b64_digits st mod 4 = 3" "b64_bytes st + 1 \<le> n"
  shows "b64_loop (b64_exact isdig ispad todig n) None (symbols ! unat w # s) st =
    b64_loop (b64_exact isdig ispad todig n) None s (st\<lparr>b64_digits := b64_digits st + 1,
      b64_out := b64_out st @ [b64_buf st OR w], b64_bytes := b64_bytes st + 1\<rparr>)"
  using assms by (simp add: loop_digit b64_store_def del: b64_loop.simps)

lemma loop_groups_3:
  assumes "b64_pads st = 0" "b64_digits st mod 4 = 0" "b64_bytes st + 2 \<le> n"
  shows "b64_loop (b64_exact isdig ispad todig n) None (symbols ! unat (drop_bit 2 a) #
      symbols ! unat (drop_bit 4 b OR (push_bit 4 a AND 0x3f)) # symbols ! unat (drop_bit 6 c OR (push_bit 2 b AND 0x3f)) # s) st =
    b64_loop (b64_exact isdig ispad todig n) None s (st\<lparr>b64_digits := Suc (Suc (Suc (b64_digits st))), b64_out := b64_out st @ [a, b],
      b64_bytes := b64_bytes st + 2, b64_buf := push_bit 6 (drop_bit 6 c OR (push_bit 2 b AND 0x3f))\<rparr>)"
proof -
  define w2 where "w2 = drop_bit 4 b OR (push_bit 4 a AND 0x3f)"
  define w3 where "w3 = drop_bit 6 c OR (push_bit 2 b AND 0x3f)"
  have w: "w2 < 64" "w3 < 64" "push_bit 2 (drop_bit 2 a) OR drop_bit 4 w2 = a" "push_bit 4 w2 OR drop_bit 2 w3 = b"
    unfolding w2_def w3_def by (fact b64_less_64 b64_bits)+
  show ?thesis
    unfolding w2_def [symmetric] w3_def [symmetric]
    using assms digits_mod [OF assms(2)] w
    by (simp add: loop_2 loop_3 b64_less_64(1) del: b64_loop.simps)
qed

lemma decode_groups:
  assumes "b64_pads st = 0" "b64_digits st mod 4 = 0" "b64_bytes st + length xs = n"
  shows "\<exists>st'. b64_loop (b64_exact isdig ispad todig n) None (base64_groups symbols xs) st = Some (st', []) \<and>
    b64_out st' = b64_out st @ xs \<and> b64_bytes st' = n"
  using assms
proof (induction xs arbitrary: st rule: list3_induct)
  case (three a b c xs)
  define st1 where "st1 = st\<lparr>b64_buf := push_bit 6 (drop_bit 6 c OR (push_bit 2 b AND 0x3f)),
    b64_digits := Suc (Suc (Suc (Suc (b64_digits st)))), b64_out := b64_out st @ [a, b, c],
    b64_bytes := Suc (Suc (Suc (b64_bytes st)))\<rparr>"
  have "b64_loop (b64_exact isdig ispad todig n) None (base64_groups symbols (a # b # c # xs)) st =
      b64_loop (b64_exact isdig ispad todig n) None (base64_groups symbols xs) st1"
    using three.prems digits_mod [OF three.prems(2)]
    by (simp add: loop_groups_3 loop_4 b64_less_64(4) b64_bits(5) st1_def del: b64_loop.simps)
  moreover have "b64_digits st1 mod 4 = 0"
    using three.prems(2) by (simp add: st1_def)
  ultimately show ?case using three.IH [of st1] three.prems by (simp add: st1_def)
next
  case (two a b)
  have z: "drop_bit 6 0 OR (push_bit 2 b AND 0x3f) = push_bit 2 b AND 0x3f" by simp
  show ?case
    using two.prems digits_mod [OF two.prems(2)] loop_groups_3 [of st n a b 0, unfolded z]
    by (simp add: loop_one_pad del: b64_loop.simps)
next
  case (one a)
  show ?case
    using one.prems digits_mod [OF one.prems(2)] b64_bits(2) [of a]
    by (simp add: loop_2 loop_two_pads b64_less_64 del: b64_loop.simps)
next
  case zero
  then show ?case using NUL by (simp add: b64_char_def b64_exact_def)
qed

lemma decode_encode:
  "base64_decode_with (b64_exact isdig ispad todig (length (concat iov))) (base64_encodev_with symbols iov) 0 afterp =
     Some (concat iov, length (concat iov), [])"
proof -
  define st where "st = \<lparr>b64_buf = 0, b64_digits = 0, b64_pads = 0, b64_bytes = 0, b64_out = [], b64_first_pad = None\<rparr>"
  show ?thesis
    using decode_groups [of st "concat iov" "length (concat iov)"]
    by (auto simp: base64_decode_with_def base64_encodev_groups st_def)
qed

end

section \<open>The two alphabets of the code\<close>

lemma base64_symbols_simps: "length base64_symbols = 65" "length base64url_symbols = 65"
  "base64_symbols ! 64 = CHR ''=''" "base64url_symbols ! 64 = CHR ''=''"
  by (simp_all add: base64_symbols_def base64url_symbols_def uppers_def lowers_def digits_def)

lemma base64_symbols_digits:
  "map is_base64_digit (take 64 base64_symbols) = replicate 64 (Some True)"
  "map base64_digit (take 64 base64_symbols) = map (\<lambda>i. Some (of_nat i)) [0..<64]"
  "map is_base64_pad (take 64 base64_symbols) = replicate 64 False"
  by code_simp+

lemma base64url_symbols_digits:
  "map is_base64url_digit (take 64 base64url_symbols) = replicate 64 (Some True)"
  "map base64url_digit (take 64 base64url_symbols) = map (\<lambda>i. Some (of_nat i)) [0..<64]"
  "map is_base64url_pad (take 64 base64url_symbols) = replicate 64 False"
  by code_simp+

lemma nth_map_take: "map f (take 64 s) = ys \<Longrightarrow> length s = 65 \<Longrightarrow> i < 64 \<Longrightarrow> f (s ! i) = ys ! i"
  by auto

interpretation b64: base64_alphabet base64_symbols is_base64_digit is_base64_pad base64_digit
proof
  fix i :: nat
  assume i: "i < 64"
  note nth = nth_map_take [OF _ base64_symbols_simps(1) i]
  show "is_base64_digit (base64_symbols ! i) = Some True \<and> base64_digit (base64_symbols ! i) = Some (of_nat i) \<and>
      \<not> is_base64_pad (base64_symbols ! i)"
    using base64_symbols_digits [THEN nth] i by simp
next
  show "is_base64_pad (base64_symbols ! 64)" "is_base64_digit (base64_symbols ! 64) = Some False"
      "is_base64_digit (CHR 0x00) = Some False" "\<not> is_base64_pad (CHR 0x00)"
    by code_simp+
qed

interpretation b64url: base64_alphabet base64url_symbols is_base64url_digit is_base64url_pad base64url_digit
proof
  fix i :: nat
  assume i: "i < 64"
  note nth = nth_map_take [OF _ base64_symbols_simps(2) i]
  show "is_base64url_digit (base64url_symbols ! i) = Some True \<and>
      base64url_digit (base64url_symbols ! i) = Some (of_nat i) \<and> \<not> is_base64url_pad (base64url_symbols ! i)"
    using base64url_symbols_digits [THEN nth] i by simp
next
  show "is_base64url_pad (base64url_symbols ! 64)" "is_base64url_digit (base64url_symbols ! 64) = Some False"
      "is_base64url_digit (CHR 0x00) = Some False" "\<not> is_base64url_pad (CHR 0x00)"
    by code_simp+
qed

section \<open>Properties\<close>

text \<open>
  (C8) Base64: whatever the fragments given to \<open>base64_encodev\<close>, the text has exactly
  \<open>BASE64_ENCODED_LEN\<close> characters of the size of their concatenation, and \<open>base64_decode\<close> into a
  buffer of that size returns the concatenation, its length and the end of the text, with or
  without \<open>afterp\<close>.
\<close>

theorem base64_roundtrip:
  "length (base64_encodev iov) = BASE64_ENCODED_LEN (length (concat iov)) \<and>
   base64_decode True (length (concat iov)) (base64_encodev iov) 0 afterp False None =
     Some (concat iov, length (concat iov), [])"
  using b64.decode_encode [of iov afterp]
  by (simp add: base64_encodev_def base64_encodev_groups base64_groups_length base64_decode_def b64_exact_def)

text \<open>The same for the URL-safe alphabet of \<open>base64url_encodev\<close> and \<open>base64url_decode\<close>.\<close>

theorem base64url_roundtrip:
  "length (base64url_encodev iov) = BASE64_ENCODED_LEN (length (concat iov)) \<and>
   base64url_decode True (length (concat iov)) (base64url_encodev iov) 0 afterp False None =
     Some (concat iov, length (concat iov), [])"
  using b64url.decode_encode [of iov afterp]
  by (simp add: base64url_encodev_def base64_encodev_groups base64_groups_length base64url_decode_def b64_exact_def)

end
