(* ===== verification/Strbuf.thy ===== *)
theory Strbuf
  imports Str
begin

text \<open>
  String buffers (strbuf.c, strbuf.h): text assembled by appending to a backing buffer of fixed
  size, truncated with a terminating NUL when it does not fit, while the number of characters
  appended goes on being counted.

  Pointers into the backing buffer are offsets from its start. The backing buffer is the list of its
  characters, or \<open>None\<close> for a NULL buffer; an \<open>end\<close> pointer that is NULL is \<open>None\<close>. Every write goes
  through \<open>mem_write\<close>, so an operation that returns \<open>Some\<close> stays inside the backing buffer.
\<close>

section \<open>The operations\<close>

record strbuf =
  sb_start :: "string option"
  sb_end :: "int option"
  sb_current :: int

abbreviation NUL :: char where
  "NUL \<equiv> CHR 0x00"

definition sb_store :: "strbuf \<Rightarrow> int \<Rightarrow> string \<Rightarrow> strbuf option" where
  "sb_store sb at xs = do {
     m \<leftarrow> sb_start sb;
     assert (0 \<le> at);
     m \<leftarrow> mem_write m (nat at) xs;
     Some (sb\<lparr>sb_start := Some m\<rparr>)
   }"

definition strbuf_reset :: "strbuf \<Rightarrow> strbuf option" where
  "strbuf_reset sb =
     (let sb = sb\<lparr>sb_current := 0\<rparr>
      in if sb_start sb \<noteq> None \<and> (case sb_end sb of None \<Rightarrow> True | Some e \<Rightarrow> sb_current sb \<le> e)
         then sb_store sb (sb_current sb) [NUL] else Some sb)"

text \<open>
  With a NULL buffer the \<open>end\<close> pointer is computed from the address 0: a size of 1 makes it NULL, a
  size of 0 the last address.
\<close>

definition strbuf_init :: "string option \<Rightarrow> int \<Rightarrow> strbuf option" where
  "strbuf_init buffer siz =
     strbuf_reset \<lparr>sb_start = buffer,
       sb_end = (if siz < 0 then None
                 else if buffer = None \<and> siz = 1 then None
                 else if buffer = None \<and> siz = 0 then Some (int SIZE_MAX)
                 else Some (siz - 1)),
       sb_current = 0\<rparr>"

definition sb_room :: "strbuf \<Rightarrow> bool" where
  "sb_room sb \<longleftrightarrow> sb_start sb \<noteq> None \<and> (case sb_end sb of None \<Rightarrow> True | Some e \<Rightarrow> sb_current sb < e)"

text \<open>What is copied of a text: all of it without an \<open>end\<close>, otherwise what fits before it.\<close>

definition sb_fit :: "strbuf \<Rightarrow> string \<Rightarrow> string" where
  "sb_fit sb xs = (case sb_end sb of None \<Rightarrow> xs | Some e \<Rightarrow> take (nat (e - sb_current sb)) xs)"

definition strbuf_ncat :: "strbuf \<Rightarrow> string \<Rightarrow> nat \<Rightarrow> strbuf option" where
  "strbuf_ncat sb txt len = do {
     sb \<leftarrow> (if len \<noteq> 0 \<and> sb_room sb then sb_store sb (sb_current sb) (sb_fit sb (take len txt) @ [NUL]) else Some sb);
     Some (sb\<lparr>sb_current := sb_current sb + int len\<rparr>)
   }"

definition strbuf_puts :: "strbuf \<Rightarrow> string \<Rightarrow> strbuf option" where
  "strbuf_puts sb txt = do {
     sb \<leftarrow> (if sb_room sb then sb_store sb (sb_current sb) (sb_fit sb txt @ [NUL]) else Some sb);
     Some (sb\<lparr>sb_current := sb_current sb + int (length txt)\<rparr>)
   }"

definition strbuf_putc :: "strbuf \<Rightarrow> char \<Rightarrow> strbuf option" where
  "strbuf_putc sb ch = do {
     sb \<leftarrow> (if sb_room sb then sb_store sb (sb_current sb) [ch, NUL] else Some sb);
     Some (sb\<lparr>sb_current := sb_current sb + 1\<rparr>)
   }"

definition strbuf_end :: "strbuf \<Rightarrow> int" where
  "strbuf_end sb = (case sb_end sb of None \<Rightarrow> sb_current sb | Some e \<Rightarrow> if e < sb_current sb then e else sb_current sb)"

text \<open>The digits are those of \<open>tohex\<close>; the destination ends at \<open>e\<close>, where the NUL is written.\<close>

definition strbuf_tohex :: "strbuf \<Rightarrow> nat \<Rightarrow> byte list \<Rightarrow> strbuf option" where
  "strbuf_tohex sb len data =
     (let p = sb_current sb; sb = sb\<lparr>sb_current := sb_current sb + int len\<rparr>
      in if sb_start sb = None then Some sb
         else let e = strbuf_end sb
              in do {
                hex \<leftarrow> tohex_loop (min len (nat (e - p))) 0 data;
                sb \<leftarrow> (if hex = [] then Some sb else sb_store sb p hex);
                sb_store sb e [NUL]
              })"

text \<open>
  \<open>vsnprintf\<close> is given by the text that the format and its arguments produce, \<open>None\<close> where it returns -1;
  it is then taken to have written nothing.
\<close>

definition strbuf_vsprintf :: "strbuf \<Rightarrow> string option \<Rightarrow> strbuf option" where
  "strbuf_vsprintf sb printed =
     (case printed of None \<Rightarrow> Some sb | Some out \<Rightarrow> let n = int (length out)
      in do {
        sb \<leftarrow> (case sb_end sb of
                 None \<Rightarrow> if sb_start sb \<noteq> None then sb_store sb (sb_current sb) (out @ [NUL]) else Some sb
               | Some e \<Rightarrow>
                   if sb_start sb \<noteq> None \<and> sb_current sb < e
                   then let space = e - sb_current sb + 1
                        in do {
                          sb \<leftarrow> sb_store sb (sb_current sb) (take (nat (space - 1)) out @ [NUL]);
                          if n \<ge> space then sb_store sb e [NUL] else Some sb
                        }
                   else Some sb);
        Some (sb\<lparr>sb_current := sb_current sb + n\<rparr>)
      })"

text \<open>The formats that are used here convert integers and strings, which does not fail.\<close>

definition strbuf_sprintf :: "strbuf \<Rightarrow> string \<Rightarrow> strbuf option" where
  "strbuf_sprintf sb out = strbuf_vsprintf sb (Some out)"

definition strbuf_substr :: "strbuf \<Rightarrow> int \<Rightarrow> int option" where
  "strbuf_substr sb offset =
     (if sb_start sb = None then None
      else if offset < 0 then Some (max 0 (strbuf_end sb + offset))
      else case sb_end sb of None \<Rightarrow> Some offset | Some e \<Rightarrow> Some (if e < offset then e else offset))"

definition strbuf_trunc :: "strbuf \<Rightarrow> int \<Rightarrow> strbuf option" where
  "strbuf_trunc sb offset =
     (let sb = (if offset < 0
                then let e = strbuf_end sb in sb\<lparr>sb_current := (if offset \<le> - e then 0 else e + offset)\<rparr>
                else if offset < sb_current sb then sb\<lparr>sb_current := offset\<rparr> else sb)
      in if sb_room sb then sb_store sb (sb_current sb) [NUL] else Some sb)"

definition strbuf_size :: "strbuf \<Rightarrow> int" where
  "strbuf_size sb = (case sb_end sb of None \<Rightarrow> - 1 | Some e \<Rightarrow> e + 1)"

definition strbuf_len :: "strbuf \<Rightarrow> int" where
  "strbuf_len sb = strbuf_end sb"

definition strbuf_remaining :: "strbuf \<Rightarrow> int" where
  "strbuf_remaining sb = (case sb_end sb of None \<Rightarrow> int SIZE_MAX | Some e \<Rightarrow> if e < sb_current sb then 0 else e - sb_current sb)"

definition strbuf_count :: "strbuf \<Rightarrow> int" where
  "strbuf_count sb = sb_current sb"

definition strbuf_overrun :: "strbuf \<Rightarrow> bool" where
  "strbuf_overrun sb \<longleftrightarrow> (case sb_end sb of None \<Rightarrow> False | Some e \<Rightarrow> e < sb_current sb)"

section \<open>The abstract buffer\<close>

text \<open>
  The contract: after the text \<open>t\<close> has been appended to a strbuf on the buffer \<open>m0\<close> whose \<open>end\<close> is at
  \<open>e\<close>, the buffer holds the first \<open>e\<close> characters of \<open>t\<close> and a NUL, and is as it was behind that. With
  a NULL buffer only the count is kept.
\<close>

definition sb_text :: "string \<Rightarrow> nat \<Rightarrow> string \<Rightarrow> string" where
  "sb_text m0 e t = take e t @ NUL # drop (Suc (min e (length t))) m0"

definition sb_rel :: "string option \<Rightarrow> nat \<Rightarrow> string \<Rightarrow> strbuf \<Rightarrow> bool" where
  "sb_rel buf e t sb \<longleftrightarrow>
     sb_end sb = Some (int e) \<and> sb_current sb = int (length t) \<and>
     (case buf of None \<Rightarrow> sb_start sb = None | Some m0 \<Rightarrow> e < length m0 \<and> sb_start sb = Some (sb_text m0 e t))"

definition appends :: "(strbuf \<Rightarrow> strbuf option) \<Rightarrow> string \<Rightarrow> bool" where
  "appends f x \<longleftrightarrow>
     (\<forall>buf e t sb. sb_rel buf e t sb \<longrightarrow> (\<exists>sb'. f sb = Some sb' \<and> sb_rel buf e (t @ x) sb'))"

named_theorems appends_intros \<open>what the operations append\<close>

lemma appendsD: "appends f x \<Longrightarrow> sb_rel buf e t sb \<Longrightarrow> \<exists>sb'. f sb = Some sb' \<and> sb_rel buf e (t @ x) sb'"
  unfolding appends_def by blast

lemma appends_Some [appends_intros]: "appends Some []"
  by (simp add: appends_def)

lemma appends_bind [appends_intros]: "appends f x \<Longrightarrow> appends g y \<Longrightarrow> appends (\<lambda>sb. f sb \<bind> g) (x @ y)"
  unfolding appends_def by (metis append_assoc bind.bind_lunit)

lemma sb_text_full: "e \<le> length t \<Longrightarrow> sb_text m0 e (t @ x) = sb_text m0 e t"
  by (simp add: sb_text_def)

lemma sb_text_length: "e < length m0 \<Longrightarrow> length (sb_text m0 e t) = length m0"
  by (auto simp: sb_text_def)

lemma sb_text_write:
  assumes "length t \<le> e" "e < length m0"
  shows "mem_write (sb_text m0 e t) (length t) (take (e - length t) x @ [NUL]) = Some (sb_text m0 e (t @ x))"
proof -
  have "min e (length t + length x) = length t + length (take (e - length t) x)"
    using assms(1) by simp
  then show ?thesis
    using assms by (simp add: mem_write_def sb_text_length) (auto simp: sb_text_def min_def ac_simps)
qed

lemma sb_rel_text: "sb_rel (Some m0) e t sb \<Longrightarrow> sb_start sb = Some (sb_text m0 e t) \<and> e < length m0"
  by (simp add: sb_rel_def)

lemma sb_rel_store:
  assumes "sb_rel (Some m0) e t sb" "length t \<le> e"
  shows "\<exists>sb'. sb_store sb (sb_current sb) (take (e - length t) x @ [NUL]) = Some sb' \<and>
    sb_rel (Some m0) e (t @ x) (sb'\<lparr>sb_current := int (length t + length x)\<rparr>) \<and> sb_current sb' = sb_current sb"
  using assms sb_text_write [OF assms(2), of m0 x] by (auto simp: sb_rel_def sb_store_def)

lemma sb_rel_fit: "sb_rel buf e t sb \<Longrightarrow> sb_fit sb x = take (e - length t) x"
  by (simp add: sb_rel_def sb_fit_def nat_minus_as_int)

lemma strbuf_puts_appends [appends_intros]: "appends (\<lambda>sb. strbuf_puts sb x) x"
  unfolding appends_def
proof (intro allI impI)
  fix buf e t sb
  assume rel: "sb_rel buf e t sb"
  show "\<exists>sb'. strbuf_puts sb x = Some sb' \<and> sb_rel buf e (t @ x) sb'"
  proof (cases "sb_room sb")
    case True
    then obtain m0 where m0: "buf = Some m0" "length t < e"
      using rel by (auto simp: sb_room_def sb_rel_def split: option.splits)
    then show ?thesis
      using sb_rel_store [of m0 e t sb x] rel True sb_rel_fit [OF rel, of x]
      by (auto simp: strbuf_puts_def sb_rel_def)
  next
    case False
    then have "buf = None \<or> e \<le> length t"
      using rel by (auto simp: sb_room_def sb_rel_def split: option.splits)
    then show ?thesis
      using rel False by (auto simp: strbuf_puts_def sb_rel_def sb_text_full split: option.splits)
  qed
qed

lemma strbuf_ncat_puts: "len \<noteq> 0 \<Longrightarrow> len \<le> length txt \<Longrightarrow> strbuf_ncat sb txt len = strbuf_puts sb (take len txt)"
  by (simp add: strbuf_ncat_def strbuf_puts_def)

lemma strbuf_ncat_appends [appends_intros]:
  "len \<le> length txt \<Longrightarrow> appends (\<lambda>sb. strbuf_ncat sb txt len) (take len txt)"
  by (cases "len = 0") (simp_all add: strbuf_ncat_puts strbuf_puts_appends, simp add: strbuf_ncat_def appends_Some)

lemma strbuf_putc_puts: "strbuf_putc sb c = strbuf_puts sb [c]"
proof -
  have "sb_room sb \<Longrightarrow> sb_fit sb [c] = [c]"
    by (auto simp: sb_room_def sb_fit_def split: option.splits)
  then show ?thesis by (simp add: strbuf_putc_def strbuf_puts_def)
qed

lemma strbuf_putc_appends [appends_intros]: "appends (\<lambda>sb. strbuf_putc sb c) [c]"
  by (simp add: strbuf_putc_puts strbuf_puts_appends)

lemma sb_store_store:
  assumes "0 \<le> i"
  shows "(sb_store sb i xs \<bind> (\<lambda>sb. sb_store sb (i + int (length xs)) ys)) = sb_store sb i (xs @ ys)"
proof (cases "sb_start sb")
  case (Some m)
  have "nat (i + int (length xs)) = nat i + length xs"
    using assms by (simp add: nat_add_distrib)
  then show ?thesis
    using assms Some by (auto simp: sb_store_def mem_write_def bind_eq_Some_conv ac_simps split: if_splits)
qed (simp add: sb_store_def)

lemma sb_store_store':
  assumes "0 \<le> i" "e = i + int (length xs)"
  shows "((if xs = [] then Some sb else sb_store sb i xs) \<bind> (\<lambda>sb. sb_store sb e ys)) = sb_store sb i (xs @ ys)"
  using sb_store_store [OF assms(1), of sb xs ys] assms(2) by simp

lemma sb_store_current:
  "sb_store (sb\<lparr>sb_current := c\<rparr>) i xs = sb_store sb i xs \<bind> (\<lambda>sb. Some (sb\<lparr>sb_current := c\<rparr>))"
  by (auto simp: sb_store_def mem_write_def bind_eq_Some_conv split: option.splits Option.bind_split)

lemma sb_store_keeps: "sb_store sb i xs = Some sb' \<Longrightarrow> sb_current sb' = sb_current sb"
  by (auto simp: sb_store_def bind_eq_Some_conv split: if_splits)

lemma sb_store_again:
  assumes "sb_store sb i (xs @ [c]) = Some sb'" "0 \<le> i"
  shows "sb_store sb' (i + int (length xs)) [c] = Some sb'"
proof -
  from assms obtain m where m: "sb_start sb = Some m" "nat i + length xs < length m"
      "sb' = sb\<lparr>sb_start := Some (take (nat i) m @ xs @ c # drop (nat i + length xs + 1) m)\<rparr>"
    by (auto simp: sb_store_def mem_write_def bind_eq_Some_conv split: if_splits)
  moreover have "nat (i + int (length xs)) = nat i + length xs"
    using assms(2) by (simp add: nat_add_distrib)
  ultimately show ?thesis
    using assms(2) by (simp add: sb_store_def mem_write_def)
qed

lemma strbuf_vsprintf_puts:
  assumes "0 \<le> sb_current sb"
  shows "strbuf_vsprintf sb (Some out) = strbuf_puts sb out"
proof (cases "\<exists>e. sb_end sb = Some e \<and> sb_room sb")
  case True
  then obtain e where e: "sb_end sb = Some e" "sb_current sb < e" "sb_start sb \<noteq> None" "sb_room sb"
    by (auto simp: sb_room_def)
  show ?thesis
  proof (cases "sb_store sb (sb_current sb) (take (nat (e - sb_current sb)) out @ [NUL])")
    case None
    then show ?thesis using e by (simp add: strbuf_vsprintf_def strbuf_puts_def sb_fit_def)
  next
    case (Some sb')
    have "sb_store sb' e [NUL] = Some sb'" if "e - sb_current sb + 1 \<le> int (length out)"
    proof -
      have "sb_current sb + int (length (take (nat (e - sb_current sb)) out)) = e"
        using that e(2) by (simp add: min_def)
      then show ?thesis using sb_store_again [OF Some assms] by simp
    qed
    then show ?thesis using Some e by (auto simp: strbuf_vsprintf_def strbuf_puts_def sb_fit_def Let_def)
  qed
next
  case False
  then show ?thesis
    by (cases "sb_end sb") (auto simp: strbuf_vsprintf_def strbuf_puts_def sb_room_def sb_fit_def)
qed

lemma strbuf_sprintf_appends [appends_intros]: "appends (\<lambda>sb. strbuf_sprintf sb x) x"
proof -
  have "strbuf_sprintf sb x = strbuf_puts sb x" if "sb_rel buf e t sb" for buf e t sb
    using that strbuf_vsprintf_puts [of sb x] by (simp add: strbuf_sprintf_def sb_rel_def)
  then show ?thesis using strbuf_puts_appends [of x] by (auto simp: appends_def)
qed

lemma tohex_loop_take: "tohex_loop n i bs = Some h \<Longrightarrow> k \<le> n \<Longrightarrow> tohex_loop k i bs = Some (take k h)"
proof (induction n i bs arbitrary: h k rule: tohex_loop.induct)
  case (2 n i bs)
  show ?case
  proof (cases k)
    case (Suc j)
    from "2.prems" obtain b rest where bs: "bs = b # rest" by (auto split: list.splits)
    show ?thesis
    proof (cases "odd i")
      case True
      then obtain h' where "tohex_loop n (i + 1) rest = Some h'" "h = hexdigit_upper ! unat (b AND 0xf) # h'"
        using "2.prems" bs by auto
      then show ?thesis using "2.IH"(1) [OF bs True, of h' j] "2.prems" Suc bs True by simp
    next
      case False
      then obtain h' where "tohex_loop n (i + 1) bs = Some h'" "h = hexdigit_upper ! unat (drop_bit 4 b) # h'"
        using "2.prems" bs by auto
      then show ?thesis using "2.IH"(2) [OF bs False, of h' j] "2.prems" Suc bs False by simp
    qed
  qed simp
qed simp

lemma tohex_loop_length: "tohex_loop n i bs = Some h \<Longrightarrow> length h = n"
  by (induction n i bs arbitrary: h rule: tohex_loop.induct) (auto split: list.splits if_splits)

lemma strbuf_tohex_puts:
  assumes rel: "sb_rel (Some m0) e t sb" and "tohex len data = Some h" and "length t < e"
  shows "strbuf_tohex sb len data = strbuf_puts sb h"
proof -
  have h: "length h = len"
    using assms(2) tohex_loop_length [of len 0 data h] by (simp add: tohex_def)
  have hex: "tohex_loop (min len k) 0 data = Some (take k h)" for k
    using assms(2) tohex_loop_take [of len 0 data h "min len k"] h by (cases "len \<le> k") (simp_all add: tohex_def min_def)
  define e' where "e' = strbuf_end (sb\<lparr>sb_current := int (length t) + int len\<rparr>)"
  have e': "nat (e' - int (length t)) = min len (e - length t)" "e' = int (length t) + int (min len (e - length t))"
    using rel assms(3) by (auto simp: e'_def strbuf_end_def sb_rel_def min_def)
  have room: "sb_room sb" using rel assms(3) by (simp add: sb_room_def sb_rel_def)
  have len: "e' = int (length t) + int (length (take (e - length t) h))"
    using e'(2) h by (simp add: min.commute)
  show ?thesis
    using rel room sb_rel_fit [OF rel, of h] hex [of "e - length t"] h e'(1) e'_def
      sb_store_store' [OF _ len, of "sb\<lparr>sb_current := int (length t) + int len\<rparr>" "[NUL]"]
    by (simp add: strbuf_tohex_def strbuf_puts_def sb_rel_def Let_def sb_store_current)
      (auto dest!: sb_store_keeps split: Option.bind_split)
qed

lemma strbuf_tohex_appends [appends_intros]:
  assumes "tohex len data = Some h"
  shows "appends (\<lambda>sb. strbuf_tohex sb len data) h"
  unfolding appends_def
proof (intro allI impI)
  fix buf e t sb
  assume rel: "sb_rel buf e t sb"
  have h: "length h = len" using assms tohex_loop_length by (simp add: tohex_def)
  show "\<exists>sb'. strbuf_tohex sb len data = Some sb' \<and> sb_rel buf e (t @ h) sb'"
  proof (cases buf)
    case None
    then show ?thesis using rel h by (simp add: strbuf_tohex_def sb_rel_def)
  next
    case (Some m0)
    show ?thesis
    proof (cases "length t < e")
      case True
      then show ?thesis
        using strbuf_tohex_puts [OF rel [unfolded Some] assms] appendsD [OF strbuf_puts_appends rel] by simp
    next
      case False
      have "sb_store (sb\<lparr>sb_current := sb_current sb + int len\<rparr>) (int e) [NUL] = Some (sb\<lparr>sb_current := sb_current sb + int len\<rparr>)"
        using rel Some False by (simp add: sb_store_def sb_rel_def mem_write_def sb_text_length) (simp add: sb_text_def)
      moreover have "strbuf_end (sb\<lparr>sb_current := int (length t) + int len\<rparr>) = int e"
        using rel False by (auto simp: strbuf_end_def sb_rel_def)
      ultimately show ?thesis using rel Some False h
        by (simp add: strbuf_tohex_def sb_rel_def sb_text_full Let_def)
    qed
  qed
qed

section \<open>Initialisation, truncation and what the strbuf reports\<close>

lemma strbuf_init_rel:
  assumes "0 < n" "n \<le> length m0"
  shows "\<exists>sb. strbuf_init (Some m0) (int n) = Some sb \<and> sb_rel (Some m0) (n - 1) [] sb"
  using assms
  by (auto simp: strbuf_init_def strbuf_reset_def sb_store_def mem_write_def sb_rel_def sb_text_def)

lemma strbuf_init_NULL_rel: "\<exists>sb. strbuf_init None 0 = Some sb \<and> sb_rel None SIZE_MAX [] sb"
  by (simp add: strbuf_init_def strbuf_reset_def sb_rel_def)

lemma sb_rel_observe:
  assumes "sb_rel buf e t sb"
  shows "strbuf_count sb = int (length t)" "strbuf_len sb = int (min e (length t))" "strbuf_size sb = int e + 1"
    "strbuf_remaining sb = int (e - length t)" "strbuf_overrun sb \<longleftrightarrow> e < length t"
  using assms
  by (auto simp: sb_rel_def strbuf_count_def strbuf_len_def strbuf_end_def strbuf_size_def strbuf_remaining_def
      strbuf_overrun_def)

definition trunc_length :: "nat \<Rightarrow> nat \<Rightarrow> int \<Rightarrow> nat" where
  "trunc_length e n offset = (if offset < 0 then nat (int (min e n) + offset) else min n (nat offset))"

lemma sb_text_trunc: "k \<le> length t \<Longrightarrow> e < length m0 \<Longrightarrow>
  sb_text (sb_text m0 e t) e (take k t) = (if k < e then (sb_text m0 e t)[k := NUL] else sb_text m0 e t)"
  by (auto simp: sb_text_def upd_conv_take_nth_drop min_def)

lemma strbuf_trunc_rel:
  assumes rel: "sb_rel (Some m0) e t sb"
  shows "\<exists>sb'. strbuf_trunc sb offset = Some sb' \<and>
    sb_rel (Some (sb_text m0 e t)) e (take (trunc_length e (length t) offset) t) sb'"
proof -
  define k where "k = trunc_length e (length t) offset"
  define sb1 where "sb1 = sb\<lparr>sb_current := int k\<rparr>"
  have cur: "strbuf_end sb = int (min e (length t))" "sb_current sb = int (length t)"
    using rel by (auto simp: strbuf_end_def sb_rel_def)
  have "sb1 = (if offset < 0
      then let e = strbuf_end sb in sb\<lparr>sb_current := (if offset \<le> - e then 0 else e + offset)\<rparr>
      else if offset < sb_current sb then sb\<lparr>sb_current := offset\<rparr> else sb)"
    unfolding sb1_def k_def trunc_length_def cur(1) Let_def
    using cur(2) by (cases sb) (auto simp: min_def)
  then have "strbuf_trunc sb offset = (if sb_room sb1 then sb_store sb1 (sb_current sb1) [NUL] else Some sb1)"
    by (simp only: strbuf_trunc_def Let_def)
  moreover have "k \<le> length t" by (auto simp: k_def trunc_length_def)
  ultimately show ?thesis
    using rel sb_text_trunc [of k t e m0]
    by (auto simp: k_def [symmetric] sb1_def sb_room_def sb_rel_def sb_store_def mem_write_def sb_text_length
        upd_conv_take_nth_drop)
qed

section \<open>Properties\<close>

datatype sb_op = Puts string | Putc char | Ncat string nat | Sprintf string | Tohex nat "byte list"

fun sb_apply :: "sb_op \<Rightarrow> strbuf \<Rightarrow> strbuf option" where
  "sb_apply (Puts x) sb = strbuf_puts sb x"
| "sb_apply (Putc c) sb = strbuf_putc sb c"
| "sb_apply (Ncat x len) sb = strbuf_ncat sb x len"
| "sb_apply (Sprintf x) sb = strbuf_sprintf sb x"
| "sb_apply (Tohex len data) sb = strbuf_tohex sb len data"

fun sb_ops :: "sb_op list \<Rightarrow> strbuf \<Rightarrow> strbuf option" where
  "sb_ops [] sb = Some sb"
| "sb_ops (op # ops) sb = sb_apply op sb \<bind> sb_ops ops"

fun sb_op_text :: "sb_op \<Rightarrow> string" where
  "sb_op_text (Puts x) = x"
| "sb_op_text (Putc c) = [c]"
| "sb_op_text (Ncat x len) = take len x"
| "sb_op_text (Sprintf x) = x"
| "sb_op_text (Tohex len data) = the (tohex len data)"

fun sb_op_ok :: "sb_op \<Rightarrow> bool" where
  "sb_op_ok (Ncat x len) \<longleftrightarrow> len \<le> length x"
| "sb_op_ok (Tohex len data) \<longleftrightarrow> len \<le> 2 * length data"
| "sb_op_ok _ \<longleftrightarrow> True"

lemma tohex_defined: "len \<le> 2 * length data \<Longrightarrow> \<exists>h. tohex len data = Some h"
  using tohex_hex_of [of 0 data] tohex_loop_take [of "2 * length data" 0 data "hex_of data" len]
  by (simp add: tohex_def)

lemma sb_apply_fun:
  "sb_apply (Puts x) = (\<lambda>sb. strbuf_puts sb x)" "sb_apply (Putc c) = (\<lambda>sb. strbuf_putc sb c)"
  "sb_apply (Ncat x len) = (\<lambda>sb. strbuf_ncat sb x len)" "sb_apply (Sprintf x) = (\<lambda>sb. strbuf_sprintf sb x)"
  "sb_apply (Tohex len data) = (\<lambda>sb. strbuf_tohex sb len data)"
  by (rule ext, simp)+

lemma sb_apply_appends: "sb_op_ok op \<Longrightarrow> appends (sb_apply op) (sb_op_text op)"
  by (cases op) (auto intro: appends_intros dest!: tohex_defined simp: sb_apply_fun)

lemma sb_ops_appends: "list_all sb_op_ok ops \<Longrightarrow> appends (sb_ops ops) (concat (map sb_op_text ops))"
proof (induction ops)
  case Nil
  then show ?case using appends_Some by (simp add: appends_def)
next
  case (Cons op ops)
  then show ?case
    using appends_bind [OF sb_apply_appends, of op "sb_ops ops"] by (simp add: appends_def)
qed

text \<open>
  (C11) A strbuf implements its contract. Whatever is appended to a buffer of \<open>n\<close> characters, the buffer
  holds the first \<open>n - 1\<close> characters of the concatenated texts and a NUL, nothing behind that NUL is
  touched, the count is that of all the characters, and the strbuf is overrun exactly if they did not
  fit. The same sequence on a NULL buffer gives the same count.
\<close>

theorem strbuf_refines:
  assumes "0 < n" and "n \<le> length m0" and "list_all sb_op_ok ops" and "t = concat (map sb_op_text ops)"
  shows "(\<exists>sb. strbuf_init (Some m0) (int n) \<bind> sb_ops ops = Some sb \<and>
      sb_start sb = Some (take (n - 1) t @ NUL # drop (Suc (min (n - 1) (length t))) m0) \<and>
      strbuf_count sb = int (length t) \<and> strbuf_len sb = int (min (n - 1) (length t)) \<and>
      strbuf_size sb = int n \<and> (strbuf_overrun sb \<longleftrightarrow> n \<le> length t)) \<and>
    (\<exists>sb. strbuf_init None 0 \<bind> sb_ops ops = Some sb \<and> strbuf_count sb = int (length t))"
proof
  obtain sb0 where sb0: "strbuf_init (Some m0) (int n) = Some sb0" "sb_rel (Some m0) (n - 1) [] sb0"
    using strbuf_init_rel [OF assms(1,2)] by blast
  obtain sb where sb: "sb_ops ops sb0 = Some sb" "sb_rel (Some m0) (n - 1) t sb"
    using appendsD [OF sb_ops_appends [OF assms(3)] sb0(2)] assms(4) by auto
  show "\<exists>sb. strbuf_init (Some m0) (int n) \<bind> sb_ops ops = Some sb \<and>
      sb_start sb = Some (take (n - 1) t @ NUL # drop (Suc (min (n - 1) (length t))) m0) \<and>
      strbuf_count sb = int (length t) \<and> strbuf_len sb = int (min (n - 1) (length t)) \<and>
      strbuf_size sb = int n \<and> (strbuf_overrun sb \<longleftrightarrow> n \<le> length t)"
    using sb0(1) sb sb_rel_text [OF sb(2)] sb_rel_observe [OF sb(2)] assms(1) by (auto simp: sb_text_def)
  show "\<exists>sb. strbuf_init None 0 \<bind> sb_ops ops = Some sb \<and> strbuf_count sb = int (length t)"
    using strbuf_init_NULL_rel appendsD [OF sb_ops_appends [OF assms(3)]] assms(4) sb_rel_observe(1) by fastforce
qed

theorem strbuf_refines_witness:
  "\<exists>sb. strbuf_init (Some ''abcdefgh'') 6 \<bind> sb_ops [Puts ''xy'', Putc CHR ''z'', Tohex 3 [0x1A, 0x2B]] = Some sb \<and>
     sb_start sb = Some (''xyz1A'' @ NUL # ''gh'') \<and> strbuf_overrun sb"
proof -
  have "tohex 3 [0x1A, 0x2B] = Some ''1A2''"
    by (simp add: tohex_def hexdigit_upper_def numeral_3_eq_3)
  then show ?thesis
    using strbuf_refines [of 6 "''abcdefgh''" "[Puts ''xy'', Putc CHR ''z'', Tohex 3 [0x1A, 0x2B]]" "''xyz1A2''"]
    by simp blast
qed

lemma takeWhile_NUL: "NUL \<notin> set xs \<Longrightarrow> takeWhile (\<lambda>c. c \<noteq> NUL) (xs @ NUL # ys) = xs"
  by (induction xs) auto

text \<open>
  (C39) \<open>strbuf_ncat\<close> counts the length it is given and not what it copies: with a text shorter than
  that, the count grows by more than \<open>min(strlen(text), len)\<close>, and what is appended next stands behind
  the NUL of that text, so it is not part of the string.
\<close>

theorem strbuf_ncat_counts_len:
  assumes rel: "sb_rel (Some m0) e t sb" and "length txt < len" and "length t + len < e" and "NUL \<notin> set (t @ txt)"
  shows "\<exists>sb' sb'' m. strbuf_ncat sb txt len = Some sb' \<and> strbuf_count sb' = strbuf_count sb + int len \<and>
    strbuf_puts sb' extra = Some sb'' \<and> sb_start sb'' = Some m \<and> takeWhile (\<lambda>c. c \<noteq> NUL) m = t @ txt"
proof -
  define m1 where "m1 = sb_text m0 e (t @ txt)"
  define sb' where "sb' = sb\<lparr>sb_start := Some m1, sb_current := int (length t + len)\<rparr>"
  have room: "e < length m0" "sb_room sb" using rel assms(3) by (simp_all add: sb_rel_def sb_room_def)
  have ncat: "strbuf_ncat sb txt len = Some sb'"
    using rel assms(2,3) sb_text_write [of t e m0 "txt"] room sb_rel_fit [OF rel, of "take len txt"]
    by (simp add: strbuf_ncat_def sb'_def m1_def sb_rel_def sb_store_def)
  have m1: "m1 = (t @ txt @ [NUL]) @ drop (Suc (length t + length txt)) m0" "length m1 = length m0"
    using assms(2,3) room by (simp_all add: m1_def sb_text_length) (simp add: sb_text_def)
  obtain rest where rest: "take (length t + len) m1 = (t @ txt) @ NUL # rest"
    using assms(2) unfolding m1(1) by (cases "len - length txt") simp_all
  define m where "m = take (length t + len) m1 @ sb_fit sb' extra @ NUL #
    drop (Suc (length t + len + length (sb_fit sb' extra))) m1"
  have "strbuf_puts sb' extra = Some (sb'\<lparr>sb_start := Some m, sb_current := int (length t + len + length extra)\<rparr>)"
    using rel assms(3) room m1(2)
    by (auto simp: strbuf_puts_def sb'_def sb_rel_def sb_room_def sb_store_def mem_write_def sb_fit_def m_def
        nat_add_distrib)
  moreover have "takeWhile (\<lambda>c. c \<noteq> NUL) m = t @ txt"
    unfolding m_def rest append_assoc [of "t @ txt"] append_Cons by (rule takeWhile_NUL) (rule assms(4))
  moreover have "strbuf_count sb' = strbuf_count sb + int len"
    using rel by (simp add: sb'_def strbuf_count_def sb_rel_def)
  ultimately show ?thesis using ncat by auto
qed

theorem strbuf_ncat_counts_len_witness:
  "\<exists>sb sb' sb'' m. strbuf_init (Some (replicate 20 CHR ''-'')) 20 = Some sb \<and> strbuf_ncat sb ''ab'' 5 = Some sb' \<and>
     strbuf_count sb' = strbuf_count sb + 5 \<and> strbuf_puts sb' ''cd'' = Some sb'' \<and> sb_start sb'' = Some m \<and>
     takeWhile (\<lambda>c. c \<noteq> NUL) m = ''ab''"
proof -
  obtain sb where "strbuf_init (Some (replicate 20 CHR ''-'')) 20 = Some sb"
      "sb_rel (Some (replicate 20 CHR ''-'')) 19 [] sb"
    using strbuf_init_rel [of 20 "replicate 20 CHR ''-''"] by auto
  then show ?thesis
    using strbuf_ncat_counts_len [of "replicate 20 CHR ''-''" 19 "[]" sb "''ab''" 5 "''cd''"] by simp
qed

end
