(* ===== verification/Str_Print.thy ===== *)
theory Str_Print
  imports Strbuf
begin

text \<open>
  Printable representations of arbitrary text: the \<open>toprint\<close> family of strbuf_helpers.c and str.c,
  which escapes what is not printable and marks truncation by three dots, \<open>strn_fromprint\<close>, which
  reads the representation back, and the quoting of words for a shell.
\<close>

section \<open>Printing\<close>

text \<open>\<open>%02x\<close> of a character.\<close>

definition hex02 :: "char \<Rightarrow> string" where
  "hex02 c = [hexdigit_lower ! (of_char c div 16), hexdigit_lower ! (of_char c mod 16)]"

definition toprint_char :: "strbuf \<Rightarrow> char \<Rightarrow> strbuf option" where
  "toprint_char sb c =
     (if c = NUL then strbuf_puts sb [CHR 0x5C, CHR ''0'']
      else if c = CHR 0x0A then strbuf_puts sb [CHR 0x5C, CHR ''n'']
      else if c = CHR 0x0D then strbuf_puts sb [CHR 0x5C, CHR ''r'']
      else if c = CHR 0x09 then strbuf_puts sb [CHR 0x5C, CHR ''t'']
      else if c = CHR 0x5C then strbuf_puts sb [CHR 0x5C, CHR 0x5C]
      else if 32 \<le> (of_char c :: nat) \<and> (of_char c :: nat) \<le> 126 then strbuf_putc sb c
      else strbuf_sprintf sb (CHR 0x5C # CHR ''x'' # hex02 c))"

definition sb_overrun_mark :: "strbuf \<Rightarrow> string \<Rightarrow> strbuf option" where
  "sb_overrun_mark sb mark =
     (if strbuf_overrun sb
      then do {
        sb \<leftarrow> strbuf_trunc sb (- int (length mark));
        strbuf_puts sb mark
      }
      else Some sb)"

definition sb_overrun_quote :: "strbuf \<Rightarrow> char \<Rightarrow> string \<Rightarrow> strbuf option" where
  "sb_overrun_quote sb quote mark =
     (if strbuf_overrun sb
      then do {
        sb \<leftarrow> strbuf_trunc sb (- int (length mark) - (if quote \<noteq> NUL then 1 else 0));
        sb \<leftarrow> (if quote \<noteq> NUL then strbuf_putc sb quote else Some sb);
        strbuf_puts sb mark
      }
      else Some sb)"

fun toprint_loop :: "strbuf \<Rightarrow> string \<Rightarrow> strbuf option" where
  "toprint_loop sb [] = Some sb"
| "toprint_loop sb (c # s) = (if strbuf_overrun sb then Some sb else toprint_char sb c \<bind> (\<lambda>sb. toprint_loop sb s))"

definition strbuf_toprint_len :: "strbuf \<Rightarrow> string \<Rightarrow> strbuf option" where
  "strbuf_toprint_len sb buf = toprint_loop sb buf \<bind> (\<lambda>sb. sb_overrun_mark sb ''...'')"

definition strbuf_toprint :: "strbuf \<Rightarrow> string \<Rightarrow> strbuf option" where
  "strbuf_toprint sb str = toprint_loop sb str \<bind> (\<lambda>sb. sb_overrun_mark sb ''...'')"

text \<open>The quotes are \<open>None\<close> for a NULL pointer.\<close>

fun toprint_quoted_loop :: "(char \<times> char) option \<Rightarrow> strbuf \<Rightarrow> string \<Rightarrow> strbuf option" where
  "toprint_quoted_loop quotes sb [] = Some sb"
| "toprint_quoted_loop quotes sb (c # s) =
     (if strbuf_overrun sb then Some sb
      else do {
        sb \<leftarrow> (if quotes \<noteq> None \<and> c = snd (the quotes)
               then strbuf_putc sb (CHR 0x5C) \<bind> (\<lambda>sb. strbuf_putc sb c)
               else toprint_char sb c);
        toprint_quoted_loop quotes sb s
      })"

definition strbuf_toprint_quoted_len :: "strbuf \<Rightarrow> (char \<times> char) option \<Rightarrow> string \<Rightarrow> strbuf option" where
  "strbuf_toprint_quoted_len sb quotes buf = do {
     sb \<leftarrow> (if quotes \<noteq> None \<and> fst (the quotes) \<noteq> NUL then strbuf_putc sb (fst (the quotes)) else Some sb);
     sb \<leftarrow> toprint_quoted_loop quotes sb buf;
     sb \<leftarrow> (if quotes \<noteq> None \<and> snd (the quotes) \<noteq> NUL then strbuf_putc sb (snd (the quotes)) else Some sb);
     sb_overrun_quote sb (case quotes of None \<Rightarrow> NUL | Some (_, q) \<Rightarrow> q) ''...''
   }"

definition strbuf_toprint_quoted :: "strbuf \<Rightarrow> (char \<times> char) option \<Rightarrow> string \<Rightarrow> strbuf option" where
  "strbuf_toprint_quoted sb quotes str = strbuf_toprint_quoted_len sb quotes str"

definition toprint :: "string \<Rightarrow> int \<Rightarrow> string \<Rightarrow> (char \<times> char) option \<Rightarrow> string option" where
  "toprint dstStr dstBufSiz srcBuf quotes = do {
     b \<leftarrow> strbuf_init (Some dstStr) dstBufSiz;
     b \<leftarrow> strbuf_toprint_quoted_len b quotes srcBuf;
     sb_start b
   }"

definition toprint_len :: "string \<Rightarrow> (char \<times> char) option \<Rightarrow> int option" where
  "toprint_len srcBuf quotes = do {
     b \<leftarrow> strbuf_init None 0;
     b \<leftarrow> strbuf_toprint_quoted_len b quotes srcBuf;
     Some (strbuf_count b)
   }"

definition toprint_str :: "string \<Rightarrow> int \<Rightarrow> string option \<Rightarrow> (char \<times> char) option \<Rightarrow> string option" where
  "toprint_str dstStr dstBufSiz srcStr quotes = do {
     b \<leftarrow> strbuf_init (Some dstStr) dstBufSiz;
     b \<leftarrow> (case srcStr of Some s \<Rightarrow> strbuf_toprint_quoted b quotes s | None \<Rightarrow> strbuf_puts b ''NULL'');
     sb_start b
   }"

definition toprint_str_len :: "string option \<Rightarrow> (char \<times> char) option \<Rightarrow> int option" where
  "toprint_str_len srcStr quotes =
     (case srcStr of
        Some s \<Rightarrow> do {
          b \<leftarrow> strbuf_init None 0;
          b \<leftarrow> strbuf_toprint_quoted b quotes s;
          Some (strbuf_count b)
        }
      | None \<Rightarrow> Some 4)"

fun append_argv_loop :: "nat \<Rightarrow> strbuf \<Rightarrow> string option list \<Rightarrow> strbuf option" where
  "append_argv_loop i sb [] = Some sb"
| "append_argv_loop i sb (a # argv) = do {
     sb \<leftarrow> (if i \<noteq> 0 then strbuf_putc sb (CHR '' '') else Some sb);
     sb \<leftarrow> (case a of Some s \<Rightarrow> strbuf_toprint_quoted sb (Some (CHR 0x22, CHR 0x22)) s | None \<Rightarrow> strbuf_puts sb ''NULL'');
     append_argv_loop (i + 1) sb argv
   }"

definition strbuf_append_argv :: "strbuf \<Rightarrow> string option list \<Rightarrow> strbuf option" where
  "strbuf_append_argv sb argv = append_argv_loop 0 sb argv"

section \<open>Words for a shell, and paths\<close>

definition is_shellmeta :: "char \<Rightarrow> bool" where
  "is_shellmeta c \<longleftrightarrow> \<not> (isalpha c \<or> isdigit c \<or> c \<in> set ''.-/:+_,'')"

fun shell_quote_loop :: "strbuf \<Rightarrow> string \<Rightarrow> strbuf option" where
  "shell_quote_loop sb [] = Some sb"
| "shell_quote_loop sb (c # s) = do {
     sb \<leftarrow> (if c = CHR 0x27 then strbuf_puts sb [CHR 0x27, CHR 0x5C, CHR 0x27, CHR 0x27] else strbuf_putc sb c);
     shell_quote_loop sb s
   }"

definition strbuf_append_shell_quote :: "strbuf \<Rightarrow> string \<Rightarrow> strbuf option" where
  "strbuf_append_shell_quote sb word = do {
     sb \<leftarrow> strbuf_putc sb (CHR 0x27);
     sb \<leftarrow> shell_quote_loop sb word;
     strbuf_putc sb (CHR 0x27)
   }"

definition strbuf_append_shell_quotemeta :: "strbuf \<Rightarrow> string \<Rightarrow> strbuf option" where
  "strbuf_append_shell_quotemeta sb word =
     (if word = [] \<or> list_ex is_shellmeta word then strbuf_append_shell_quote sb word else strbuf_puts sb word)"

fun strbuf_path_join :: "strbuf \<Rightarrow> string list \<Rightarrow> strbuf option" where
  "strbuf_path_join sb [] = Some sb"
| "strbuf_path_join sb (segment # segments) = do {
     sb \<leftarrow> (if deref segment = CHR ''/'' then strbuf_reset sb
            else if strbuf_len sb \<noteq> 0
            then do {
              i \<leftarrow> strbuf_substr sb (- 1);
              m \<leftarrow> sb_start sb;
              cs \<leftarrow> mem_read m (nat i) 1;
              if hd cs \<noteq> CHR ''/'' then strbuf_putc sb (CHR ''/'') else Some sb
            }
            else Some sb);
     sb \<leftarrow> strbuf_puts sb segment;
     strbuf_path_join sb segments
   }"

section \<open>Reading back\<close>

text \<open>
  The loop of \<open>strn_fromprint\<close>: \<open>room\<close> is \<open>edst - dst\<close>, \<open>left\<close> is \<open>esrc - src\<close> if a length was given, which an
  escape sequence can make negative.
\<close>

definition fromprint_escape :: "string \<Rightarrow> char \<times> string" where
  "fromprint_escape s =
     (case s of
        [] \<Rightarrow> (CHR 0x5C, [])
      | d # r \<Rightarrow>
          if d = NUL then (CHR 0x5C, d # r)
          else if d = CHR ''0'' then (NUL, r)
          else if d = CHR ''n'' then (CHR 0x0A, r)
          else if d = CHR ''r'' then (CHR 0x0D, r)
          else if d = CHR ''t'' then (CHR 0x09, r)
          else if d = CHR ''x'' \<and> 2 \<le> length r \<and> isxdigit (r ! 0) \<and> isxdigit (r ! 1)
          then (case fromhex r 1 of Some [b] \<Rightarrow> char_of (unat b) | _ \<Rightarrow> NUL, drop 2 r)
          else (d, r))"

lemma fromprint_escape_length: "length (snd (fromprint_escape s)) \<le> length s"
  by (auto simp: fromprint_escape_def split: list.splits)

function fromprint_loop :: "nat \<Rightarrow> int option \<Rightarrow> char \<Rightarrow> string \<Rightarrow> string \<times> string" where
  "fromprint_loop room left endquote src =
     (case src of
        [] \<Rightarrow> ([], [])
      | c # s \<Rightarrow>
          if (case left of None \<Rightarrow> False | Some n \<Rightarrow> n \<le> 0) \<or> c = NUL \<or> c = endquote \<or> room = 0 then ([], c # s)
          else if c = CHR 0x5C
          then let (d, r) = fromprint_escape s;
                   (ds, after) = fromprint_loop (room - 1) (map_option (\<lambda>n. n - int (length src - length r)) left) endquote r
               in (d # ds, after)
          else let (ds, after) = fromprint_loop (room - 1) (map_option (\<lambda>n. n - 1) left) endquote s
               in (c # ds, after))"
  by pat_completeness auto
termination
  by (relation "measure (\<lambda>(room, left, q, src). length src)")
    (auto simp: fromprint_escape_length less_Suc_eq_le dest!: arg_cong [where f = snd] intro: order_trans [OF _ fromprint_escape_length])

declare fromprint_loop.simps [simp del]

definition strn_fromprint :: "nat \<Rightarrow> string \<Rightarrow> nat \<Rightarrow> char \<Rightarrow> string \<times> string" where
  "strn_fromprint dstsiz src srclen endquote =
     fromprint_loop dstsiz (if srclen = 0 then None else Some (int srclen)) endquote src"

section \<open>The representation\<close>

definition print_char :: "char \<Rightarrow> string" where
  "print_char c =
     (if c = NUL then [CHR 0x5C, CHR ''0'']
      else if c = CHR 0x0A then [CHR 0x5C, CHR ''n'']
      else if c = CHR 0x0D then [CHR 0x5C, CHR ''r'']
      else if c = CHR 0x09 then [CHR 0x5C, CHR ''t'']
      else if c = CHR 0x5C then [CHR 0x5C, CHR 0x5C]
      else if 32 \<le> (of_char c :: nat) \<and> (of_char c :: nat) \<le> 126 then [c]
      else CHR 0x5C # CHR ''x'' # hex02 c)"

definition print_quoted :: "(char \<times> char) option \<Rightarrow> char \<Rightarrow> string" where
  "print_quoted quotes c = (if quotes \<noteq> None \<and> c = snd (the quotes) then [CHR 0x5C, c] else print_char c)"

definition quoted :: "(char \<times> char) option \<Rightarrow> string \<Rightarrow> string" where
  "quoted quotes s =
     (case quotes of None \<Rightarrow> [] | Some (q, _) \<Rightarrow> if q \<noteq> NUL then [q] else []) @
     concat (map (print_quoted quotes) s) @
     (case quotes of None \<Rightarrow> [] | Some (_, q) \<Rightarrow> if q \<noteq> NUL then [q] else [])"

lemma toprint_char_appends [appends_intros]: "appends (\<lambda>sb. toprint_char sb c) (print_char c)"
  by (auto simp: toprint_char_def print_char_def intro: appends_intros)

lemma quoted_char_appends:
  "appends (\<lambda>sb. if quotes \<noteq> None \<and> c = snd (the quotes)
      then strbuf_putc sb (CHR 0x5C) \<bind> (\<lambda>sb. strbuf_putc sb c) else toprint_char sb c) (print_quoted quotes c)"
proof (cases "quotes \<noteq> None \<and> c = snd (the quotes)")
  case True
  then show ?thesis
    using appends_bind [OF strbuf_putc_appends strbuf_putc_appends, of "CHR 0x5C" c] by (simp add: print_quoted_def)
qed (auto simp: print_quoted_def intro: appends_intros)

text \<open>The loop stops when the buffer overruns: what is appended is all of the text or an overrunning part of it.\<close>

lemma toprint_quoted_loop_rel:
  "sb_rel buf e t sb \<Longrightarrow>
   \<exists>sb' t' r. toprint_quoted_loop quotes sb s = Some sb' \<and> sb_rel buf e t' sb' \<and>
     t @ concat (map (print_quoted quotes) s) = t' @ r \<and> (r = [] \<or> e < length t')"
proof (induction s arbitrary: t sb)
  case Nil
  then show ?case by auto
next
  case (Cons c s)
  show ?case
  proof (cases "e < length t")
    case True
    then show ?thesis using Cons.prems sb_rel_observe(5) [OF Cons.prems] by auto
  next
    case False
    obtain sb1 where "(if quotes \<noteq> None \<and> c = snd (the quotes)
        then strbuf_putc sb (CHR 0x5C) \<bind> (\<lambda>sb. strbuf_putc sb c) else toprint_char sb c) = Some sb1"
        "sb_rel buf e (t @ print_quoted quotes c) sb1"
      using appendsD [OF quoted_char_appends Cons.prems] by blast
    then show ?thesis
      using Cons.IH [of "t @ print_quoted quotes c" sb1] False sb_rel_observe(5) [OF Cons.prems] by simp
  qed
qed

lemma opt_putc_appends: "appends (\<lambda>sb. if p then strbuf_putc sb q else Some sb) (if p then [q] else [])"
  by (simp add: strbuf_putc_appends appends_Some)

text \<open>Before the check for an overrun: \<open>t\<close> is the representation, or has overrun and starts like it.\<close>

lemma toprint_quoted_len_rel:
  assumes "sb_rel buf e [] sb"
  shows "\<exists>sb' t. strbuf_toprint_quoted_len sb quotes s = sb_overrun_quote sb' (case quotes of None \<Rightarrow> NUL | Some (_, q) \<Rightarrow> q) ''...'' \<and>
    sb_rel buf e t sb' \<and> take e t = take e (quoted quotes s) \<and>
    (t = quoted quotes s \<or> e < length t \<and> e < length (quoted quotes s))"
proof -
  define a where "a = (if quotes \<noteq> None \<and> fst (the quotes) \<noteq> NUL then [fst (the quotes)] else [])"
  define b where "b = (if quotes \<noteq> None \<and> snd (the quotes) \<noteq> NUL then [snd (the quotes)] else [])"
  define body where "body = concat (map (print_quoted quotes) s)"
  have q: "quoted quotes s = a @ body @ b"
    by (auto simp: quoted_def a_def b_def body_def split: option.splits)
  obtain sb1 where sb1: "(if quotes \<noteq> None \<and> fst (the quotes) \<noteq> NUL then strbuf_putc sb (fst (the quotes)) else Some sb) = Some sb1"
      "sb_rel buf e a sb1"
    using appendsD [OF opt_putc_appends assms] unfolding a_def append_Nil by blast
  obtain sb2 t r where sb2: "toprint_quoted_loop quotes sb1 s = Some sb2" "sb_rel buf e t sb2"
      "a @ body = t @ r" "r = [] \<or> e < length t"
    using toprint_quoted_loop_rel [OF sb1(2), of quotes s] unfolding body_def by blast
  obtain sb3 where sb3: "(if quotes \<noteq> None \<and> snd (the quotes) \<noteq> NUL then strbuf_putc sb2 (snd (the quotes)) else Some sb2) = Some sb3"
      "sb_rel buf e (t @ b) sb3"
    using appendsD [OF opt_putc_appends sb2(2)] unfolding b_def by blast
  have "strbuf_toprint_quoted_len sb quotes s = sb_overrun_quote sb3 (case quotes of None \<Rightarrow> NUL | Some (_, q) \<Rightarrow> q) ''...''"
    unfolding strbuf_toprint_quoted_len_def using sb1(1) sb2(1) sb3(1) by simp
  moreover have "take e (t @ b) = take e (quoted quotes s)" "t @ b = quoted quotes s \<or> e < length (t @ b) \<and> e < length (quoted quotes s)"
    using sb2(3,4) unfolding q append_assoc [symmetric] by auto
  ultimately show ?thesis using sb3(2) by blast
qed

lemma toprint_quoted_len_fits:
  assumes "sb_rel buf e [] sb" "length (quoted quotes s) \<le> e"
  shows "\<exists>sb'. strbuf_toprint_quoted_len sb quotes s = Some sb' \<and> sb_rel buf e (quoted quotes s) sb'"
proof -
  obtain sb' t where t: "strbuf_toprint_quoted_len sb quotes s = sb_overrun_quote sb' (case quotes of None \<Rightarrow> NUL | Some (_, q) \<Rightarrow> q) ''...''"
      "sb_rel buf e t sb'" "t = quoted quotes s \<or> e < length t \<and> e < length (quoted quotes s)"
    using toprint_quoted_len_rel [OF assms(1)] by blast
  then show ?thesis using assms(2) sb_rel_observe(5) [OF t(2)] by (auto simp: sb_overrun_quote_def)
qed

lemma toprint_quoted_len_overrun:
  assumes "sb_rel (Some m0) e [] sb" "e < length (quoted (Some (q0, q)) s)" "q \<noteq> NUL" "4 \<le> e"
  shows "\<exists>sb' m1. strbuf_toprint_quoted_len sb (Some (q0, q)) s = Some sb' \<and> length m1 = length m0 \<and>
    sb_rel (Some m1) e (take (e - 4) (quoted (Some (q0, q)) s) @ q # ''...'') sb'"
proof -
  obtain sb1 t where t: "strbuf_toprint_quoted_len sb (Some (q0, q)) s = sb_overrun_quote sb1 q ''...''"
      "sb_rel (Some m0) e t sb1" "take e t = take e (quoted (Some (q0, q)) s)" "e < length t"
    using toprint_quoted_len_rel [OF assms(1), of "Some (q0, q)" s] assms(2) by auto
  have "trunc_length e (length t) (- 4) = e - 4"
    using assms(4) t(4) by (simp add: trunc_length_def)
  then obtain sb2 where sb2: "strbuf_trunc sb1 (- 4) = Some sb2" "sb_rel (Some (sb_text m0 e t)) e (take (e - 4) t) sb2"
    using strbuf_trunc_rel [OF t(2), of "- 4"] by auto
  have "appends (\<lambda>sb. strbuf_putc sb q \<bind> (\<lambda>sb. strbuf_puts sb ''...'')) (q # ''...'')"
    using appends_bind [OF strbuf_putc_appends strbuf_puts_appends, of q "''...''"] by simp
  from appendsD [OF this sb2(2)] obtain sb3 where sb3: "strbuf_putc sb2 q \<bind> (\<lambda>sb. strbuf_puts sb ''...'') = Some sb3"
      "sb_rel (Some (sb_text m0 e t)) e (take (e - 4) t @ q # ''...'') sb3" by auto
  have "take (e - 4) t = take (e - 4) (quoted (Some (q0, q)) s)"
    using t(3) by (rule take_eq_mono) simp
  moreover have "sb_overrun_quote sb1 q ''...'' = Some sb3"
    using sb2(1) sb3(1) t(4) assms(3) sb_rel_observe(5) [OF t(2)] by (simp add: sb_overrun_quote_def)
  moreover have "length (sb_text m0 e t) = length m0"
    using assms(1) by (simp add: sb_text_length sb_rel_def)
  ultimately show ?thesis using t(1) sb3(2) by auto
qed

section \<open>Reading the representation back\<close>

lemma hex02_digits:
  shows "isxdigit (hexdigit_lower ! (of_char c div 16))" "isxdigit (hexdigit_lower ! (of_char c mod 16))"
    "fromhex (hex02 c @ s) 1 = Some [word_of_nat (of_char c)]"
proof -
  have c: "of_char c div 16 < (16 :: nat)" "of_char c mod 16 < (16 :: nat)"
    using nat_of_char_less_256 [of c] by (simp_all add: less_mult_imp_div_less)
  show x: "isxdigit (hexdigit_lower ! (of_char c div 16))" "isxdigit (hexdigit_lower ! (of_char c mod 16))"
    using hexvalue_lower [OF c(1)] hexvalue_lower [OF c(2)] hexvalue_minus_1 [of "hexdigit_lower ! (of_char c div 16)"]
      hexvalue_minus_1 [of "hexdigit_lower ! (of_char c mod 16)"] by simp_all
  have "strn_fromhex_loop 1 1 s = ([], s)"
    by (cases "(1 :: int, 1 :: nat, s)" rule: strn_fromhex_loop.cases) simp_all
  moreover have "int (of_char c div 16) * 16 + int (of_char c mod 16) = int (of_char c)"
    by (metis div_mult_mod_eq of_nat_add of_nat_mult of_nat_numeral)
  ultimately show "fromhex (hex02 c @ s) 1 = Some [word_of_nat (of_char c)]"
    using x by (simp add: fromhex_def strn_fromhex_def hex02_def hexvalue_minus_1 hexvalue_lower c)
qed

lemma char_of_unat_of_char: "char_of (unat (word_of_nat (of_char c) :: byte)) = c"
  using nat_of_char_less_256 [of c] by (simp add: unat_of_nat)

definition plain_quote :: "char \<Rightarrow> bool" where
  "plain_quote q \<longleftrightarrow> q \<notin> {NUL, CHR ''0'', CHR ''n'', CHR ''r'', CHR ''t'', CHR ''x'', CHR 0x5C}"

lemma fromprint_print_char:
  assumes "plain_quote q"
  shows "fromprint_loop (Suc room) None q (print_quoted (Some (q0, q)) c @ s) =
    (let (ds, after) = fromprint_loop room None q s in (c # ds, after))"
proof -
  have q: "CHR 0x5C \<noteq> q" using assms by (auto simp: plain_quote_def)
  have esc: "fromprint_loop (Suc room) None q (CHR 0x5C # u @ s) = (let (ds, after) = fromprint_loop room None q s in (d # ds, after))"
    if "fromprint_escape (u @ s) = (d, s)" for u d
    using that q by (subst fromprint_loop.simps) simp
  have e: "fromprint_escape (CHR ''0'' # s) = (NUL, s)" "fromprint_escape (CHR ''n'' # s) = (CHR 0x0A, s)"
      "fromprint_escape (CHR ''r'' # s) = (CHR 0x0D, s)" "fromprint_escape (CHR ''t'' # s) = (CHR 0x09, s)"
      "fromprint_escape (CHR 0x5C # s) = (CHR 0x5C, s)" "fromprint_escape (q # s) = (q, s)"
      "fromprint_escape (CHR ''x'' # hex02 d @ s) = (d, s)" for d
    using assms hex02_digits [of d] char_of_unat_of_char [of d]
    by (simp_all add: fromprint_escape_def plain_quote_def) (simp add: hex02_def)
  have plain: "fromprint_loop (Suc room) None q (c # s) = (let (ds, after) = fromprint_loop room None q s in (c # ds, after))"
    if "c \<noteq> CHR 0x5C" "c \<noteq> q" "c \<noteq> NUL"
    using that by (subst fromprint_loop.simps) simp
  show ?thesis
    using esc [of "[CHR ''0'']"] esc [of "[CHR ''n'']"] esc [of "[CHR ''r'']"] esc [of "[CHR ''t'']"] esc [of "[CHR 0x5C]"]
      esc [of "[q]"] esc [of "CHR ''x'' # hex02 c"] e plain
    by (simp add: print_quoted_def print_char_def)
qed

lemma fromprint_print:
  assumes "plain_quote q" "length s \<le> room"
  shows "fromprint_loop room None q (concat (map (print_quoted (Some (q0, q))) s) @ q # u) = (s, q # u)"
  using assms(2)
proof (induction s arbitrary: room)
  case Nil
  then show ?case by (simp add: fromprint_loop.simps)
next
  case (Cons c s)
  then show ?case
    by (cases room) (simp_all add: fromprint_print_char [OF assms(1)])
qed

section \<open>What a shell reads\<close>

text \<open>
  A word of the POSIX shell, by the standard's section on quoting: the characters it lists as having a
  special meaning, always or in some places, with those of reserved words and bracket expressions
  added. Outside quotes a backslash quotes the next character, and a word with any other special
  character is not read literally; inside single quotes everything up to the next one is literal.
\<close>

definition sh_special :: "char \<Rightarrow> bool" where
  "sh_special c \<longleftrightarrow> c \<in> set ''|&;<>()$ *?[]#~=%!{}^'' \<or> c \<in> {CHR 0x09, CHR 0x0A, CHR 0x22, CHR 0x27, CHR 0x5C, CHR 0x60}"

fun sh_word :: "bool \<Rightarrow> string \<Rightarrow> string option" where
  "sh_word False [] = Some []"
| "sh_word True [] = None"
| "sh_word True (c # s) = (if c = CHR 0x27 then sh_word False s else map_option ((#) c) (sh_word True s))"
| "sh_word False [c] = (if sh_special c then None else Some [c])"
| "sh_word False (c # d # s) =
     (if c = CHR 0x27 then sh_word True (d # s)
      else if c = CHR 0x5C then map_option ((#) d) (sh_word False s)
      else if sh_special c then None
      else map_option ((#) c) (sh_word False (d # s)))"

definition shell_quoted :: "string \<Rightarrow> string" where
  "shell_quoted w = concat (map (\<lambda>c. if c = CHR 0x27 then [CHR 0x27, CHR 0x5C, CHR 0x27, CHR 0x27] else [c]) w)"

lemma shell_quoted_simps [simp]:
  "shell_quoted [] = []"
  "shell_quoted (c # w) = (if c = CHR 0x27 then [CHR 0x27, CHR 0x5C, CHR 0x27, CHR 0x27] else [c]) @ shell_quoted w"
  by (simp_all add: shell_quoted_def)

lemma sh_word_quoted: "sh_word True (shell_quoted w @ [CHR 0x27]) = Some w"
proof (induction w)
  case (Cons c w)
  obtain d s where "shell_quoted w @ [CHR 0x27] = d # s"
    by (cases "shell_quoted w @ [CHR 0x27]") auto
  then show ?case using Cons by auto
qed simp

lemma special_is_meta: "sh_special c \<Longrightarrow> is_shellmeta c"
  by (auto simp: sh_special_def is_shellmeta_def isalpha_def isdigit_def uppers_def lowers_def digits_def)

lemma sh_word_plain: "\<not> list_ex is_shellmeta w \<Longrightarrow> sh_word False w = Some w"
proof (induction w)
  case (Cons c w)
  have "\<not> is_shellmeta c" using Cons.prems by simp
  then have "\<not> sh_special c" using special_is_meta by blast
  moreover have "c \<noteq> CHR 0x27" "c \<noteq> CHR 0x5C" using calculation by (auto simp: sh_special_def)
  ultimately show ?case using Cons by (cases w) auto
qed simp

lemma shell_quote_loop_appends: "appends (\<lambda>sb. shell_quote_loop sb w) (shell_quoted w)"
proof (induction w)
  case Nil
  then show ?case using appends_Some by (simp add: appends_def)
next
  case (Cons c w)
  have "appends (\<lambda>sb. if c = CHR 0x27 then strbuf_puts sb [CHR 0x27, CHR 0x5C, CHR 0x27, CHR 0x27] else strbuf_putc sb c)
      (if c = CHR 0x27 then [CHR 0x27, CHR 0x5C, CHR 0x27, CHR 0x27] else [c])"
    by (auto intro: appends_intros)
  from appends_bind [OF this Cons.IH] show ?case by (simp add: appends_def)
qed

section \<open>Properties\<close>

text \<open>
  (C20) \<open>toprint\<close> and \<open>strn_fromprint\<close> are inverse. \<open>toprint_len\<close> is the length of the representation; a
  destination one larger receives all of it, whatever it held; and reading it after the opening quote, up to the closing
  one, returns the original bytes, NULs and non-printable ones included. The closing quote must not
  be a character that has a meaning after a backslash.
\<close>

theorem toprint_roundtrip:
  assumes "plain_quote q" and "q0 \<noteq> NUL" and "length (quoted (Some (q0, q)) s) \<le> SIZE_MAX"
    and "toprint_len s (Some (q0, q)) = Some n" and "nat n < length dst" and "length s \<le> dstsiz"
  shows "\<exists>r rest. toprint dst (n + 1) s (Some (q0, q)) = Some (q0 # r @ q # NUL # rest) \<and>
    int (length r) + 2 = n \<and> strn_fromprint dstsiz (r @ [q]) 0 q = (s, [q])"
proof -
  have qn: "q \<noteq> NUL" using assms(1) by (auto simp: plain_quote_def)
  define r where "r = concat (map (print_quoted (Some (q0, q))) s)"
  have quo: "quoted (Some (q0, q)) s = q0 # r @ [q]"
    using assms(2) qn by (simp add: quoted_def r_def)
  obtain b where b: "strbuf_init None 0 = Some b" "sb_rel None SIZE_MAX [] b"
    using strbuf_init_NULL_rel by blast
  have n: "n = int (length r) + 2"
    using assms(3,4) toprint_quoted_len_fits [OF b(2) assms(3)] b(1) sb_rel_observe(1) quo
    by (auto simp: toprint_len_def)
  obtain d where d: "strbuf_init (Some dst) (n + 1) = Some d" "sb_rel (Some dst) (nat n) [] d"
    using strbuf_init_rel [of "nat n + 1" dst] assms(5) n by (auto simp: add.commute)
  have "length (quoted (Some (q0, q)) s) \<le> nat n" using n quo by simp
  from toprint_quoted_len_fits [OF d(2) this] obtain d' where
    d': "strbuf_toprint_quoted_len d (Some (q0, q)) s = Some d'" "sb_rel (Some dst) (nat n) (q0 # r @ [q]) d'"
    unfolding quo by blast
  have "sb_start d' = Some (q0 # r @ q # NUL # drop (Suc (nat n)) dst)"
    using sb_rel_text [OF d'(2)] n by (simp add: sb_text_def nat_add_distrib)
  then have "toprint dst (n + 1) s (Some (q0, q)) = Some (q0 # r @ q # NUL # drop (Suc (nat n)) dst)"
    using d(1) d'(1) by (simp add: toprint_def)
  moreover have "strn_fromprint dstsiz (r @ [q]) 0 q = (s, [q])"
    using fromprint_print [OF assms(1,6), of q0 "[]"] by (simp add: strn_fromprint_def r_def)
  ultimately show ?thesis using n by auto
qed

text \<open>
  (C40) What does not fit is marked: if the representation is longer than a destination of \<open>n\<close> characters allows, the
  destination holds its first \<open>n - 5\<close> characters, the closing quote and three dots, and no byte behind
  the \<open>n\<close> characters is written.
\<close>

theorem toprint_truncates:
  assumes "n \<le> length (quoted (Some (q0, q)) s)" and "q \<noteq> NUL" and "5 \<le> n" and "n \<le> length dst"
  shows "\<exists>rest. toprint dst (int n) s (Some (q0, q)) =
    Some (take (n - 5) (quoted (Some (q0, q)) s) @ q # ''...'' @ NUL # rest) \<and> length rest = length dst - n"
proof -
  obtain d where d: "strbuf_init (Some dst) (int n) = Some d" "sb_rel (Some dst) (n - 1) [] d"
    using strbuf_init_rel [of n dst] assms(3,4) by auto
  have n: "n - 1 < length (quoted (Some (q0, q)) s)" "4 \<le> n - 1" "n - 1 - 4 = n - 5"
    using assms(1,3) by linarith+
  obtain d' m1 where d': "strbuf_toprint_quoted_len d (Some (q0, q)) s = Some d'" "length m1 = length dst"
      "sb_rel (Some m1) (n - 1) (take (n - 5) (quoted (Some (q0, q)) s) @ q # ''...'') d'"
    using toprint_quoted_len_overrun [OF d(2) n(1) assms(2) n(2)] unfolding n(3) by blast
  have "length (take (n - 5) (quoted (Some (q0, q)) s) @ q # ''...'') = n - 1"
    using assms(1,3) by simp
  then have "sb_start d' = Some (take (n - 5) (quoted (Some (q0, q)) s) @ q # ''...'' @ NUL # drop n m1)"
    using sb_rel_text [OF d'(3)] assms(3) by (simp add: sb_text_def)
  then show ?thesis using d(1) d'(1,2) by (simp add: toprint_def)
qed

theorem toprint_roundtrip_witness:
  "\<exists>r rest. toprint (replicate 9 CHR ''-'') 8 [CHR 0x0A, CHR ''a'', CHR 0x22] (Some (CHR 0x22, CHR 0x22)) =
     Some (CHR 0x22 # r @ CHR 0x22 # NUL # rest) \<and> int (length r) + 2 = 7 \<and>
     strn_fromprint 3 (r @ [CHR 0x22]) 0 (CHR 0x22) = ([CHR 0x0A, CHR ''a'', CHR 0x22], [CHR 0x22])"
proof -
  have q: "quoted (Some (CHR 0x22, CHR 0x22)) [CHR 0x0A, CHR ''a'', CHR 0x22] =
      [CHR 0x22, CHR 0x5C, CHR ''n'', CHR ''a'', CHR 0x5C, CHR 0x22, CHR 0x22]"
    by (simp add: quoted_def print_quoted_def print_char_def)
  have "toprint_len [CHR 0x0A, CHR ''a'', CHR 0x22] (Some (CHR 0x22, CHR 0x22)) = Some 7"
    using strbuf_init_NULL_rel toprint_quoted_len_fits [of None SIZE_MAX _ "Some (CHR 0x22, CHR 0x22)" "[CHR 0x0A, CHR ''a'', CHR 0x22]"]
      sb_rel_observe(1) [of None SIZE_MAX "quoted (Some (CHR 0x22, CHR 0x22)) [CHR 0x0A, CHR ''a'', CHR 0x22]"] SIZE_MAX_large
    by (fastforce simp: toprint_len_def q)
  then show ?thesis
    using toprint_roundtrip [of "CHR 0x22" "CHR 0x22" "[CHR 0x0A, CHR ''a'', CHR 0x22]" 7 "replicate 9 CHR ''-''" 3]
      SIZE_MAX_large q by (simp add: plain_quote_def)
qed

theorem toprint_truncates_witness:
  "\<exists>rest. toprint (replicate 9 CHR ''-'') 8 ''abcdefgh'' (Some (CHR 0x22, CHR 0x22)) =
     Some ([CHR 0x22, CHR ''a'', CHR ''b'', CHR 0x22] @ ''...'' @ NUL # rest) \<and> length rest = 1"
proof -
  have q: "quoted (Some (CHR 0x22, CHR 0x22)) ''abcdefgh'' = CHR 0x22 # ''abcdefgh'' @ [CHR 0x22]"
    by (simp add: quoted_def print_quoted_def print_char_def)
  show ?thesis
    using toprint_truncates [of 8 "CHR 0x22" "CHR 0x22" "''abcdefgh''" "replicate 9 CHR ''-''"] by (simp add: q)
qed

text \<open>
  \<open>strbuf_append_shell_quotemeta\<close> appends one shell word that a POSIX shell reads, as an argument, as exactly the given
  word, whatever characters it contains, the empty word included.
\<close>

theorem shell_quotemeta_correct:
  "\<exists>x. appends (\<lambda>sb. strbuf_append_shell_quotemeta sb word) x \<and> x \<noteq> [] \<and> sh_word False x = Some word"
proof (cases "word = [] \<or> list_ex is_shellmeta word")
  case True
  have "appends (\<lambda>sb. strbuf_append_shell_quotemeta sb word) (CHR 0x27 # shell_quoted word @ [CHR 0x27])"
    using True appends_bind [OF strbuf_putc_appends appends_bind [OF shell_quote_loop_appends strbuf_putc_appends],
        of "CHR 0x27" word "CHR 0x27"]
    by (simp add: strbuf_append_shell_quotemeta_def strbuf_append_shell_quote_def)
  moreover have "sh_word False (CHR 0x27 # shell_quoted word @ [CHR 0x27]) = Some word"
    using sh_word_quoted [of word] by (cases "shell_quoted word @ [CHR 0x27]") simp_all
  ultimately show ?thesis by blast
next
  case False
  then show ?thesis
    using strbuf_puts_appends [of word] sh_word_plain [of word] by (auto simp: strbuf_append_shell_quotemeta_def)
qed

end
