(* ===== verification/Str_Numbers.thy ===== *)
theory Str_Numbers
  imports Strbuf
begin

text \<open>
  Numbers in text (str.c): unsigned and signed integers in a radix up to 16, integers with a scale
  suffix, and time intervals in seconds with up to three decimals.

  A parser returns the number, or \<open>None\<close> where the C function returns 0, and the position it stores
  in \<open>*afterp\<close>; the argument \<open>afterp\<close> tells whether that pointer is given. Values are words of the
  width of the C type, so that wrap-around is the code's.
\<close>

section \<open>Unsigned integers\<close>

text \<open>
  The loop that the three functions share: \<open>ov\<close> is their overflow test, \<open>lft\<close> the number of
  characters left if a length was given.
\<close>

fun uint_loop :: "('a::len word \<Rightarrow> 'a word \<Rightarrow> bool) \<Rightarrow> nat \<Rightarrow> nat option \<Rightarrow> string \<Rightarrow> 'a word \<Rightarrow> 'a word \<Rightarrow>
    'a word \<times> 'a word \<times> string" where
  "uint_loop ov base lft [] val newvalue = (val, newvalue, [])"
| "uint_loop ov base lft (c # s) val newvalue =
     (if lft = Some 0 then (val, newvalue, c # s)
      else let digit = hexvalue c
           in if digit < 0 \<or> nat digit \<ge> base then (val, newvalue, c # s)
              else let newvalue = val * of_nat base + of_nat (nat digit)
                   in if ov newvalue val then (val, newvalue, c # s)
                      else uint_loop ov base (map_option (\<lambda>n. n - 1) lft) s newvalue newvalue)"

definition uint_result :: "string \<Rightarrow> nat \<Rightarrow> bool \<Rightarrow> 'a word \<times> 'a word \<times> string \<Rightarrow> 'a::len word option \<times> string" where
  "uint_result str len afterp =
     (\<lambda>(val, newvalue, s).
        (if s = str \<or> val \<noteq> newvalue \<or>
            (\<not> afterp \<and> (if len \<noteq> 0 then length str - length s \<noteq> len else deref s \<noteq> NUL))
         then None else Some val, s))"

definition strn_to_uint16 :: "string \<Rightarrow> nat \<Rightarrow> nat \<Rightarrow> bool \<Rightarrow> (uint16 option \<times> string) option" where
  "strn_to_uint16 str len base afterp = do {
     assert (0 < base \<and> base \<le> 16);
     Some (uint_result str len afterp
       (uint_loop (\<lambda>newvalue val. newvalue div of_nat base \<noteq> val) base (if len = 0 then None else Some len) str 0 0))
   }"

definition str_to_uint16 :: "string \<Rightarrow> nat \<Rightarrow> bool \<Rightarrow> (uint16 option \<times> string) option" where
  "str_to_uint16 str base afterp = strn_to_uint16 str 0 base afterp"

definition strn_to_uint32 :: "string \<Rightarrow> nat \<Rightarrow> nat \<Rightarrow> bool \<Rightarrow> (uint32 option \<times> string) option" where
  "strn_to_uint32 str len base afterp = do {
     assert (0 < base \<and> base \<le> 16);
     Some (uint_result str len afterp
       (uint_loop (\<lambda>newvalue val. newvalue < val) base (if len = 0 then None else Some len) str 0 0))
   }"

definition str_to_uint32 :: "string \<Rightarrow> nat \<Rightarrow> bool \<Rightarrow> (uint32 option \<times> string) option" where
  "str_to_uint32 str base afterp = strn_to_uint32 str 0 base afterp"

definition strn_to_uint64 :: "string \<Rightarrow> nat \<Rightarrow> nat \<Rightarrow> bool \<Rightarrow> (uint64 option \<times> string) option" where
  "strn_to_uint64 str len base afterp = do {
     assert (0 < base \<and> base \<le> 16);
     Some (uint_result str len afterp
       (uint_loop (\<lambda>newvalue val. newvalue < val) base (if len = 0 then None else Some len) str 0 0))
   }"

definition str_to_uint64 :: "string \<Rightarrow> nat \<Rightarrow> bool \<Rightarrow> (uint64 option \<times> string) option" where
  "str_to_uint64 str base afterp = strn_to_uint64 str 0 base afterp"

definition str_is_uint64_decimal :: "string \<Rightarrow> bool option" where
  "str_is_uint64_decimal str = map_option (\<lambda>(r, _). r \<noteq> None) (str_to_uint64 str 10 False)"

section \<open>Signed integers\<close>

text \<open>
  \<open>strtol\<close> and its variants: white space, a sign, a prefix where the base is 16 or given by the
  text, and digits. The result is the sign, the magnitude and the rest, or \<open>None\<close> without digits.
\<close>

definition strto_digit :: "char \<Rightarrow> nat" where
  "strto_digit c =
     (case map_of (zip (digits @ uppers) [0..<36] @ zip lowers [10..<36]) c of Some d \<Rightarrow> d | None \<Rightarrow> 36)"

definition strto_prefix :: "nat \<Rightarrow> string \<Rightarrow> nat \<times> string" where
  "strto_prefix base s =
     (if (base = 0 \<or> base = 16) \<and> 3 \<le> length s \<and> s ! 0 = CHR ''0'' \<and> s ! 1 \<in> set ''xX'' \<and> strto_digit (s ! 2) < 16
      then (16, drop 2 s)
      else (if base \<noteq> 0 then base else if deref s = CHR ''0'' then 8 else 10, s))"

definition strto_scan :: "nat \<Rightarrow> string \<Rightarrow> (bool \<times> nat \<times> string) option" where
  "strto_scan base str =
     (let s = dropWhile isspace str;
          neg = (deref s = CHR ''-'');
          (b, s) = strto_prefix base (if deref s \<in> set ''+-'' then tl s else s);
          ds = takeWhile (\<lambda>c. strto_digit c < b) s
      in if ds = [] then None
         else Some (neg, foldl (\<lambda>v c. v * b + strto_digit c) 0 ds, drop (length ds) s))"

text \<open>\<open>strtoll\<close>: the value, whether it was out of range, and the end, which is the start without digits.\<close>

definition strtoll :: "nat \<Rightarrow> string \<Rightarrow> int \<times> bool \<times> string" where
  "strtoll base str =
     (case strto_scan base str of
        None \<Rightarrow> (0, False, str)
      | Some (neg, n, after) \<Rightarrow>
          if neg then (if n \<le> 2 ^ 63 then (- int n, False, after) else (- (2 ^ 63), True, after))
          else (if n < 2 ^ 63 then (int n, False, after) else (2 ^ 63 - 1, True, after)))"

definition strtoull :: "nat \<Rightarrow> string \<Rightarrow> uint64 \<times> string" where
  "strtoull base str =
     (case strto_scan base str of
        None \<Rightarrow> (0, str)
      | Some (neg, n, after) \<Rightarrow>
          if n < 2 ^ 64 then (if neg then - of_nat n else of_nat n, after) else (- 1, after))"

text \<open>The position is \<open>None\<close> where \<open>*afterp\<close> is left alone.\<close>

definition str_to_int32 :: "string \<Rightarrow> nat \<Rightarrow> bool \<Rightarrow> int option \<times> string option" where
  "str_to_int32 str base afterp =
     (if isspace (deref str) then (None, None)
      else let (val, erange, end) = strtoll base str
           in (if erange \<or> end = str \<or> 2 ^ 31 - 1 < val \<or> val < - (2 ^ 31) \<or> isdigit (deref end) \<or>
                  (\<not> afterp \<and> deref end \<noteq> NUL)
               then None else Some val, Some end))"

definition str_to_int64 :: "string \<Rightarrow> nat \<Rightarrow> bool \<Rightarrow> int option \<times> string option" where
  "str_to_int64 str base afterp =
     (if isspace (deref str) then (None, None)
      else let (val, erange, end) = strtoll base str
           in (if erange \<or> end = str \<or> isdigit (deref end) \<or> (\<not> afterp \<and> deref end \<noteq> NUL)
               then None else Some val, Some end))"

section \<open>Scaled integers\<close>

definition scale_factors :: "(char \<times> uint64) list" where
  "scale_factors =
     [(CHR ''G'', 1024 * 1024 * 1024), (CHR ''g'', 1000 * 1000 * 1000), (CHR ''M'', 1024 * 1024),
      (CHR ''m'', 1000 * 1000), (CHR ''K'', 1024), (CHR ''k'', 1000)]"

definition scale_factor :: "string \<Rightarrow> bool \<Rightarrow> uint64 \<times> string" where
  "scale_factor str afterp =
     (let (factor, str) = (case map_of scale_factors (deref str) of Some f \<Rightarrow> (f, tl str) | None \<Rightarrow> (1, str))
      in (if \<not> afterp \<and> deref str \<noteq> NUL then 0 else factor, str))"

definition str_to_uint64_scaled :: "string \<Rightarrow> nat \<Rightarrow> bool \<Rightarrow> (uint64 option \<times> string) option" where
  "str_to_uint64_scaled str base afterp = do {
     (r, end) \<leftarrow> str_to_uint64 str base True;
     case r of
       None \<Rightarrow> Some (None, end)
     | Some val \<Rightarrow>
         let (factor, end) = scale_factor end True
         in Some (if \<not> afterp \<and> deref end \<noteq> NUL then None else Some (val * factor), end)
   }"

definition str_to_uint32_scaled :: "string \<Rightarrow> nat \<Rightarrow> bool \<Rightarrow> (uint32 option \<times> string) option" where
  "str_to_uint32_scaled str base afterp = do {
     (r, end) \<leftarrow> str_to_uint32 str base True;
     case r of
       None \<Rightarrow> Some (None, end)
     | Some val \<Rightarrow>
         let (factor, end) = scale_factor end True
         in Some (if \<not> afterp \<and> deref end \<noteq> NUL then None else Some (ucast (ucast val * factor)), end)
   }"

text \<open>The product is computed in \<open>uint64_t\<close> and stored in an \<open>int64_t\<close>.\<close>

definition str_to_int64_scaled :: "string \<Rightarrow> nat \<Rightarrow> bool \<Rightarrow> int option \<times> string option" where
  "str_to_int64_scaled str base afterp =
     (case str_to_int64 str base True of
        (None, end) \<Rightarrow> (None, Some (case end of None \<Rightarrow> str | Some e \<Rightarrow> e))
      | (Some val, end) \<Rightarrow>
          let (factor, end) = scale_factor (case end of None \<Rightarrow> str | Some e \<Rightarrow> e) True
          in (if \<not> afterp \<and> deref end \<noteq> NUL then None else Some (sint (word_of_int val * factor)), Some end))"

text \<open>\<open>%llu\<close> and \<open>%lu\<close>.\<close>

fun dec_of_nat :: "nat \<Rightarrow> string" where
  "dec_of_nat n = (if n < 10 then [hexdigit_upper ! n] else dec_of_nat (n div 10) @ [hexdigit_upper ! (n mod 10)])"

declare dec_of_nat.simps [simp del]

text \<open>The loop over the table: the first factor that divides the value, and its symbol.\<close>

fun find_scale :: "(char \<times> uint64) list \<Rightarrow> uint64 \<Rightarrow> uint64 \<times> char" where
  "find_scale [] val = (val, NUL)"
| "find_scale ((symbol, factor) # fs) val = (if val mod factor = 0 then (val div factor, symbol) else find_scale fs val)"

definition uint64_scaled_to_str :: "string \<Rightarrow> nat \<Rightarrow> uint64 \<Rightarrow> (string \<times> bool) option" where
  "uint64_scaled_to_str str len val =
     (let (val, symbol) = find_scale scale_factors val
      in do {
        b \<leftarrow> strbuf_init (Some str) (int len);
        b \<leftarrow> strbuf_sprintf b (dec_of_nat (unat val));
        b \<leftarrow> (if symbol \<noteq> NUL then strbuf_putc b symbol else Some b);
        str \<leftarrow> sb_start b;
        Some (str, \<not> strbuf_overrun b)
      })"

definition uint32_scaled_to_str :: "string \<Rightarrow> nat \<Rightarrow> uint32 \<Rightarrow> (string \<times> bool) option" where
  "uint32_scaled_to_str str len val =
     (let (val, symbol) = find_scale scale_factors (ucast val)
      in do {
        b \<leftarrow> strbuf_init (Some str) (int len);
        b \<leftarrow> strbuf_sprintf b (dec_of_nat (unat val));
        b \<leftarrow> (if symbol \<noteq> NUL then strbuf_putc b symbol else Some b);
        str \<leftarrow> sb_start b;
        Some (str, \<not> strbuf_overrun b)
      })"

section \<open>Time intervals\<close>

fun interval_loop :: "nat \<Rightarrow> string \<Rightarrow> uint64 \<Rightarrow> uint64 \<times> string" where
  "interval_loop factor [] val = (val, [])"
| "interval_loop factor (c # s) val =
     (if isdigit c \<and> factor \<noteq> 0
      then interval_loop (factor div 10) s (val + of_nat ((of_char c - 48) * factor))
      else (val, c # s))"

definition str_to_uint64_interval_ms :: "string \<Rightarrow> bool \<Rightarrow> int option \<times> string option" where
  "str_to_uint64_interval_ms str afterp =
     (if isspace (deref str) then (None, None)
      else let (n, end) = strtoull 10 str; val = n * 1000
           in if end = str then (None, Some end)
              else let (val, end) =
                     (if deref end = CHR ''.'' \<and> isdigit (deref (tl end)) then interval_loop 100 (tl end) val else (val, end))
                   in (if \<not> afterp \<and> deref end \<noteq> NUL then None else Some (sint val), Some end))"

section \<open>The value of a numeral\<close>

definition radix_digit :: "nat \<Rightarrow> char \<Rightarrow> bool" where
  "radix_digit base c \<longleftrightarrow> 0 \<le> hexvalue c \<and> nat (hexvalue c) < base"

definition radix_step :: "nat \<Rightarrow> nat \<Rightarrow> char \<Rightarrow> nat" where
  "radix_step base v c = v * base + nat (hexvalue c)"

definition radix_value :: "nat \<Rightarrow> string \<Rightarrow> nat" where
  "radix_value base ds = foldl (radix_step base) 0 ds"

lemma radix_step_mono: "0 < b \<Longrightarrow> v \<le> foldl (radix_step b) v ds"
proof (induction ds arbitrary: v)
  case (Cons c ds)
  have "v \<le> radix_step b v c" using Cons.prems by (simp add: radix_step_def trans_le_add1)
  also have "\<dots> \<le> foldl (radix_step b) (radix_step b v c) ds" using Cons by simp
  finally show ?case by simp
qed simp

definition limit_to :: "nat option \<Rightarrow> string \<Rightarrow> string" where
  "limit_to lft s = (case lft of None \<Rightarrow> s | Some n \<Rightarrow> take n s)"

lemma limit_to_simps [simp]:
  "limit_to None s = s" "limit_to (Some 0) s = []" "limit_to (Some n) s = take n s"
  "lft \<noteq> Some 0 \<Longrightarrow> limit_to lft (c # s) = c # limit_to (map_option (\<lambda>n. n - 1) lft) s"
  by (auto simp: limit_to_def take_Cons' split: option.splits)

lemma unat_bound: "\<not> 2 ^ LENGTH('a) \<le> unat v" for v :: "'a::len word"
  using unsigned_less [of v] by (simp add: not_le)

section \<open>The contract of an overflow test\<close>

text \<open>No alarm for a value that fits; the test is \<open>exact\<close> if there is one for every value that does not.\<close>

locale uint_parser =
  fixes ov :: "nat \<Rightarrow> 'a::len word \<Rightarrow> 'a word \<Rightarrow> bool"
  assumes no_alarm: "0 < b \<Longrightarrow> b \<le> 16 \<Longrightarrow> d < b \<Longrightarrow> unat v * b + d < 2 ^ LENGTH('a) \<Longrightarrow>
    \<not> ov b (of_nat (unat v * b + d)) v"
begin

lemma loop_fits:
  assumes "0 < b" "b \<le> 16"
  shows "foldl (radix_step b) (unat v) (takeWhile (radix_digit b) (limit_to lft s)) < 2 ^ LENGTH('a) \<Longrightarrow>
    uint_loop (ov b) b lft s v v =
      (let ds = takeWhile (radix_digit b) (limit_to lft s); n = foldl (radix_step b) (unat v) ds
       in (of_nat n, of_nat n, drop (length ds) s))"
proof (induction s arbitrary: lft v)
  case Nil
  then show ?case by (simp add: limit_to_def split: option.splits)
next
  case (Cons c s)
  show ?case
  proof (cases "lft = Some 0 \<or> \<not> radix_digit b c")
    case True
    then show ?thesis by (auto simp: radix_digit_def Let_def not_less)
  next
    case False
    define d where "d = nat (hexvalue c)"
    have d: "d < b" "\<not> hexvalue c < 0" using False by (auto simp: d_def radix_digit_def)
    define w :: "'a word" where "w = of_nat (unat v * b + d)"
    define ds where "ds = takeWhile (radix_digit b) (limit_to (map_option (\<lambda>n. n - 1) lft) s)"
    have ds: "takeWhile (radix_digit b) (limit_to lft (c # s)) = c # ds" using False by (simp add: ds_def)
    have lt: "foldl (radix_step b) (unat v * b + d) ds < 2 ^ LENGTH('a)"
      using Cons.prems unfolding ds by (simp add: radix_step_def [of b "unat v" c] d_def)
    then have fit: "unat v * b + d < 2 ^ LENGTH('a)"
      using radix_step_mono [OF assms(1), of "unat v * b + d" ds] by linarith
    then have w: "unat w = unat v * b + d" unfolding w_def by (rule unat_of_nat_small)
    have "v * of_nat b + of_nat d = w" by (simp add: w_def)
    moreover have "\<not> ov b w v" using no_alarm [OF assms d(1) fit] by (simp add: w_def)
    ultimately have "uint_loop (ov b) b lft (c # s) v v = uint_loop (ov b) b (map_option (\<lambda>n. n - 1) lft) s w w"
      using False d by (simp add: Let_def flip: d_def)
    also have "\<dots> = (let n = foldl (radix_step b) (unat w) ds in (of_nat n, of_nat n, drop (length ds) s))"
      using Cons.IH [of w "map_option (\<lambda>n. n - 1) lft"] lt w by (simp add: ds_def Let_def)
    finally show ?thesis unfolding ds by (simp add: w radix_step_def [of b "unat v" c] d_def Let_def)
  qed
qed

lemma loop_prefix:
  assumes "0 < b" "b \<le> 16" "list_all (radix_digit b) ds" "foldl (radix_step b) (unat v) ds < 2 ^ LENGTH('a)"
  shows "uint_loop (ov b) b None (ds @ s) v v = (let w = of_nat (foldl (radix_step b) (unat v) ds) in uint_loop (ov b) b None s w w)"
  using assms(3,4)
proof (induction ds arbitrary: v)
  case (Cons c ds)
  define d where "d = nat (hexvalue c)"
  have d: "d < b" "\<not> hexvalue c < 0" using Cons.prems(1) by (auto simp: d_def radix_digit_def)
  define w :: "'a word" where "w = of_nat (unat v * b + d)"
  have lt: "foldl (radix_step b) (unat v * b + d) ds < 2 ^ LENGTH('a)"
    using Cons.prems(2) by (simp add: radix_step_def [of b "unat v" c] d_def)
  then have fit: "unat v * b + d < 2 ^ LENGTH('a)"
    using radix_step_mono [OF assms(1), of "unat v * b + d" ds] by linarith
  then have w: "unat w = unat v * b + d" unfolding w_def by (rule unat_of_nat_small)
  have "v * of_nat b + of_nat d = w" by (simp add: w_def)
  moreover have "\<not> ov b w v" using no_alarm [OF assms(1,2) d(1) fit] by (simp add: w_def)
  ultimately have "uint_loop (ov b) b None ((c # ds) @ s) v v = uint_loop (ov b) b None (ds @ s) w w"
    using d by (simp add: Let_def flip: d_def)
  then show ?case
    using Cons.IH [of w] Cons.prems(1) lt w by (simp add: radix_step_def [of b "unat v" c] d_def)
qed simp

lemma loop_last:
  assumes "0 < b" "b \<le> 16" "list_all (radix_digit b) (ds @ [c])" "radix_value b ds < 2 ^ LENGTH('a)"
  shows "uint_loop (ov b) b None (ds @ [c]) 0 0 =
    (let v = of_nat (radix_value b ds); w = of_nat (radix_value b (ds @ [c])) in if ov b w v then (v, w, [c]) else (w, w, []))"
proof -
  have c: "\<not> hexvalue c < 0" "nat (hexvalue c) < b" using assms(3) by (auto simp: radix_digit_def)
  have "(of_nat (radix_value b (ds @ [c])) :: 'a word) = of_nat (radix_value b ds) * of_nat b + of_nat (nat (hexvalue c))"
    by (simp add: radix_value_def radix_step_def)
  moreover have "uint_loop (ov b) b None (ds @ [c]) 0 0 =
      (let w = of_nat (radix_value b ds) in uint_loop (ov b) b None [c] w w)"
    using loop_prefix [OF assms(1,2), of ds 0 "[c]"] assms(3,4) by (simp add: radix_value_def)
  ultimately show ?thesis using c unfolding Let_def by (simp only: uint_loop.simps Let_def) auto
qed

end

locale exact_uint_parser = uint_parser ov
  for ov :: "nat \<Rightarrow> 'a::len word \<Rightarrow> 'a word \<Rightarrow> bool" +
  assumes alarm: "0 < b \<Longrightarrow> b \<le> 16 \<Longrightarrow> d < b \<Longrightarrow> 2 ^ LENGTH('a) \<le> unat v * b + d \<Longrightarrow>
    ov b (of_nat (unat v * b + d)) v"
begin

lemma loop_overflow:
  assumes "0 < b" "b \<le> 16"
  shows "2 ^ LENGTH('a) \<le> foldl (radix_step b) (unat v) (takeWhile (radix_digit b) (limit_to lft s)) \<Longrightarrow>
    \<exists>v' w' k c s'. uint_loop (ov b) b lft s v v = (v', w', c # s') \<and> radix_digit b c \<and>
      k < length (takeWhile (radix_digit b) (limit_to lft s)) \<and> length s = k + length (c # s')"
proof (induction s arbitrary: lft v)
  case Nil
  then show ?case using unat_bound [of v] by (simp add: limit_to_def split: option.splits)
next
  case (Cons c s)
  show ?case
  proof (cases "lft = Some 0 \<or> \<not> radix_digit b c")
    case True
    then show ?thesis using Cons.prems unat_bound [of v] by (cases "lft = Some 0") auto
  next
    case False
    define d where "d = nat (hexvalue c)"
    have d: "d < b" "\<not> hexvalue c < 0" using False by (auto simp: d_def radix_digit_def)
    define w :: "'a word" where "w = of_nat (unat v * b + d)"
    define ds where "ds = takeWhile (radix_digit b) (limit_to (map_option (\<lambda>n. n - 1) lft) s)"
    have ds: "takeWhile (radix_digit b) (limit_to lft (c # s)) = c # ds" using False by (simp add: ds_def)
    have vw: "v * of_nat b + of_nat d = w" by (simp add: w_def)
    show ?thesis
    proof (cases "ov b w v")
      case True
      then have "uint_loop (ov b) b lft (c # s) v v = (v, w, c # s)"
        using False d vw by (simp add: Let_def flip: d_def)
      then show ?thesis using False unfolding ds by auto
    next
      case nov: False
      then have "unat v * b + d < 2 ^ LENGTH('a)"
        using alarm [OF assms d(1), of v] unfolding w_def by (meson not_less)
      then have "unat w = unat v * b + d" unfolding w_def by (rule unat_of_nat_small)
      then have "2 ^ LENGTH('a) \<le> foldl (radix_step b) (unat w) ds"
        using Cons.prems unfolding ds by (simp add: radix_step_def [of b "unat v" c] d_def)
      then obtain v' w' k c' s' where "uint_loop (ov b) b (map_option (\<lambda>n. n - 1) lft) s w w = (v', w', c' # s')"
          "radix_digit b c'" "k < length ds" "length s = k + length (c' # s')"
        using Cons.IH [of w "map_option (\<lambda>n. n - 1) lft"] unfolding ds_def by blast
      moreover have "uint_loop (ov b) b lft (c # s) v v = uint_loop (ov b) b (map_option (\<lambda>n. n - 1) lft) s w w"
        using False d vw nov by (simp add: Let_def flip: d_def)
      ultimately show ?thesis unfolding ds by (intro exI [of _ "Suc k"] exI conjI) auto
    qed
  qed
qed

end

section \<open>The overflow tests of the code\<close>

lemma mult_add_div: "d < b \<Longrightarrow> (v * b + d) div b = (v :: nat)"
  by simp

lemma less_test_no_alarm:
  "0 < b \<Longrightarrow> unat v * b + d < 2 ^ LENGTH('a) \<Longrightarrow> \<not> of_nat (unat v * b + d) < v" for v :: "'a::len word"
  using unat_of_nat_small [of "unat v * b + d", where ?'a = 'a]
  by (simp add: word_less_nat_alt not_less trans_le_add1 del: of_nat_add of_nat_mult)

lemma div_test:
  fixes v :: uint16
  assumes "0 < b" "b \<le> 16" "d < b"
  shows "of_nat (unat v * b + d) div of_nat b \<noteq> v \<longleftrightarrow> 2 ^ 16 \<le> unat v * b + d"
proof -
  define n where "n = unat v * b + d"
  have b: "unat (of_nat b :: uint16) = b" using assms(2) by (intro unat_of_nat_small) simp
  have n: "unat (of_nat n :: uint16) = n mod 2 ^ 16" by (simp add: unat_of_nat)
  have "of_nat n div of_nat b = v \<longleftrightarrow> (n mod 2 ^ 16) div b = unat v"
    unfolding word_unat_eq_iff [of _ v] unat_div_distrib b n ..
  also have "\<dots> \<longleftrightarrow> n < 2 ^ 16"
  proof
    assume eq: "(n mod 2 ^ 16) div b = unat v"
    show "n < 2 ^ 16"
    proof (rule ccontr)
      assume "\<not> n < 2 ^ 16"
      then have "n mod 2 ^ 16 \<le> n - 2 ^ 16"
        by (metis le_mod_geq mod_less_eq_dividend not_less)
      also have "\<dots> < unat v * b"
      proof -
        have "d < 2 ^ 16" using assms(2,3) by simp
        then show ?thesis using \<open>\<not> n < 2 ^ 16\<close> unfolding n_def by linarith
      qed
      finally have "(n mod 2 ^ 16) div b < unat v" by (simp add: less_mult_imp_div_less)
      then show False using eq by simp
    qed
  next
    assume "n < 2 ^ 16"
    then show "(n mod 2 ^ 16) div b = unat v" using assms(3) by (simp add: n_def mult_add_div)
  qed
  finally show ?thesis unfolding n_def by (simp add: not_less)
qed

interpretation u16: exact_uint_parser "\<lambda>b newvalue (val :: uint16). newvalue div of_nat b \<noteq> val"
proof
  fix b d :: nat and v :: uint16
  assume *: "0 < b" "b \<le> 16" "d < b"
  show "\<not> of_nat (unat v * b + d) div of_nat b \<noteq> v" if "unat v * b + d < 2 ^ LENGTH(16)"
    using div_test [OF *, of v] that by simp
  show "of_nat (unat v * b + d) div of_nat b \<noteq> v" if "2 ^ LENGTH(16) \<le> unat v * b + d"
    using div_test [OF *, of v] that by simp
qed

interpretation u32: uint_parser "\<lambda>b newvalue (val :: uint32). newvalue < val"
  by unfold_locales (rule less_test_no_alarm)

interpretation u64: uint_parser "\<lambda>b newvalue (val :: uint64). newvalue < val"
  by unfold_locales (rule less_test_no_alarm)

lemma radix_digit_NUL [simp]: "\<not> radix_digit b NUL"
  by (simp add: radix_digit_def hexvalue_def)

lemma uint_result_incomplete:
  assumes "length str = k + length s" "k < length (limit_to (if len = 0 then None else Some len) str)" "deref s \<noteq> NUL"
  shows "fst (uint_result str len False (v, w, s)) = None"
  using assms by (auto simp: uint_result_def split: if_splits)

lemma uint_result_complete:
  assumes "t = limit_to (if len = 0 then None else Some len) str" "t \<noteq> []" "len \<le> length str"
  shows "uint_result str len afterp (v, v, drop (length t) str) = (Some v, drop (length t) str)"
proof -
  have "length t \<le> length str" "length t = (if len = 0 then length str else len)"
    using assms(1,3) by (auto split: if_splits)
  moreover have "length (drop (length t) str) < length str"
    using assms(2) calculation(1) by (cases t) auto
  then have "drop (length t) str \<noteq> str" by (metis less_irrefl)
  ultimately show ?thesis by (auto simp: uint_result_def)
qed

lemma uint_result_rest:
  assumes "ds \<noteq> []" "NUL \<notin> set rest"
  shows "uint_result (ds @ rest) 0 afterp (v, v, rest) = (if afterp \<or> rest = [] then Some v else None, rest)"
  using assms by (cases rest) (auto simp: uint_result_def)

section \<open>Decimal numerals and scales\<close>

lemma radix_value_append: "radix_value b (ds @ [c]) = radix_value b ds * b + nat (hexvalue c)"
  by (simp add: radix_value_def radix_step_def)

lemma dec_of_nat_value: "radix_value 10 (dec_of_nat n) = n \<and> list_all (radix_digit 10) (dec_of_nat n) \<and> dec_of_nat n \<noteq> []"
proof (induction n rule: dec_of_nat.induct)
  case (1 n)
  show ?case
  proof (cases "n < 10")
    case True
    then show ?thesis
      using radix_value_append [of 10 "[]" "hexdigit_upper ! n"]
      by (simp add: dec_of_nat.simps [of n] hexvalue_upper radix_digit_def) (simp add: radix_value_def)
  next
    case False
    then show ?thesis
      using 1 by (subst (1 2 3) dec_of_nat.simps) (simp add: radix_value_append hexvalue_upper radix_digit_def [of 10 "hexdigit_upper ! (n mod 10)"])
  qed
qed

lemma dec_of_nat_no_NUL: "NUL \<notin> set (dec_of_nat n)"
  using dec_of_nat_value [of n] by (auto simp: list_all_iff)

lemma find_scale_cases:
  "find_scale scale_factors val = (q, symbol) \<Longrightarrow>
   symbol = NUL \<and> q = val \<or> (\<exists>f. map_of scale_factors symbol = Some f \<and> symbol \<noteq> NUL \<and> q * f = val)"
  using div_mult_mod_eq [of val "1024 * 1024 * 1024"] div_mult_mod_eq [of val "1000 * 1000 * 1000"]
    div_mult_mod_eq [of val "1024 * 1024"] div_mult_mod_eq [of val "1000 * 1000"]
    div_mult_mod_eq [of val 1024] div_mult_mod_eq [of val 1000]
  by (auto simp: scale_factors_def split: if_splits)

lemma scale_factors_NUL [simp]: "map_of scale_factors NUL = None"
  by (simp add: scale_factors_def)

lemma scale_symbol_not_digit: "map_of scale_factors c = Some f \<Longrightarrow> \<not> radix_digit 10 c"
  by (auto simp: scale_factors_def radix_digit_def hexvalue_def isxdigit_def split: if_splits)

text \<open>The C string that a buffer holds.\<close>

definition c_string :: "string \<Rightarrow> string" where
  "c_string m = takeWhile (\<lambda>c. c \<noteq> NUL) m"

section \<open>Properties\<close>

text \<open>
  (C21) \<open>strn_to_uint16\<close> without \<open>afterp\<close> is exact: it accepts the non-empty texts of digits of the base whose
  value fits in 16 bits and returns that value; everything else, numerals that are too large
  included, is refused.
\<close>

theorem strn_to_uint16_exact:
  assumes "0 < base" and "base \<le> 16" and "len \<le> length str" and "NUL \<notin> set str"
    and "t = (if len = 0 then str else take len str)"
  shows "map_option fst (strn_to_uint16 str len base False) =
    Some (if t \<noteq> [] \<and> list_all (radix_digit base) t \<and> radix_value base t < 2 ^ 16
          then Some (of_nat (radix_value base t)) else None)"
proof -
  define lft where "lft = (if len = 0 then None else Some len)"
  define r where "r = uint_loop (\<lambda>newvalue val. newvalue div of_nat base \<noteq> val) base lft str (0 :: uint16) 0"
  have t: "t = limit_to lft str" using assms(5) by (simp add: lft_def)
  define ds where "ds = takeWhile (radix_digit base) t"
  have k: "length ds \<le> length t" "length t \<le> length str"
    unfolding ds_def t by (auto simp: length_takeWhile_le limit_to_def split: option.splits)
  have "fst (uint_result str len False r) =
      (if t \<noteq> [] \<and> list_all (radix_digit base) t \<and> radix_value base t < 2 ^ 16
       then Some (of_nat (radix_value base t)) else None)"
  proof (cases "radix_value base ds < 2 ^ 16")
    case True
    then have r: "r = (of_nat (radix_value base ds), of_nat (radix_value base ds), drop (length ds) str)"
      using u16.loop_fits [OF assms(1,2), of 0 lft str] by (simp add: r_def radix_value_def ds_def t Let_def)
    show ?thesis
    proof (cases "ds = t")
      case all: True
      have "list_all (radix_digit base) t"
        using all unfolding ds_def takeWhile_eq_all_conv list_all_iff .
      moreover have "fst (uint_result str len False r) = (if t = [] then None else Some (of_nat (radix_value base t)))"
      proof (cases "t = []")
        case False
        then show ?thesis
          unfolding r all by (simp add: uint_result_complete [OF t [unfolded lft_def] False assms(3)])
      qed (simp add: r all uint_result_def)
      ultimately show ?thesis using True all by simp
    next
      case False
      obtain u where u: "t = ds @ u" unfolding ds_def by (metis takeWhile_dropWhile_id)
      then have "u \<noteq> []" using False by (cases u) simp_all
      then have lt: "length ds < length t" using u by (cases u) simp_all
      have "length ds < length str" using lt k(2) by simp
      then have "str ! length ds \<noteq> NUL" using assms(4) nth_mem by metis
      then have "deref (drop (length ds) str) \<noteq> NUL"
        using lt k(2) by (simp add: Cons_nth_drop_Suc [symmetric])
      then have "fst (uint_result str len False r) = None"
        unfolding r by (rule uint_result_incomplete [of str "length ds", rotated -1]) (use lt k(2) t in \<open>simp_all add: lft_def\<close>)
      moreover have "\<not> list_all (radix_digit base) t"
        using False unfolding ds_def takeWhile_eq_all_conv list_all_iff .
      ultimately show ?thesis by simp
    qed
  next
    case False
    then obtain v w j c s' where r: "r = (v, w, c # s')" "radix_digit base c" "j < length ds" "length str = j + length (c # s')"
      using u16.loop_overflow [OF assms(1,2), of 0 lft str] unfolding r_def radix_value_def ds_def t by auto
    have "c \<noteq> NUL" using r(2) by auto
    then have "fst (uint_result str len False r) = None"
      using r k(1) t by (auto simp: lft_def intro: uint_result_incomplete [of str j])
    moreover have "ds = t" if "list_all (radix_digit base) t"
      using that unfolding ds_def takeWhile_eq_all_conv list_all_iff .
    ultimately show ?thesis using False by auto
  qed
  then show ?thesis using assms(1,2) by (simp add: strn_to_uint16_def r_def lft_def)
qed

text \<open>
  The 32 and 64 bit parsers return the value of every numeral that fits their type, followed by any
  text that does not start with another digit, and leave \<open>*afterp\<close> behind the numeral.
\<close>

theorem strn_to_uint_fits:
  assumes "0 < base" and "base \<le> 16" and "ds \<noteq> []" and "list_all (radix_digit base) ds" and "\<not> radix_digit base (deref rest)"
    and "NUL \<notin> set rest"
  shows "(radix_value base ds < 2 ^ 32 \<longrightarrow>
      str_to_uint32 (ds @ rest) base afterp = Some (if afterp \<or> rest = [] then Some (of_nat (radix_value base ds)) else None, rest)) \<and>
    (radix_value base ds < 2 ^ 64 \<longrightarrow>
      str_to_uint64 (ds @ rest) base afterp = Some (if afterp \<or> rest = [] then Some (of_nat (radix_value base ds)) else None, rest))"
proof -
  have tw: "takeWhile (radix_digit base) (ds @ rest) = ds"
    using assms(4,5) by (cases rest) (auto simp: list_all_iff takeWhile_append)
  note res = uint_result_rest [OF assms(3,6)]
  have "str_to_uint32 (ds @ rest) base afterp = Some (if afterp \<or> rest = [] then Some (of_nat (radix_value base ds)) else None, rest)"
    if "radix_value base ds < 2 ^ 32"
    using u32.loop_fits [OF assms(1,2), of 0 None "ds @ rest"] that assms(1,2)
    unfolding str_to_uint32_def strn_to_uint32_def radix_value_def by (simp add: tw Let_def res split del: if_split)
  moreover have "str_to_uint64 (ds @ rest) base afterp = Some (if afterp \<or> rest = [] then Some (of_nat (radix_value base ds)) else None, rest)"
    if "radix_value base ds < 2 ^ 64"
    using u64.loop_fits [OF assms(1,2), of 0 None "ds @ rest"] that assms(1,2)
    unfolding str_to_uint64_def strn_to_uint64_def radix_value_def by (simp add: tw Let_def res split del: if_split)
  ultimately show ?thesis by blast
qed

text \<open>
  What becomes of an overflow in the last digit. \<open>strn_to_uint32\<close> and \<open>strn_to_uint64\<close> notice it only if the
  value wraps below the one before: otherwise the numeral is accepted with the wrapped value, as
  6000000000 is. \<open>strn_to_uint16\<close> with \<open>afterp\<close> refuses the numeral unless the value wraps to the one
  before; then it returns that, as 7281 for 72817, with the last digit left over.
\<close>

theorem str_to_uint_last_digit:
  assumes "0 < base" and "base \<le> 16" and "ds \<noteq> []" and "list_all (radix_digit base) (ds @ [c])"
    and "v = radix_value base ds" and "n = radix_value base (ds @ [c])"
  shows "(v < 2 ^ 32 \<longrightarrow> map_option fst (str_to_uint32 (ds @ [c]) base False) = Some (if v \<le> n mod 2 ^ 32 then Some (of_nat n) else None)) \<and>
    (v < 2 ^ 64 \<longrightarrow> map_option fst (str_to_uint64 (ds @ [c]) base False) = Some (if v \<le> n mod 2 ^ 64 then Some (of_nat n) else None)) \<and>
    (v < 2 ^ 16 \<and> 2 ^ 16 \<le> n \<longrightarrow>
       str_to_uint16 (ds @ [c]) base True = Some (if n mod 2 ^ 16 = v then Some (of_nat v) else None, [c]))"
proof (intro conjI impI)
  have c: "deref [c] \<noteq> NUL" using assms(4) by (auto simp: radix_digit_def hexvalue_def)
  have ne: "\<not> [c] = ds @ [c]" using assms(3) by simp
  show "map_option fst (str_to_uint32 (ds @ [c]) base False) = Some (if v \<le> n mod 2 ^ 32 then Some (of_nat n) else None)" if v: "v < 2 ^ 32"
  proof -
    have "radix_value base ds < 2 ^ LENGTH(32)" using v assms(5) by simp
    from u32.loop_last [OF assms(1,2,4) this] show ?thesis
      using v assms(1,2) c ne
      by (simp add: str_to_uint32_def strn_to_uint32_def Let_def word_less_nat_alt unat_of_nat uint_result_def flip: assms(5,6))
  qed
  show "map_option fst (str_to_uint64 (ds @ [c]) base False) = Some (if v \<le> n mod 2 ^ 64 then Some (of_nat n) else None)" if v: "v < 2 ^ 64"
  proof -
    have "radix_value base ds < 2 ^ LENGTH(64)" using v assms(5) by simp
    from u64.loop_last [OF assms(1,2,4) this] show ?thesis
      using v assms(1,2) c ne
      by (simp add: str_to_uint64_def strn_to_uint64_def Let_def word_less_nat_alt unat_of_nat uint_result_def flip: assms(5,6))
  qed
  show "str_to_uint16 (ds @ [c]) base True = Some (if n mod 2 ^ 16 = v then Some (of_nat v) else None, [c])" if v: "v < 2 ^ 16 \<and> 2 ^ 16 \<le> n"
  proof -
    have small: "radix_value base ds < 2 ^ LENGTH(16)" using v assms(5) by simp
    have u: "unat (of_nat v :: uint16) = v" using v by (simp add: unat_of_nat)
    have n: "n = v * base + nat (hexvalue c)" using assms(5,6) by (simp add: radix_value_append)
    have "nat (hexvalue c) < base" using assms(4) by (auto simp: radix_digit_def)
    from u16.alarm [OF assms(1,2) this, of "of_nat v"] have "(of_nat n :: uint16) div of_nat base \<noteq> of_nat v"
      using v unfolding u n [symmetric] by simp
    moreover have "(of_nat v :: uint16) = of_nat n \<longleftrightarrow> n mod 2 ^ 16 = v"
      using v by (auto simp: word_unat_eq_iff unat_of_nat)
    ultimately show ?thesis
      using u16.loop_last [OF assms(1,2,4) small] assms(1,2) ne
      by (simp add: str_to_uint16_def strn_to_uint16_def Let_def uint_result_def flip: assms(5,6))
  qed
qed

text \<open>
  (C23) Scaled numbers are printed so that they are read back: \<open>uint64_scaled_to_str\<close> fits exactly if the text and
  its NUL do, and then \<open>str_to_uint64_scaled\<close> returns the number.
\<close>

theorem uint64_scaled_roundtrip:
  assumes "0 < len" and "len \<le> length m"
  shows "\<exists>m' ok txt. uint64_scaled_to_str m len val = Some (m', ok) \<and> (ok \<longleftrightarrow> length txt < len) \<and>
    (ok \<longrightarrow> c_string m' = txt) \<and> str_to_uint64_scaled txt 10 False = Some (Some val, [])"
proof -
  obtain q symbol where fs: "find_scale scale_factors val = (q, symbol)" by force
  define sym where "sym = (if symbol \<noteq> NUL then [symbol] else [])"
  define out where "out = dec_of_nat (unat q) @ sym"
  obtain b where b: "strbuf_init (Some m) (int len) = Some b" "sb_rel (Some m) (len - 1) [] b"
    using strbuf_init_rel [OF assms] by blast
  have "appends (\<lambda>b. strbuf_sprintf b (dec_of_nat (unat q)) \<bind> (\<lambda>b. if symbol \<noteq> NUL then strbuf_putc b symbol else Some b)) out"
    unfolding out_def by (rule appends_bind [OF strbuf_sprintf_appends]) (simp add: sym_def strbuf_putc_appends appends_Some)
  from appendsD [OF this b(2)] obtain b' where b': "strbuf_sprintf b (dec_of_nat (unat q)) \<bind>
      (\<lambda>b. if symbol \<noteq> NUL then strbuf_putc b symbol else Some b) = Some b'" "sb_rel (Some m) (len - 1) out b'"
    by auto
  have "uint64_scaled_to_str m len val = Some (sb_text m (len - 1) out, \<not> strbuf_overrun b')"
    using b(1) b'(1) sb_rel_text [OF b'(2)] unfolding uint64_scaled_to_str_def fs
    by (auto simp: bind_eq_Some_conv split: if_splits)
  moreover have "\<not> strbuf_overrun b' \<longleftrightarrow> length out < len"
    using sb_rel_observe(5) [OF b'(2)] assms(1) by auto
  moreover have "c_string (sb_text m (len - 1) out) = out" if "length out < len"
    using that takeWhile_NUL [of out] dec_of_nat_no_NUL [of "unat q"]
    by (auto simp: c_string_def sb_text_def out_def sym_def)
  moreover have "str_to_uint64_scaled out 10 False = Some (Some val, [])"
  proof -
    have sc: "find_scale scale_factors val = (q, symbol) \<Longrightarrow> sym = [] \<and> q = val \<or> (\<exists>f. map_of scale_factors symbol = Some f \<and> sym = [symbol] \<and> q * f = val)"
      using find_scale_cases [of val q symbol] by (auto simp: sym_def)
    have nd: "\<not> radix_digit 10 (deref sym)" "NUL \<notin> set sym"
      using sc [OF fs] scale_symbol_not_digit [of symbol] by (auto simp: sym_def)
    have tw: "takeWhile (radix_digit 10) out = dec_of_nat (unat q)"
      using dec_of_nat_value [of "unat q"] nd(1) by (cases sym) (auto simp: out_def list_all_iff takeWhile_append)
    have "str_to_uint64 out 10 True = Some (Some q, sym)"
      using u64.loop_fits [of 10 0 None out] dec_of_nat_value [of "unat q"] uint_result_rest [of "dec_of_nat (unat q)" sym True q] nd(2) unat_bound [of q]
      unfolding str_to_uint64_def strn_to_uint64_def
      by (simp add: tw Let_def flip: radix_value_def) (simp add: out_def)
    then show ?thesis using sc [OF fs] by (auto simp: str_to_uint64_scaled_def scale_factor_def)
  qed
  ultimately show ?thesis by blast
qed

section \<open>Witnesses\<close>

lemma hexvalue_dec:
  "hexvalue CHR ''0'' = 0" "hexvalue CHR ''1'' = 1" "hexvalue CHR ''2'' = 2" "hexvalue CHR ''3'' = 3"
  "hexvalue CHR ''4'' = 4" "hexvalue CHR ''5'' = 5" "hexvalue CHR ''6'' = 6" "hexvalue CHR ''7'' = 7"
  "hexvalue CHR ''8'' = 8" "hexvalue CHR ''9'' = 9"
  using hexvalue_upper [of 0] hexvalue_upper [of 1] hexvalue_upper [of 2] hexvalue_upper [of 3] hexvalue_upper [of 4]
    hexvalue_upper [of 5] hexvalue_upper [of 6] hexvalue_upper [of 7] hexvalue_upper [of 8] hexvalue_upper [of 9]
  by (simp_all add: hexdigit_upper_def)

theorem strn_to_uint16_exact_witness: "map_option fst (strn_to_uint16 ''65535x'' 5 10 False) = Some (Some 65535)"
proof -
  have "list_all (radix_digit 10) ''65535''" "radix_value 10 ''65535'' = 65535"
    by (simp_all add: radix_digit_def radix_value_def radix_step_def hexvalue_dec)
  then show ?thesis
    using strn_to_uint16_exact [of 10 5 "''65535x''" "''65535''"] by simp
qed

theorem str_to_uint_last_digit_witness:
  "map_option fst (str_to_uint32 ''6000000000'' 10 False) = Some (Some 1705032704) \<and>
   str_to_uint16 ''72817'' 10 True = Some (Some 7281, ''7'')"
proof -
  have "list_all (radix_digit 10) (''600000000'' @ ''0'')" "radix_value 10 ''600000000'' = 600000000" "radix_value 10 ''6000000000'' = 6000000000"
      "list_all (radix_digit 10) (''7281'' @ ''7'')" "radix_value 10 ''7281'' = 7281" "radix_value 10 ''72817'' = 72817"
    by (simp_all add: radix_digit_def radix_value_def radix_step_def hexvalue_dec)
  moreover have wrapped: "(6000000000 :: uint32) = 1705032704" by (simp add: word_uint_eq_iff)
  ultimately show ?thesis
    using str_to_uint_last_digit [of 10 "''600000000''" "CHR ''0''" 600000000 6000000000]
      str_to_uint_last_digit [of 10 "''7281''" "CHR ''7''" 7281 72817] by (simp add: wrapped)
qed

theorem strn_to_uint_fits_witness:
  "str_to_uint32 ''4294967295 '' 10 True = Some (Some 4294967295, '' '') \<and>
   str_to_uint64 ''4294967295 '' 10 True = Some (Some 4294967295, '' '')"
proof -
  have "list_all (radix_digit 10) ''4294967295''" "radix_value 10 ''4294967295'' = 4294967295" "\<not> radix_digit 10 CHR '' ''"
    by (simp_all add: radix_digit_def radix_value_def radix_step_def hexvalue_dec) (simp add: hexvalue_def isxdigit_def)
  then show ?thesis
    using strn_to_uint_fits [of 10 "''4294967295''" "'' ''" True] by simp
qed

theorem uint64_scaled_roundtrip_witness:
  "\<exists>m' ok txt. uint64_scaled_to_str (replicate 22 CHR ''-'') 22 5000 = Some (m', ok) \<and> (ok \<longleftrightarrow> length txt < 22) \<and>
     str_to_uint64_scaled txt 10 False = Some (Some 5000, [])"
  using uint64_scaled_roundtrip [of 22 "replicate 22 CHR ''-''" 5000] by auto

end
