(* ===== verification/Uri.thy ===== *)
theory Uri
  imports Str_Numbers
begin

text \<open>
  URIs (str.c): percent-encoding and decoding of bytes, and picking a URI apart into its parts.

  The encoded and decoded bytes are strings. The functions that write at most \<open>dstsiz\<close> bytes return
  what they write (or would write, for a NULL destination) and what is left of the source. A part of
  a URI is the suffix at which it starts and its length. The character predicates are partial, see
  \<open>Ctype\<close>, and so is everything that uses them: \<open>None\<close> is the lookup outside of the tables.
\<close>

section \<open>Percent-encoding\<close>

text \<open>The loop over the fragments; \<open>n\<close> is \<open>dst - dstUrienc\<close>.\<close>

function uri_encodev_loop :: "bool \<Rightarrow> int \<Rightarrow> int \<Rightarrow> string list \<Rightarrow> (string \<times> string list) option" where
  "uri_encodev_loop www_form dstsiz n [] = Some ([], [])"
| "uri_encodev_loop www_form dstsiz n (iov # iovs) =
     (if dstsiz = - 1 \<or> n < dstsiz
      then case iov of
        [] \<Rightarrow> uri_encodev_loop www_form dstsiz n iovs
      | c # cs \<Rightarrow>
          if www_form \<and> c = CHR '' ''
          then map_option (map_prod ((#) (CHR ''+'')) id) (uri_encodev_loop www_form dstsiz (n + 1) (cs # iovs))
          else do {
            unreserved \<leftarrow> is_uri_char_unreserved c;
            if unreserved
            then map_option (map_prod ((#) c) id) (uri_encodev_loop www_form dstsiz (n + 1) (cs # iovs))
            else if n + 3 \<le> dstsiz
            then map_option
              (map_prod ((@) [CHR ''%'', hexdigit_upper ! (of_char c mod 16), hexdigit_upper ! (of_char c div 16)]) id)
              (uri_encodev_loop www_form dstsiz (n + 3) (cs # iovs))
            else Some ([], iov # iovs)
          }
      else Some ([], iov # iovs))"
  by pat_completeness auto
termination
  by (relation "measure (\<lambda>(_, _, _, iovs). sum_list (map (\<lambda>s. Suc (length s)) iovs))") auto

declare uri_encodev_loop.simps(2) [simp del]

definition uri_encodev_with :: "bool \<Rightarrow> int \<Rightarrow> string list \<Rightarrow> (string \<times> string list) option" where
  "uri_encodev_with www_form dstsiz iov = uri_encodev_loop www_form dstsiz 0 iov"

definition uri_encode_with :: "bool \<Rightarrow> int \<Rightarrow> string \<Rightarrow> (string \<times> string) option" where
  "uri_encode_with www_form dstsiz src =
     map_option (\<lambda>(out, iov). (out, concat iov)) (uri_encodev_with www_form dstsiz [src])"

definition uri_encode :: "int \<Rightarrow> string \<Rightarrow> (string \<times> string) option" where
  "uri_encode dstsiz src = uri_encode_with False dstsiz src"

definition www_form_uri_encode :: "int \<Rightarrow> string \<Rightarrow> (string \<times> string) option" where
  "www_form_uri_encode dstsiz src = uri_encode_with True dstsiz src"

definition uri_encodev :: "int \<Rightarrow> string list \<Rightarrow> (string \<times> string list) option" where
  "uri_encodev dstsiz iov = uri_encodev_with False dstsiz iov"

definition www_form_uri_encodev :: "int \<Rightarrow> string list \<Rightarrow> (string \<times> string list) option" where
  "www_form_uri_encodev dstsiz iov = uri_encodev_with True dstsiz iov"

function uri_decode_loop :: "bool \<Rightarrow> int \<Rightarrow> int \<Rightarrow> string \<Rightarrow> string \<times> string" where
  "uri_decode_loop www_form dstsiz n src =
     (if src \<noteq> [] \<and> (dstsiz = - 1 \<or> n < dstsiz)
      then if www_form \<and> src ! 0 = CHR ''+''
           then map_prod ((#) (CHR '' '')) id (uri_decode_loop www_form dstsiz (n + 1) (drop 1 src))
           else if 3 \<le> length src \<and> src ! 0 = CHR ''%'' \<and> isxdigit (src ! 1) \<and> isxdigit (src ! 2)
           then map_prod ((#) (char_of (nat (hexvalue (src ! 1) * 16 + hexvalue (src ! 2))))) id
             (uri_decode_loop www_form dstsiz (n + 1) (drop 3 src))
           else map_prod ((#) (src ! 0)) id (uri_decode_loop www_form dstsiz (n + 1) (drop 1 src))
      else ([], src))"
  by pat_completeness auto
termination
  by (relation "measure (\<lambda>(_, _, _, src). length src)") (auto simp: neq_Nil_conv)

declare uri_decode_loop.simps [simp del]

definition uri_decode :: "int \<Rightarrow> string \<Rightarrow> string \<times> string" where
  "uri_decode dstsiz src = uri_decode_loop False dstsiz 0 src"

definition www_form_uri_decode :: "int \<Rightarrow> string \<Rightarrow> string \<times> string" where
  "www_form_uri_decode dstsiz src = uri_decode_loop True dstsiz 0 src"

section \<open>The parts of a URI\<close>

text \<open>Advancing a pointer while a predicate holds: what was passed, and the rest.\<close>

fun span_opt :: "(char \<Rightarrow> bool option) \<Rightarrow> string \<Rightarrow> (string \<times> string) option" where
  "span_opt P [] = Some ([], [])"
| "span_opt P (c # s) = do {
     b \<leftarrow> P c;
     if b then map_option (map_prod ((#) c) id) (span_opt P s) else Some ([], c # s)
   }"

text \<open>\<open>(is_uri_char_unreserved(c) || is_uri_char_reserved(c))\<close> and none of the given terminators.\<close>

definition uri_char :: "string \<Rightarrow> char \<Rightarrow> bool option" where
  "uri_char ends c = do {
     unreserved \<leftarrow> is_uri_char_unreserved c;
     ok \<leftarrow> (if unreserved then Some True else is_uri_char_reserved c);
     Some (ok \<and> c \<notin> set ends)
   }"

definition str_uri_scheme :: "string \<Rightarrow> (string \<times> nat) option option" where
  "str_uri_scheme uri =
     (case uri of
        [] \<Rightarrow> Some None
      | c # s \<Rightarrow>
          if \<not> isalpha c then Some None
          else do {
            (sch, p) \<leftarrow> span_opt is_uri_char_scheme s;
            Some (if deref p \<noteq> CHR '':'' then None else Some (uri, Suc (length sch)))
          })"

definition str_is_uri_scheme :: "string \<Rightarrow> bool option" where
  "str_is_uri_scheme scheme =
     (case scheme of
        [] \<Rightarrow> Some False
      | c # s \<Rightarrow>
          if \<not> isalpha c then Some False
          else do {
            (_, p) \<leftarrow> span_opt is_uri_char_scheme s;
            Some (p = [])
          })"

definition str_is_uri :: "string \<Rightarrow> bool option" where
  "str_is_uri uri = do {
     sch \<leftarrow> str_uri_scheme uri;
     case sch of
       None \<Rightarrow> Some False
     | Some (p, len) \<Rightarrow> do {
         (hier, p) \<leftarrow> span_opt (uri_char ''?#'') (drop (len + 1) p);
         if hier = [] then Some False
         else do {
           (_, p) \<leftarrow> (if deref p = CHR ''?'' then span_opt (uri_char ''?#'') (tl p) else Some ([], p));
           (_, p) \<leftarrow> (if deref p = CHR ''#'' then span_opt (uri_char ''?#'') (tl p) else Some ([], p));
           Some (p = [])
         }
       }
   }"

definition str_uri_hierarchical :: "string \<Rightarrow> (string \<times> nat) option option" where
  "str_uri_hierarchical uri =
     (let p = dropWhile (\<lambda>c. c \<noteq> CHR '':'') uri
      in if p = [] then Some None
         else do {
           (part, _) \<leftarrow> span_opt (uri_char ''?#'') (tl p);
           Some (if part = [] then None else Some (tl p, length part))
         })"

definition str_uri_query :: "string \<Rightarrow> (string \<times> nat) option option" where
  "str_uri_query uri =
     (let p = dropWhile (\<lambda>c. c \<noteq> CHR ''?'') uri
      in if p = [] then Some None
         else do {
           (part, r) \<leftarrow> span_opt (uri_char ''#'') (tl p);
           Some (if part = [] \<or> (r \<noteq> [] \<and> deref r \<noteq> CHR ''#'') then None else Some (tl p, length part))
         })"

definition str_uri_fragment :: "string \<Rightarrow> (string \<times> nat) option option" where
  "str_uri_fragment uri =
     (let p = dropWhile (\<lambda>c. c \<noteq> CHR ''#'') uri
      in if p = [] then Some None
         else do {
           (part, r) \<leftarrow> span_opt (uri_char []) (tl p);
           Some (if part = [] \<or> r \<noteq> [] then None else Some (tl p, length part))
         })"

definition str_uri_hierarchical_authority :: "string \<Rightarrow> (string \<times> nat) option option" where
  "str_uri_hierarchical_authority hier =
     (if take 2 hier \<noteq> ''//'' then Some None
      else do {
        (part, r) \<leftarrow> span_opt (uri_char ''/?#'') (drop 2 hier);
        Some (if part = [] \<or> (r \<noteq> [] \<and> deref r \<notin> set ''/?#'') then None else Some (drop 2 hier, length part))
      })"

definition str_uri_hierarchical_path :: "string \<Rightarrow> (string \<times> nat) option option" where
  "str_uri_hierarchical_path hier =
     (if take 2 hier \<noteq> ''//'' then Some None
      else let p = dropWhile (\<lambda>c. c \<notin> set ''/?#'') (drop 2 hier)
           in if p = [] then Some None
              else do {
                (part, r) \<leftarrow> span_opt (uri_char ''/?#'') (tl p);
                Some (if part = [] \<or> (r \<noteq> [] \<and> deref r \<notin> set ''/?#'') then None else Some (tl p, length part))
              })"

definition str_uri_authority_username :: "string \<Rightarrow> (string \<times> nat) option" where
  "str_uri_authority_username auth =
     (if deref (dropWhile (\<lambda>c. c \<notin> set ''@/?#'') auth) \<noteq> CHR ''@'' then None
      else let user = takeWhile (\<lambda>c. c \<notin> set '':@'') auth
           in if deref (drop (length user) auth) \<noteq> CHR '':'' then None else Some (auth, length user))"

text \<open>The assertion at the end is the outer \<open>option\<close>.\<close>

definition str_uri_authority_password :: "string \<Rightarrow> (string \<times> nat) option option" where
  "str_uri_authority_password auth =
     (if deref (dropWhile (\<lambda>c. c \<notin> set ''@/?#'') auth) \<noteq> CHR ''@'' then Some None
      else let p = dropWhile (\<lambda>c. c \<notin> set '':@'') auth
           in if deref p \<noteq> CHR '':'' then Some None
              else let q = tl p; pw = takeWhile (\<lambda>c. c \<noteq> CHR ''@'') q
                   in do {
                     assert (deref (drop (length pw) q) = CHR ''@'');
                     Some (Some (q, length pw))
                   })"

text \<open>Offsets into \<open>auth\<close>: \<open>p\<close> behind the authority, \<open>q\<close> behind the last at sign, \<open>r\<close> going back over digits.\<close>

definition authority_end :: "string \<Rightarrow> nat" where
  "authority_end auth = length (takeWhile (\<lambda>c. c \<notin> set ''/?#'') auth)"

fun after_at :: "nat \<Rightarrow> nat \<Rightarrow> string \<Rightarrow> nat" where
  "after_at q i [] = q"
| "after_at q i (c # s) = (if c \<in> set ''/?#'' then q else after_at (if c = CHR ''@'' then i + 1 else q) (i + 1) s)"

fun back_digits :: "string \<Rightarrow> nat \<Rightarrow> nat \<Rightarrow> nat" where
  "back_digits auth q 0 = 0"
| "back_digits auth q (Suc r) = (if q < Suc r then if isdigit (auth ! r) then back_digits auth q r else r else Suc r)"

definition str_uri_authority_hostname :: "string \<Rightarrow> string \<times> nat" where
  "str_uri_authority_hostname auth =
     (let p = authority_end auth; q = after_at 0 0 auth; r = back_digits auth q p;
          p = (if r + 1 < p \<and> auth ! r = CHR '':'' then r else p)
      in (drop q auth, p - q))"

definition atoi :: "string \<Rightarrow> int" where
  "atoi s = fst (strtoll 10 s)"

definition str_uri_authority_port :: "string \<Rightarrow> uint16 option" where
  "str_uri_authority_port auth =
     (let p = authority_end auth; q = after_at 0 0 auth; r = back_digits auth q p
      in if r + 1 < p \<and> auth ! r = CHR '':''
         then let s = dropWhile (\<lambda>c. c = CHR ''0'') (drop (r + 1) auth); n = atoi s
              in if int p - int (length auth - length s) \<le> 5 \<and> 0 \<le> n \<and> n \<le> 65535 then Some (of_int n) else None
         else None)"

section \<open>Encoding and decoding\<close>

definition unreserved :: "char \<Rightarrow> bool" where
  "unreserved c \<longleftrightarrow> is_uri_char_unreserved c = Some True"

lemma is_uri_char_unreserved_eq: "c \<noteq> CHR 0xFF \<Longrightarrow> is_uri_char_unreserved c = Some (unreserved c)"
  by (simp add: unreserved_def is_uri_char_unreserved_def ctype_read_def)

lemma reserved_chars: "\<not> unreserved (CHR ''%'')" "\<not> unreserved (CHR ''+'')"
  unfolding unreserved_def by code_simp+

text \<open>What the encoder writes for a character, and what the decoder makes of it.\<close>

definition uri_escape :: "char \<Rightarrow> string" where
  "uri_escape c = [CHR ''%'', hexdigit_upper ! (of_char c mod 16), hexdigit_upper ! (of_char c div 16)]"

definition uri_encoded :: "bool \<Rightarrow> char \<Rightarrow> string" where
  "uri_encoded www_form c =
     (if www_form \<and> c = CHR '' '' then [CHR ''+''] else if unreserved c then [c] else uri_escape c)"

definition nibbles_swapped :: "char \<Rightarrow> char" where
  "nibbles_swapped c = char_of (of_char c mod 16 * 16 + of_char c div 16 :: nat)"

definition uri_recoded :: "bool \<Rightarrow> char \<Rightarrow> char" where
  "uri_recoded www_form c = (if www_form \<and> c = CHR '' '' \<or> unreserved c then c else nibbles_swapped c)"

lemma uri_encodev_loop_char:
  assumes "dstsiz = - 1 \<or> n < dstsiz" "is_uri_char_unreserved c = Some u"
  shows "uri_encodev_loop www_form dstsiz n [c # s] =
    (if www_form \<and> c = CHR '' '' then map_option (map_prod ((#) (CHR ''+'')) id) (uri_encodev_loop www_form dstsiz (n + 1) [s])
     else if u then map_option (map_prod ((#) c) id) (uri_encodev_loop www_form dstsiz (n + 1) [s])
     else if n + 3 \<le> dstsiz then map_option (map_prod ((@) (uri_escape c)) id) (uri_encodev_loop www_form dstsiz (n + 3) [s])
     else Some ([], [c # s]))"
  using assms by (subst uri_encodev_loop.simps(2)) (simp add: uri_escape_def)

lemma uri_encodev_loop_all:
  assumes "CHR 0xFF \<notin> set s" "n + 3 * int (length s) \<le> dstsiz" "0 \<le> n"
  shows "\<exists>iov. uri_encodev_loop www_form dstsiz n [s] = Some (concat (map (uri_encoded www_form) s), iov) \<and> concat iov = []"
  using assms
proof (induction s arbitrary: n)
  case Nil
  then show ?case by (simp add: uri_encodev_loop.simps(2))
next
  case (Cons c s)
  have c: "is_uri_char_unreserved c = Some (unreserved c)" using Cons.prems(1) by (intro is_uri_char_unreserved_eq) auto
  have IH: "\<exists>iov. uri_encodev_loop www_form dstsiz m [s] = Some (concat (map (uri_encoded www_form) s), iov) \<and> concat iov = []"
    if "m \<le> n + 3" "n \<le> m" for m
    by (rule Cons.IH) (use that Cons.prems in auto)
  have n: "dstsiz = - 1 \<or> n < dstsiz" "n + 3 \<le> dstsiz" using Cons.prems(2,3) by auto
  obtain iov1 iov3 where
      "uri_encodev_loop www_form dstsiz (n + 1) [s] = Some (concat (map (uri_encoded www_form) s), iov1)" "concat iov1 = []"
      "uri_encodev_loop www_form dstsiz (n + 3) [s] = Some (concat (map (uri_encoded www_form) s), iov3)" "concat iov3 = []"
    using IH [of "n + 1"] IH [of "n + 3"] by auto
  then show ?case
    using n(2) by (cases www_form) (auto simp: uri_encodev_loop_char [OF n(1) c] uri_encoded_def [of _ c])
qed

lemma hexdigit_upper_isxdigit: "n < 16 \<Longrightarrow> isxdigit (hexdigit_upper ! n)"
  using hexvalue_upper [of n] hexvalue_minus_1 [of "hexdigit_upper ! n"] by simp

lemma of_char_nibbles: "of_char c mod 16 < (16 :: nat)" "of_char c div 16 < (16 :: nat)"
  using nat_of_char_less_256 [of c] by (simp_all add: less_mult_imp_div_less)

lemma uri_decode_encoded:
  "uri_decode_loop www_form (- 1) n (uri_encoded www_form c @ s) =
     map_prod ((#) (uri_recoded www_form c)) id (uri_decode_loop www_form (- 1) (n + 1) s)"
proof -
  note x = hexdigit_upper_isxdigit [OF of_char_nibbles(1) [of c]] hexdigit_upper_isxdigit [OF of_char_nibbles(2) [of c]]
  note v = hexvalue_upper [OF of_char_nibbles(1) [of c]] hexvalue_upper [OF of_char_nibbles(2) [of c]]
  have "nat (int (of_char c mod 16) * 16 + int (of_char c div 16)) = of_char c mod 16 * 16 + of_char c div 16"
    by (simp add: nat_add_distrib nat_mult_distrib)
  then have esc: "uri_decode_loop www_form (- 1) n (uri_escape c @ s) =
      map_prod ((#) (nibbles_swapped c)) id (uri_decode_loop www_form (- 1) (n + 1) s)"
    by (subst uri_decode_loop.simps) (simp add: uri_escape_def x v nibbles_swapped_def)
  have plain_step: "uri_decode_loop www_form (- 1) n (c # s) = map_prod ((#) c) id (uri_decode_loop www_form (- 1) (n + 1) s)"
    if "c \<noteq> CHR ''%''" "c \<noteq> CHR ''+''" for c
    using that by (subst uri_decode_loop.simps) simp
  have plus: "uri_decode_loop True (- 1) n (CHR ''+'' # s) = map_prod ((#) (CHR '' '')) id (uri_decode_loop True (- 1) (n + 1) s)"
    by (subst uri_decode_loop.simps) simp
  consider (space) "www_form" "c = CHR '' ''" | (plain) "\<not> (www_form \<and> c = CHR '' '')" "unreserved c"
    | (escaped) "\<not> (www_form \<and> c = CHR '' '')" "\<not> unreserved c" by blast
  then show ?thesis
  proof cases
    case space
    then show ?thesis using plus by (simp add: uri_encoded_def uri_recoded_def)
  next
    case plain
    then have "c \<noteq> CHR ''%''" "c \<noteq> CHR ''+''" using reserved_chars by metis+
    from plain_step [OF this] show ?thesis
      using plain by (simp only: uri_encoded_def uri_recoded_def if_False if_True append_Cons append_Nil simp_thms)
  next
    case escaped
    then show ?thesis
      using esc by (simp only: uri_encoded_def uri_recoded_def if_False simp_thms)
  qed
qed

lemma uri_decode_all:
  "uri_decode_loop www_form (- 1) n (concat (map (uri_encoded www_form) s)) = (map (uri_recoded www_form) s, [])"
proof (induction s arbitrary: n)
  case Nil
  show ?case by (subst uri_decode_loop.simps) simp
qed (simp add: uri_decode_encoded)

section \<open>Picking a URI apart\<close>

lemma span_opt_append:
  assumes "list_all (\<lambda>c. P c = Some True) a" "b = [] \<or> P (hd b) = Some False"
  shows "span_opt P (a @ b) = Some (a, b)"
  using assms by (induction a) (cases b; simp)+

lemma strto_digit_upper: "n < 10 \<Longrightarrow> strto_digit (hexdigit_upper ! n) = n \<and> isdigit (hexdigit_upper ! n)"
proof -
  have "map strto_digit (take 10 hexdigit_upper) = [0..<10]" "map isdigit (take 10 hexdigit_upper) = replicate 10 True"
    by code_simp+
  moreover have "length hexdigit_upper = 16" by (simp add: hexdigit_upper_def)
  moreover assume "n < 10"
  ultimately show ?thesis
    using nth_map [of n "take 10 hexdigit_upper" strto_digit] nth_map [of n "take 10 hexdigit_upper" isdigit] by simp
qed

lemma dec_of_nat_strto:
  "foldl (\<lambda>v c. v * 10 + strto_digit c) 0 (dec_of_nat n) = n \<and>
   list_all (\<lambda>c. strto_digit c < 10 \<and> isdigit c) (dec_of_nat n)"
proof (induction n rule: dec_of_nat.induct)
  case (1 n)
  show ?case
  proof (cases "n < 10")
    case True
    then show ?thesis using strto_digit_upper [of n] by (simp add: dec_of_nat.simps [of n])
  next
    case False
    then show ?thesis
      using 1 strto_digit_upper [of "n mod 10"] by (subst (1 2) dec_of_nat.simps) simp
  qed
qed

lemma dec_of_nat_length: "n < 10 ^ k \<Longrightarrow> 0 < k \<Longrightarrow> length (dec_of_nat n) \<le> k"
proof (induction n arbitrary: k rule: dec_of_nat.induct)
  case (1 n)
  show ?case
  proof (cases "n < 10")
    case True
    then show ?thesis using "1.prems" by (simp add: dec_of_nat.simps [of n])
  next
    case False
    obtain j where j: "k = Suc j" using "1.prems"(2) by (cases k) auto
    moreover have "j \<noteq> 0" using False "1.prems"(1) j by (cases j) auto
    moreover have "n div 10 < 10 ^ j" using "1.prems"(1) j by (simp add: div_less_iff_less_mult mult.commute)
    ultimately show ?thesis
      using "1.IH" [OF False, of j] False by (simp add: dec_of_nat.simps [of n])
  qed
qed

lemma dec_of_nat_hd: "0 < n \<Longrightarrow> hd (dec_of_nat n) \<noteq> CHR ''0''"
proof (induction n rule: dec_of_nat.induct)
  case (1 n)
  show ?case
  proof (cases "n < 10")
    case True
    then show ?thesis using strto_digit_upper [of n] strto_digit_upper [of 0] 1(2)
      by (auto simp: dec_of_nat.simps [of n] hexdigit_upper_def)
  next
    case False
    then have "0 < n div 10" by simp
    then show ?thesis using 1(1) False dec_of_nat_value [of "n div 10"] by (simp add: dec_of_nat.simps [of n])
  qed
qed

lemma back_digits_run:
  assumes "\<And>i. i < j \<Longrightarrow> isdigit (auth ! (k + 1 + i))" "\<not> isdigit (auth ! k)" "q \<le> k"
  shows "back_digits auth q (k + 1 + j) = k"
  using assms(1)
proof (induction j)
  case 0
  then show ?case using assms(2,3) by simp
next
  case (Suc j)
  then have "isdigit (auth ! (k + 1 + j))" by simp
  then show ?case using Suc assms(3) by simp
qed

lemma after_at_none:
  "list_all (\<lambda>c. c \<notin> set ''@/?#'') a \<Longrightarrow> b = [] \<or> hd b \<in> set ''/?#'' \<Longrightarrow> after_at q i (a @ b) = q"
  by (induction a arbitrary: q i) (cases b; auto)+

lemma uri_char_Some: "uri_char ends c = Some True \<longleftrightarrow> uri_char [] c = Some True \<and> c \<notin> set ends"
  by (cases "is_uri_char_unreserved c"; cases "is_uri_char_reserved c") (simp_all add: uri_char_def)

lemma uri_char_ends: "uri_char ends c = Some True \<Longrightarrow> c \<notin> set ends"
  unfolding uri_char_Some [of ends] by blast

lemma uri_char_fewer: "uri_char ends c = Some True \<Longrightarrow> set ends' \<subseteq> set ends \<Longrightarrow> uri_char ends' c = Some True"
  unfolding uri_char_Some [of ends] uri_char_Some [of ends'] by blast

lemma uri_char_values:
  "uri_char ''?#'' (CHR ''/'') = Some True" "uri_char ''/?#'' (CHR ''/'') = Some False" "uri_char ''/?#'' (CHR '':'') = Some True"
  "is_uri_char_scheme (CHR '':'') = Some False"
  "\<not> isalpha (CHR '':'')" "\<not> isdigit (CHR '':'')"
  by code_simp+

lemma uri_char_digit: "isdigit c \<Longrightarrow> uri_char ''/?#'' c = Some True \<and> c \<noteq> CHR ''@''"
proof -
  have "list_all (\<lambda>c. uri_char ''/?#'' c = Some True \<and> c \<noteq> CHR ''@'') digits" by code_simp
  then show "isdigit c \<Longrightarrow> ?thesis" by (simp add: isdigit_def list_all_iff)
qed

lemma digit_not_space: "isdigit c \<Longrightarrow> \<not> isspace c \<and> c \<noteq> CHR ''-'' \<and> c \<noteq> CHR ''+''"
proof -
  have "list_all (\<lambda>c. \<not> isspace c \<and> c \<noteq> CHR ''-'' \<and> c \<noteq> CHR ''+'') digits" by code_simp
  then show "isdigit c \<Longrightarrow> ?thesis" by (simp add: isdigit_def list_all_iff)
qed

lemma atoi_dec_of_nat:
  assumes "n < 2 ^ 63" "t = [] \<or> hd t = CHR ''/''"
  shows "atoi (dec_of_nat n @ t) = int n"
proof -
  have d: "list_all (\<lambda>c. strto_digit c < 10 \<and> isdigit c) (dec_of_nat n)" "dec_of_nat n \<noteq> []"
    using dec_of_nat_strto [of n] dec_of_nat_value [of n] by simp_all
  then obtain c s where cs: "dec_of_nat n = c # s" "isdigit c" by (cases "dec_of_nat n") auto
  have tw: "takeWhile (\<lambda>c. strto_digit c < 10) (dec_of_nat n @ t) = dec_of_nat n"
  proof -
    have "strto_digit (CHR ''/'') = 36" by code_simp
    then show ?thesis using d assms(2) by (cases t) (auto simp: list_all_iff takeWhile_append)
  qed
  have "strto_scan 10 (dec_of_nat n @ t) = Some (False, n, t)"
    using cs digit_not_space [OF cs(2)] tw d(2) dec_of_nat_strto [of n] unfolding strto_scan_def strto_prefix_def
    by (simp add: Let_def)
  then show ?thesis using assms(1) by (simp add: atoi_def strtoll_def)
qed

definition uri_host :: "string \<Rightarrow> bool" where
  "uri_host host \<longleftrightarrow> host \<noteq> [] \<and> list_all (\<lambda>c. uri_char ''/?#'' c = Some True \<and> c \<notin> set ''@:'') host"

definition uri_path :: "string \<Rightarrow> bool" where
  "uri_path path \<longleftrightarrow> path = [] \<or> hd path = CHR ''/'' \<and> list_all (\<lambda>c. uri_char ''?#'' c = Some True) path"

text \<open>The authority \<open>host:port\<close>, followed by a path.\<close>

lemma authority_parts:
  assumes "uri_host host" "uri_path path" "0 < port" "port < 2 ^ 16" "auth = host @ CHR '':'' # dec_of_nat port @ path"
  shows "span_opt (uri_char ''/?#'') auth = Some (host @ CHR '':'' # dec_of_nat port, path)"
    "str_uri_authority_hostname auth = (auth, length host)"
    "str_uri_authority_port auth = Some (of_nat port)"
proof -
  define a where "a = host @ CHR '':'' # dec_of_nat port"
  have auth: "auth = a @ path" using assms(5) by (simp add: a_def)
  have dec: "list_all isdigit (dec_of_nat port)" "dec_of_nat port \<noteq> []"
    using dec_of_nat_strto [of port] dec_of_nat_value [of port] by (auto simp: list_all_iff)
  have chars: "list_all (\<lambda>c. uri_char ''/?#'' c = Some True) a"
    using assms(1) dec(1) uri_char_digit uri_char_values(3) by (auto simp: a_def uri_host_def list_all_iff)
  have path: "path = [] \<or> hd path = CHR ''/''" using assms(2) by (auto simp: uri_path_def)
  then show "span_opt (uri_char ''/?#'') auth = Some (host @ CHR '':'' # dec_of_nat port, path)"
    unfolding auth a_def [symmetric] using chars uri_char_values(2) by (intro span_opt_append) auto
  have no_end: "list_all (\<lambda>c. c \<notin> set ''/?#'') a"
    using chars uri_char_ends unfolding list_all_iff by metis
  moreover have "CHR ''@'' \<notin> set a"
    using assms(1) dec(1) uri_char_digit by (auto simp: a_def uri_host_def list_all_iff)
  ultimately have "list_all (\<lambda>c. c \<notin> set ''@/?#'') a" by (auto simp: list_all_iff)
  then have q: "after_at 0 0 auth = 0"
    unfolding auth by (rule after_at_none) (use path in auto)
  have p: "authority_end auth = length host + 1 + length (dec_of_nat port)"
  proof -
    have "takeWhile (\<lambda>c. c \<notin> set ''/?#'') auth = a"
      unfolding auth using no_end path by (cases path) (auto simp: takeWhile_append list_all_iff)
    then show ?thesis unfolding authority_end_def by (simp add: a_def)
  qed
  have r: "back_digits auth 0 (length host + 1 + length (dec_of_nat port)) = length host"
  proof (rule back_digits_run)
    show "isdigit (auth ! (length host + 1 + i))" if "i < length (dec_of_nat port)" for i
    proof -
      have "auth ! (length host + 1 + i) = dec_of_nat port ! i"
        using that by (simp add: assms(5) nth_append)
      then show ?thesis using dec(1) that by (simp add: list_all_length)
    qed
    show "\<not> isdigit (auth ! length host)" using uri_char_values(6) by (simp add: assms(5))
  qed simp
  have c: "auth ! length host = CHR '':''" "length host + 1 < authority_end auth"
    using dec(2) by (simp_all add: assms(5) p [unfolded assms(5)])
  show "str_uri_authority_hostname auth = (auth, length host)"
    using r c p q by (simp add: str_uri_authority_hostname_def)
  have "drop (length host + 1) auth = dec_of_nat port @ path" by (simp add: assms(5))
  moreover have "dropWhile (\<lambda>c. c = CHR ''0'') (dec_of_nat port @ path) = dec_of_nat port @ path"
    using dec(2) dec_of_nat_hd [OF assms(3)] by (cases "dec_of_nat port") auto
  moreover have "atoi (dec_of_nat port @ path) = int port"
    using assms(4) path by (intro atoi_dec_of_nat) auto
  moreover have "length (dec_of_nat port) \<le> 5"
    using assms(4) by (intro dec_of_nat_length) auto
  moreover have "int (authority_end auth) - int (length auth - length (dec_of_nat port @ path)) = int (length (dec_of_nat port))"
    unfolding p by (simp add: assms(5))
  ultimately show "str_uri_authority_port auth = Some (of_nat port)"
    using r c p q assms(4) by (simp add: str_uri_authority_port_def)
qed

section \<open>Properties\<close>

text \<open>
  (C25) The functions that pick a URI apart compose: for \<open>scheme://host:port/path\<close> with well-formed parts, \<open>str_is_uri\<close>
  accepts it, \<open>str_uri_scheme\<close> finds the scheme, \<open>str_uri_hierarchical\<close> what follows the colon,
  \<open>str_uri_hierarchical_authority\<close> the authority in it, and \<open>str_uri_authority_hostname\<close> and
  \<open>str_uri_authority_port\<close> the host and the number of the port.
\<close>

theorem uri_parts_correct:
  assumes "isalpha c" and "list_all (\<lambda>c. is_uri_char_scheme c = Some True) sch" and "uri_host host" and "uri_path path"
    and "0 < port" and "port < 2 ^ 16"
    and "auth = host @ CHR '':'' # dec_of_nat port @ path" and "uri = c # sch @ ''://'' @ auth"
  shows "str_is_uri uri = Some True \<and> str_uri_scheme uri = Some (Some (uri, Suc (length sch))) \<and>
    str_uri_hierarchical uri = Some (Some (''//'' @ auth, 2 + length auth)) \<and>
    str_uri_hierarchical_authority (''//'' @ auth) = Some (Some (auth, length auth - length path)) \<and>
    str_uri_authority_hostname auth = (auth, length host) \<and> str_uri_authority_port auth = Some (of_nat port)"
proof -
  note parts = authority_parts [OF assms(3-7)]
  have dec: "list_all isdigit (dec_of_nat port)"
    using dec_of_nat_strto [of port] by (auto simp: list_all_iff)
  have fewer: "uri_char ''/?#'' d = Some True \<Longrightarrow> uri_char ''?#'' d = Some True" for d
    by (rule uri_char_fewer) auto
  have host: "list_all (\<lambda>c. uri_char ''?#'' c = Some True) host"
    using assms(3) fewer unfolding uri_host_def list_all_iff by blast
  have num: "list_all (\<lambda>c. uri_char ''?#'' c = Some True) (dec_of_nat port)"
    using dec uri_char_digit fewer unfolding list_all_iff by blast
  have path: "list_all (\<lambda>c. uri_char ''?#'' c = Some True) path"
    using assms(4) unfolding uri_path_def by (cases path) simp_all
  have hier: "list_all (\<lambda>c. uri_char ''?#'' c = Some True) (''//'' @ auth)"
    unfolding assms(7) by (simp add: host num path uri_char_values(1) fewer [OF uri_char_values(3)])
  have span: "span_opt (uri_char ''?#'') (''//'' @ auth) = Some (''//'' @ auth, [])"
    using span_opt_append [OF hier, of "[]"] by simp
  have sch: "span_opt is_uri_char_scheme (sch @ ''://'' @ auth) = Some (sch, ''://'' @ auth)"
    using assms(2) uri_char_values(4) by (intro span_opt_append) auto
  then have scheme: "str_uri_scheme uri = Some (Some (uri, Suc (length sch)))"
    using assms(1) by (simp add: assms(8) str_uri_scheme_def)
  moreover have "str_is_uri uri = Some True"
    using scheme span by (simp add: str_is_uri_def) (simp add: assms(8))
  moreover have "str_uri_hierarchical uri = Some (Some (''//'' @ auth, 2 + length auth))"
  proof -
    have "\<forall>d \<in> set (c # sch). d \<noteq> CHR '':''"
      using assms(1,2) uri_char_values(4,5) by (auto simp: list_all_iff)
    then have "dropWhile (\<lambda>c. c \<noteq> CHR '':'') uri = ''://'' @ auth"
      by (simp add: assms(8) dropWhile_append2)
    then show ?thesis using span by (simp add: str_uri_hierarchical_def)
  qed
  moreover have "str_uri_hierarchical_authority (''//'' @ auth) = Some (Some (auth, length auth - length path))"
  proof -
    have "path = [] \<or> deref path \<in> set ''/?#''" using assms(4) by (cases path) (auto simp: uri_path_def)
    then show ?thesis using parts(1) by (auto simp: str_uri_hierarchical_authority_def assms(7))
  qed
  ultimately show ?thesis using parts(2,3) by blast
qed

theorem uri_parts_correct_witness:
  "str_is_uri ''http://a.b:8080/c'' = Some True \<and> str_uri_authority_hostname ''a.b:8080/c'' = (''a.b:8080/c'', 3) \<and>
   str_uri_authority_port ''a.b:8080/c'' = Some 8080"
proof -
  have "dec_of_nat 8080 = ''8080''" by (simp add: dec_of_nat.simps hexdigit_upper_def)
  moreover have "uri_host ''a.b''" "uri_path ''/c''" "isalpha CHR ''h''"
      "list_all (\<lambda>c. is_uri_char_scheme c = Some True) ''ttp''"
    by code_simp+
  ultimately show ?thesis
    using uri_parts_correct [of "CHR ''h''" "''ttp''" "''a.b''" "''/c''" 8080 "''a.b:8080/c''" "''http://a.b:8080/c''"] by simp
qed
text \<open>
  What encoding and decoding do together: into a destination of three times the size, \<open>uri_encode\<close> and
  \<open>www_form_uri_encode\<close> encode everything, and the decoders return the text in which every character that was
  escaped has the two halves of its code exchanged. Only text without escapes, or with symmetric
  codes, comes back: the encoder writes the low digit first.
\<close>

theorem uri_encode_decode:
  assumes "CHR 0xFF \<notin> set s" and "3 * int (length s) \<le> dstsiz"
  shows "(\<exists>out. uri_encode dstsiz s = Some (out, []) \<and>
      uri_decode (- 1) out = (map (\<lambda>c. if unreserved c then c else nibbles_swapped c) s, [])) \<and>
    (\<exists>out. www_form_uri_encode dstsiz s = Some (out, []) \<and>
      www_form_uri_decode (- 1) out = (map (\<lambda>c. if unreserved c \<or> c = CHR '' '' then c else nibbles_swapped c) s, []))"
proof -
  have enc: "uri_encode_with www dstsiz s = Some (concat (map (uri_encoded www) s), [])" for www
    using uri_encodev_loop_all [of s 0 dstsiz www] assms by (auto simp: uri_encode_with_def uri_encodev_with_def)
  have "uri_recoded False = (\<lambda>c. if unreserved c then c else nibbles_swapped c)"
      "uri_recoded True = (\<lambda>c. if unreserved c \<or> c = CHR '' '' then c else nibbles_swapped c)"
    by (auto simp: uri_recoded_def fun_eq_iff)
  then show ?thesis
    using uri_decode_all [of False 0 s] uri_decode_all [of True 0 s] enc
    by (simp add: uri_encode_def www_form_uri_encode_def uri_decode_def www_form_uri_decode_def)
qed

theorem uri_encode_decode_witness:
  "uri_encode 6 ''a/'' = Some (''a%F2'', []) \<and> uri_decode (- 1) ''a%F2'' = ([CHR ''a'', CHR 0xF2], [])"
proof -
  have "uri_encode 6 ''a/'' = Some (''a%F2'', [])" by code_simp
  moreover have "unreserved (CHR ''a'')" "\<not> unreserved (CHR ''/'')" unfolding unreserved_def by code_simp+
  moreover have "nibbles_swapped (CHR ''/'') = CHR 0xF2" by code_simp
  ultimately show ?thesis using uri_encode_decode [of "''a/''" 6] by simp
qed

text \<open>
  With \<open>dstsiz\<close> -1, which is meant to count the encoded bytes, encoding stops before the first character that
  needs an escape.
\<close>

theorem uri_encode_count_stops:
  assumes "list_all unreserved s" and "\<not> unreserved c" and "c \<noteq> CHR 0xFF"
  shows "uri_encode (- 1) (s @ c # t) = Some (s, c # t)"
proof -
  have "list_all unreserved s \<Longrightarrow> 0 \<le> n \<Longrightarrow> uri_encodev_loop False (- 1) n [s @ c # t] = Some (s, [c # t])" for n
  proof (induction s arbitrary: n)
    case Nil
    have "is_uri_char_unreserved c = Some False" using assms(2,3) by (simp add: is_uri_char_unreserved_eq)
    from uri_encodev_loop_char [OF _ this, of "- 1" n False t] show ?case using Nil by simp
  next
    case (Cons d s)
    then have "is_uri_char_unreserved d = Some True" by (simp add: unreserved_def)
    from uri_encodev_loop_char [OF _ this, of "- 1" n False "s @ c # t"] show ?case using Cons by simp
  qed
  from this [of 0] show ?thesis
    using assms(1) by (simp add: uri_encode_def uri_encode_with_def uri_encodev_with_def)
qed

theorem uri_encode_count_stops_witness: "uri_encode (- 1) ''ab cd'' = Some (''ab'', '' cd'')"
proof -
  have "list_all unreserved ''ab''" "\<not> unreserved (CHR '' '')" unfolding unreserved_def by code_simp+
  then show ?thesis using uri_encode_count_stops [of "''ab''" "CHR '' ''" "''cd''"] by simp
qed

text \<open>A percent sign is in neither class of characters, and a path ends at its first slash.\<close>

lemma str_is_uri_percent: "str_is_uri ''http://a/%20'' = Some False"
  by code_simp

lemma str_uri_path_first_segment: "str_uri_hierarchical_path ''//host/a/b'' = Some (Some (''a/b'', 1))"
  by code_simp

end
