(* ===== verification/Data_Formats.thy ===== *)
theory Data_Formats
  imports Strbuf
begin

text \<open>
  Identifiers and fixed formats: subscriber ids, bundle ids, file hashes and keys in hexadecimal
  (dataformats.c), telephone numbers, little-endian integers, wrapped comparison, and UUIDs (uuid.c).

  A binary identifier is the list of its bytes. A parser returns the identifier and the position
  behind it, or \<open>None\<close> where the C function returns -1.
\<close>

section \<open>Subscriber ids\<close>

definition SID_SIZE :: nat where "SID_SIZE = 32"

definition SID_STRLEN :: nat where "SID_STRLEN = SID_SIZE * 2"

definition SID_BROADCAST :: "byte list" where "SID_BROADCAST = replicate SID_SIZE 0xff"

definition SID_ANY :: "byte list" where "SID_ANY = replicate SID_SIZE 0"

text \<open>\<open>memcmp\<close>: the sign of the comparison of the first bytes that differ.\<close>

fun memcmp :: "byte list \<Rightarrow> byte list \<Rightarrow> int" where
  "memcmp (x # xs) (y # ys) = (if x < y then - 1 else if y < x then 1 else memcmp xs ys)"
| "memcmp _ _ = 0"

definition cmp_sid_t :: "byte list \<Rightarrow> byte list \<Rightarrow> int" where
  "cmp_sid_t a b = memcmp a b"

definition parse_sid_t :: "string \<Rightarrow> int \<Rightarrow> bool \<Rightarrow> (byte list \<times> string) option" where
  "parse_sid_t hex hexlen endp =
     (case strn_startswith hex hexlen ''broadcast'' of
        Some end \<Rightarrow> if \<not> endp \<and> hexlen = - 1 \<and> deref end \<noteq> NUL then None else Some (SID_BROADCAST, end)
      | None \<Rightarrow>
          if hexlen \<noteq> - 1 \<and> hexlen \<noteq> int SID_STRLEN then None
          else do {
            tmp \<leftarrow> fromhex hex SID_SIZE;
            if \<not> endp \<and> hexlen = - 1 \<and> deref (drop SID_STRLEN hex) \<noteq> NUL then None
            else Some (tmp, drop SID_STRLEN hex)
          })"

definition str_to_sid_t :: "string \<Rightarrow> byte list option" where
  "str_to_sid_t hex = map_option fst (parse_sid_t hex (- 1) False)"

definition strn_to_sid_t :: "string \<Rightarrow> nat \<Rightarrow> byte list option" where
  "strn_to_sid_t hex hexlen = map_option fst (parse_sid_t hex (int hexlen) False)"

text \<open>The length is that of the id at the start of the text.\<close>

definition strn_is_subscriber_id :: "string \<Rightarrow> nat option" where
  "strn_is_subscriber_id sid =
     (if map tolower (take 9 sid) = ''broadcast'' then Some 9
      else if is_xsubstring sid SID_STRLEN then Some SID_STRLEN else None)"

definition str_is_subscriber_id :: "string \<Rightarrow> bool" where
  "str_is_subscriber_id sid =
     (case strn_is_subscriber_id sid of None \<Rightarrow> False | Some len \<Rightarrow> deref (drop len sid) = NUL)"

section \<open>Rhizome ids, hashes and keys\<close>

text \<open>The parser that the three types share; \<open>n\<close> is the size in bytes.\<close>

definition parse_hex_t :: "nat \<Rightarrow> string \<Rightarrow> int \<Rightarrow> bool \<Rightarrow> (byte list \<times> string) option" where
  "parse_hex_t n hex hexlen endp =
     (if hexlen \<noteq> - 1 \<and> hexlen \<noteq> int (n * 2) then None
      else do {
        tmp \<leftarrow> fromhex hex n;
        if \<not> endp \<and> hexlen = - 1 \<and> deref (drop (n * 2) hex) \<noteq> NUL then None
        else Some (tmp, drop (n * 2) hex)
      })"

definition RHIZOME_BUNDLE_ID_BYTES :: nat where "RHIZOME_BUNDLE_ID_BYTES = 32"

definition RHIZOME_FILEHASH_BYTES :: nat where "RHIZOME_FILEHASH_BYTES = 64"

definition RHIZOME_BUNDLE_KEY_BYTES :: nat where "RHIZOME_BUNDLE_KEY_BYTES = 32"

definition RHIZOME_CRYPT_KEY_BYTES :: nat where "RHIZOME_CRYPT_KEY_BYTES = 32"

definition cmp_rhizome_bid_t :: "byte list \<Rightarrow> byte list \<Rightarrow> int" where
  "cmp_rhizome_bid_t a b = memcmp a b"

definition parse_rhizome_bid_t :: "string \<Rightarrow> int \<Rightarrow> bool \<Rightarrow> (byte list \<times> string) option" where
  "parse_rhizome_bid_t hex hexlen endp = parse_hex_t RHIZOME_BUNDLE_ID_BYTES hex hexlen endp"

definition str_to_rhizome_bid_t :: "string \<Rightarrow> byte list option" where
  "str_to_rhizome_bid_t hex = map_option fst (parse_rhizome_bid_t hex (- 1) False)"

definition strn_to_rhizome_bid_t :: "string \<Rightarrow> nat \<Rightarrow> byte list option" where
  "strn_to_rhizome_bid_t hex hexlen = map_option fst (parse_rhizome_bid_t hex (int hexlen) False)"

definition cmp_rhizome_filehash_t :: "byte list \<Rightarrow> byte list \<Rightarrow> int" where
  "cmp_rhizome_filehash_t a b = memcmp a b"

definition parse_rhizome_filehash_t :: "string \<Rightarrow> int \<Rightarrow> bool \<Rightarrow> (byte list \<times> string) option" where
  "parse_rhizome_filehash_t hex hexlen endp = parse_hex_t RHIZOME_FILEHASH_BYTES hex hexlen endp"

definition str_to_rhizome_filehash_t :: "string \<Rightarrow> byte list option" where
  "str_to_rhizome_filehash_t hex = map_option fst (parse_rhizome_filehash_t hex (- 1) False)"

definition strn_to_rhizome_filehash_t :: "string \<Rightarrow> nat \<Rightarrow> byte list option" where
  "strn_to_rhizome_filehash_t hex hexlen = map_option fst (parse_rhizome_filehash_t hex (int hexlen) False)"

definition parse_rhizome_bk_t :: "string \<Rightarrow> int \<Rightarrow> bool \<Rightarrow> (byte list \<times> string) option" where
  "parse_rhizome_bk_t hex hexlen endp = parse_hex_t RHIZOME_BUNDLE_KEY_BYTES hex hexlen endp"

definition str_to_rhizome_bk_t :: "string \<Rightarrow> byte list option" where
  "str_to_rhizome_bk_t hex = map_option fst (parse_rhizome_bk_t hex (- 1) False)"

definition strn_to_rhizome_bk_t :: "string \<Rightarrow> nat \<Rightarrow> byte list option" where
  "strn_to_rhizome_bk_t hex hexlen = map_option fst (parse_rhizome_bk_t hex (int hexlen) False)"

text \<open>
  \<open>digest\<close> stands for \<open>strn_digest_passphrase\<close>, a SHA-512 hash computed by the NaCl library, with the size
  of the result.
\<close>

definition RHIZOME_BUNDLE_SECRET_MAX_STRLEN :: nat where "RHIZOME_BUNDLE_SECRET_MAX_STRLEN = 80"

definition strn_to_rhizome_bsk_t :: "(nat \<Rightarrow> string \<Rightarrow> byte list) \<Rightarrow> string \<Rightarrow> nat \<Rightarrow> byte list option" where
  "strn_to_rhizome_bsk_t digest txt textlen =
     (if textlen > 0 \<and> deref txt = CHR ''#''
      then if textlen \<le> 1 then None
           else if textlen > RHIZOME_BUNDLE_SECRET_MAX_STRLEN + 1 then None
           else Some (digest RHIZOME_BUNDLE_KEY_BYTES (take textlen txt))
      else strn_to_rhizome_bk_t txt textlen)"

definition str_to_rhizome_bsk_t :: "(nat \<Rightarrow> string \<Rightarrow> byte list) \<Rightarrow> string \<Rightarrow> byte list option" where
  "str_to_rhizome_bsk_t digest txt = strn_to_rhizome_bsk_t digest txt (length txt)"

definition rhizome_strn_is_bundle_crypt_key :: "string \<Rightarrow> bool" where
  "rhizome_strn_is_bundle_crypt_key key = is_xsubstring key (RHIZOME_CRYPT_KEY_BYTES * 2)"

definition rhizome_str_is_bundle_crypt_key :: "string \<Rightarrow> bool" where
  "rhizome_str_is_bundle_crypt_key key = is_xstring key (RHIZOME_CRYPT_KEY_BYTES * 2)"

definition rhizome_str_is_manifest_service :: "string \<Rightarrow> bool" where
  "rhizome_str_is_manifest_service txt \<longleftrightarrow>
     txt \<noteq> [] \<and> dropWhile (\<lambda>c. isalpha c \<or> isdigit c \<or> c = CHR ''_'' \<or> c = CHR ''.'') txt = []"

definition rhizome_str_is_manifest_name :: "string \<Rightarrow> bool" where
  "rhizome_str_is_manifest_name txt \<longleftrightarrow> dropWhile (\<lambda>c. c \<noteq> CHR 0x0A \<and> c \<noteq> CHR 0x0D) txt = []"

section \<open>Telephone numbers\<close>

definition DID_MINSIZE :: nat where "DID_MINSIZE = 5"

definition DID_MAXSIZE :: nat where "DID_MAXSIZE = 32"

definition is_didchar :: "char \<Rightarrow> bool" where
  "is_didchar c \<longleftrightarrow> isdigit c \<or> c = CHR ''*'' \<or> c = CHR ''#'' \<or> c = CHR ''+''"

definition strn_is_did :: "string \<Rightarrow> nat option" where
  "strn_is_did did =
     (let i = length (takeWhile is_didchar (take DID_MAXSIZE did)) in if i < DID_MINSIZE then None else Some i)"

definition str_is_did :: "string \<Rightarrow> bool" where
  "str_is_did did = (case strn_is_did did of None \<Rightarrow> False | Some len \<Rightarrow> deref (drop len did) = NUL)"

section \<open>Little-endian integers and wrapped comparison\<close>

fun write_uint :: "nat \<Rightarrow> 'a::len word \<Rightarrow> byte list" where
  "write_uint 0 v = []"
| "write_uint (Suc n) v = ucast (v AND 0xff) # write_uint n (drop_bit 8 v)"

definition write_uint64 :: "uint64 \<Rightarrow> byte list" where "write_uint64 v = write_uint 8 v"

definition write_uint32 :: "uint32 \<Rightarrow> byte list" where "write_uint32 v = write_uint 4 v"

definition write_uint16 :: "uint16 \<Rightarrow> byte list" where "write_uint16 v = write_uint 2 v"

definition read_uint :: "nat \<Rightarrow> byte list \<Rightarrow> 'a::len word option" where
  "read_uint n o' = map_option (\<lambda>bs. foldl (\<lambda>v b. push_bit 8 v OR ucast b) 0 (rev bs)) (mem_read o' 0 n)"

definition read_uint64 :: "byte list \<Rightarrow> uint64 option" where "read_uint64 o' = read_uint 8 o'"

definition read_uint32 :: "byte list \<Rightarrow> uint32 option" where "read_uint32 o' = read_uint 4 o'"

definition read_uint16 :: "byte list \<Rightarrow> uint16 option" where "read_uint16 o' = read_uint 2 o'"

definition compare_wrapped_uint8 :: "byte \<Rightarrow> byte \<Rightarrow> int" where
  "compare_wrapped_uint8 one two = sint (one - two)"

definition compare_wrapped_uint16 :: "uint16 \<Rightarrow> uint16 \<Rightarrow> int" where
  "compare_wrapped_uint16 one two = sint (one - two)"

section \<open>UUIDs\<close>

text \<open>
  A UUID is its 16 bytes; \<open>time_hi_and_version\<close> is bytes 6 and 7 in network byte order and
  \<open>clock_seq_hi_and_reserved\<close> is byte 8.
\<close>

datatype uuid_version = UUID_VERSION_UNSUPPORTED | UUID_VERSION_TIME_BASED | UUID_VERSION_DCE_SECURITY
  | UUID_VERSION_NAME_MD5 | UUID_VERSION_RANDOM | UUID_VERSION_NAME_SHA1

definition cmp_uuid_t :: "byte list \<Rightarrow> byte list \<Rightarrow> int" where
  "cmp_uuid_t a b = memcmp a b"

definition uuid_is_valid :: "byte list \<Rightarrow> bool" where
  "uuid_is_valid uuid \<longleftrightarrow> uuid ! 8 AND 0xc0 = 0x80"

definition time_hi_and_version :: "byte list \<Rightarrow> uint16" where
  "time_hi_and_version uuid = push_bit 8 (ucast (uuid ! 6)) OR ucast (uuid ! 7)"

definition uuid_get_version :: "byte list \<Rightarrow> uuid_version option" where
  "uuid_get_version uuid = do {
     assert (uuid_is_valid uuid);
     let v = time_hi_and_version uuid AND 0xf000;
     Some (if v = 0x1000 then UUID_VERSION_TIME_BASED else if v = 0x2000 then UUID_VERSION_DCE_SECURITY
           else if v = 0x3000 then UUID_VERSION_NAME_MD5 else if v = 0x4000 then UUID_VERSION_RANDOM
           else if v = 0x5000 then UUID_VERSION_NAME_SHA1 else UUID_VERSION_UNSUPPORTED)
   }"

definition uuid_set_version :: "byte list \<Rightarrow> uuid_version \<Rightarrow> byte list option" where
  "uuid_set_version uuid version = do {
     version_bits \<leftarrow> (case version of
         UUID_VERSION_TIME_BASED \<Rightarrow> Some 0x1000 | UUID_VERSION_DCE_SECURITY \<Rightarrow> Some 0x2000
       | UUID_VERSION_NAME_MD5 \<Rightarrow> Some 0x3000 | UUID_VERSION_RANDOM \<Rightarrow> Some 0x4000
       | UUID_VERSION_NAME_SHA1 \<Rightarrow> Some 0x5000 | UUID_VERSION_UNSUPPORTED \<Rightarrow> None);
     assert (uuid_is_valid uuid);
     let v = (time_hi_and_version uuid AND 0xfff) OR version_bits;
     Some (uuid[6 := ucast (drop_bit 8 v), 7 := ucast v])
   }"

text \<open>The random bytes are an argument, \<open>None\<close> if they cannot be had.\<close>

definition uuid_generate_random :: "byte list option \<Rightarrow> byte list option option" where
  "uuid_generate_random rnd =
     (case rnd of
        None \<Rightarrow> Some None
      | Some uuid \<Rightarrow> map_option Some
          (uuid_set_version (uuid[8 := (uuid ! 8 AND 0x3f) OR 0x80]) UUID_VERSION_RANDOM))"

fun strbuf_uuid_loop :: "nat \<Rightarrow> byte list \<Rightarrow> strbuf \<Rightarrow> strbuf option" where
  "strbuf_uuid_loop i [] sb = Some sb"
| "strbuf_uuid_loop i (b # bs) sb = do {
     sb \<leftarrow> (if i \<in> {4, 6, 8, 10} then strbuf_putc sb (CHR ''-'') else Some sb);
     sb \<leftarrow> strbuf_putc sb (hexdigit_lower ! unat (drop_bit 4 b));
     sb \<leftarrow> strbuf_putc sb (hexdigit_lower ! unat (b AND 0xf));
     strbuf_uuid_loop (i + 1) bs sb
   }"

definition strbuf_uuid :: "strbuf \<Rightarrow> byte list \<Rightarrow> strbuf option" where
  "strbuf_uuid sb uuid = do {
     assert (uuid_is_valid uuid);
     strbuf_uuid_loop 0 uuid sb
   }"

definition UUID_STRLEN :: nat where "UUID_STRLEN = 36"

definition uuid_to_str :: "byte list \<Rightarrow> string \<Rightarrow> string option" where
  "uuid_to_str uuid dst = do {
     b \<leftarrow> strbuf_init (Some dst) (int (UUID_STRLEN + 1));
     b \<leftarrow> strbuf_uuid b uuid;
     assert (\<not> strbuf_overrun b);
     sb_start b
   }"

text \<open>
  \<open>str_to_uuid\<close> decodes the groups of digits straight into the result, one after the other as long as
  all went well; \<open>uuid\<close> is the content of the result. A group that falls short has stored the bytes
  before it did.
\<close>

definition uuid_group :: "nat \<Rightarrow> nat \<Rightarrow> byte list \<times> string \<Rightarrow> (bool \<times> byte list \<times> string) option" where
  "uuid_group at n = (\<lambda>(uuid, end).
     let (bs, end) = strn_fromhex (int n) end
     in do {
       uuid \<leftarrow> mem_write uuid at bs;
       Some (length bs = n, uuid, end)
     })"

definition uuid_dash_group :: "nat \<Rightarrow> nat \<Rightarrow> bool \<times> byte list \<times> string \<Rightarrow> (bool \<times> byte list \<times> string) option" where
  "uuid_dash_group at n = (\<lambda>(ok, uuid, end).
     if ok \<and> deref end = CHR ''-'' then uuid_group at n (uuid, tl end) else Some (False, uuid, end))"

definition str_to_uuid :: "string \<Rightarrow> byte list \<Rightarrow> bool \<Rightarrow> (bool \<times> byte list \<times> string) option" where
  "str_to_uuid str uuid afterp = do {
     r \<leftarrow> uuid_group 0 4 (uuid, str);
     r \<leftarrow> uuid_dash_group 4 2 r;
     r \<leftarrow> uuid_dash_group 6 2 r;
     r \<leftarrow> uuid_dash_group 8 2 r;
     (ok, uuid, end) \<leftarrow> uuid_dash_group 10 6 r;
     assert (ok \<longrightarrow> length str = UUID_STRLEN + length end);
     let ret = (ok \<and> uuid_is_valid uuid);
     Some (ret \<and> (afterp \<or> deref end = NUL), uuid, end)
   }"

section \<open>Lemmas on identifiers\<close>

lemma deref_eq_NUL: "NUL \<notin> set s \<Longrightarrow> deref s = NUL \<longleftrightarrow> s = []"
  by (cases s) (auto simp: deref_def)

lemma hex_text_length: "map toupper t = hex_of bs \<Longrightarrow> length t = 2 * length bs"
  by (metis hex_of_length length_map)

text \<open>A text without NUL that a parser of \<open>n\<close> bytes accepts up to its end is the hexadecimal representation.\<close>

lemma parse_hex_t_whole:
  assumes "NUL \<notin> set s"
  shows "map_option fst (parse_hex_t n s (- 1) False) = Some bs \<longleftrightarrow> length bs = n \<and> map toupper s = hex_of bs"
proof -
  have "NUL \<notin> set (drop (n * 2) s)" using assms by (meson in_set_dropD)
  then have "map_option fst (parse_hex_t n s (- 1) False) = Some bs \<longleftrightarrow> fromhex s n = Some bs \<and> drop (n * 2) s = []"
    by (cases "fromhex s n") (auto simp: parse_hex_t_def deref_eq_NUL)
  also have "\<dots> \<longleftrightarrow> length bs = n \<and> map toupper s = hex_of bs"
  proof -
    have "u = []" if "map toupper t = hex_of bs" "length (t @ u) \<le> length bs * 2" for t u
      using that(2) hex_text_length [OF that(1)] by simp
    moreover have "length s = length bs * 2" if "map toupper s = hex_of bs"
      using hex_text_length [OF that] by simp
    ultimately show ?thesis by (auto simp: fromhex_eq_Some)
  qed
  finally show ?thesis .
qed

lemma parse_sid_t_hex:
  "strn_startswith s hexlen ''broadcast'' = None \<Longrightarrow> parse_sid_t s hexlen endp = parse_hex_t SID_SIZE s hexlen endp"
  by (simp add: parse_sid_t_def parse_hex_t_def SID_STRLEN_def del: strn_startswith.simps cong: if_cong)

lemma strn_startswith_unlimited:
  "NUL \<notin> set sub \<Longrightarrow> len < 0 \<Longrightarrow> strn_startswith s len sub = (if prefix sub s then Some (drop (length sub) s) else None)"
proof (induction s len sub rule: strn_startswith.induct)
  case (2 s len c sub)
  then show ?case by (cases s) (auto simp: deref_def)
qed simp

lemma is_xsubstring_iff: "is_xsubstring s n \<longleftrightarrow> n \<le> length s \<and> list_all isxdigit (take n s)"
proof (induction n arbitrary: s)
  case (Suc n)
  then show ?case by (cases s) (auto simp: deref_def)
qed simp

lemma xdigits_hex_of:
  "list_all isxdigit s \<Longrightarrow> length s = 2 * n \<Longrightarrow> \<exists>bs. length bs = n \<and> map toupper s = hex_of bs"
proof (induction n arbitrary: s)
  case (Suc n)
  then obtain c0 c1 t where s: "s = c0 # c1 # t" by (metis Suc_length_conv mult_Suc_right add_2_eq_Suc)
  then obtain bs where "length bs = n" "map toupper t = hex_of bs"
    using Suc.IH [of t] Suc.prems by auto
  moreover have "map toupper [c0, c1] = hex_of [word_of_int (hexvalue c0 * 16 + hexvalue c1)]"
    using Suc.prems(1) s fromhex_step by simp
  ultimately show ?case
    using s by (intro exI [of _ "word_of_int (hexvalue c0 * 16 + hexvalue c1) # bs"]) simp
qed simp

lemma hex_of_xdigits: "map toupper s = hex_of bs \<Longrightarrow> list_all isxdigit s"
proof (induction bs arbitrary: s)
  case (Cons b bs)
  then obtain c0 c1 t where s: "s = c0 # c1 # t" "map toupper t = hex_of bs" "map toupper [c0, c1] = hex_of [b]"
    by (auto simp: Cons_eq_map_conv map_eq_Cons_conv)
  then show ?case using Cons.IH [OF s(2)] fromhex_step [of c0 c1 b] by simp
qed simp

lemma not_isxdigit_r: "tolower c = CHR ''r'' \<Longrightarrow> \<not> isxdigit c"
proof -
  have "\<forall>c \<in> set ''0123456789ABCDEFabcdef''. tolower c \<noteq> CHR ''r''" by code_simp
  then show "tolower c = CHR ''r'' \<Longrightarrow> \<not> isxdigit c" unfolding isxdigit_mem by blast
qed

lemma tolower_broadcast: "map tolower ''broadcast'' = ''broadcast''"
  by code_simp

lemma not_xdigits_broadcast:
  assumes "map tolower (take 9 s) = ''broadcast''"
  shows "\<not> list_all isxdigit s"
proof -
  have "length (take 9 s) = 9" using arg_cong [OF assms, of length] by (simp del: length_take)
  then have "1 < length s" by simp
  moreover have "tolower (s ! 1) = CHR ''r''"
    using arg_cong [OF assms, of "\<lambda>xs. xs ! 1"] \<open>1 < length s\<close> by simp
  ultimately show ?thesis using not_isxdigit_r by (auto simp: list_all_length)
qed

lemma str_is_subscriber_id_hex:
  assumes "map tolower (take 9 s) \<noteq> ''broadcast''" "NUL \<notin> set s"
  shows "str_is_subscriber_id s \<longleftrightarrow> (\<exists>sid. length sid = SID_SIZE \<and> map toupper s = hex_of sid)"
proof
  assume "str_is_subscriber_id s"
  then have x: "SID_STRLEN \<le> length s" "list_all isxdigit (take SID_STRLEN s)" "deref (drop SID_STRLEN s) = NUL"
    using assms(1) by (auto simp: str_is_subscriber_id_def strn_is_subscriber_id_def is_xsubstring_iff split: if_splits)
  have "NUL \<notin> set (drop SID_STRLEN s)" using assms(2) by (meson in_set_dropD)
  then have "length s = 2 * SID_SIZE" using x by (simp add: deref_eq_NUL SID_STRLEN_def)
  then show "\<exists>sid. length sid = SID_SIZE \<and> map toupper s = hex_of sid"
    using xdigits_hex_of [of s SID_SIZE] x(2) by (simp add: SID_STRLEN_def)
next
  assume "\<exists>sid. length sid = SID_SIZE \<and> map toupper s = hex_of sid"
  then obtain sid where sid: "length sid = SID_SIZE" "map toupper s = hex_of sid" by blast
  then have "length s = SID_STRLEN" "list_all isxdigit s"
    using hex_text_length [OF sid(2)] hex_of_xdigits [OF sid(2)] sid(1) by (simp_all add: SID_STRLEN_def)
  then show "str_is_subscriber_id s"
    using assms(1) by (simp add: str_is_subscriber_id_def strn_is_subscriber_id_def is_xsubstring_iff deref_def)
qed

lemma str_is_subscriber_id_broadcast:
  assumes "map tolower (take 9 s) = ''broadcast''" "NUL \<notin> set s"
  shows "str_is_subscriber_id s \<longleftrightarrow> map tolower s = ''broadcast''"
proof -
  have "NUL \<notin> set (drop 9 s)" using assms(2) by (meson in_set_dropD)
  then have "str_is_subscriber_id s \<longleftrightarrow> length s \<le> 9"
    using assms(1) by (simp add: str_is_subscriber_id_def strn_is_subscriber_id_def deref_eq_NUL)
  also have "\<dots> \<longleftrightarrow> map tolower s = ''broadcast''"
    using assms(1) arg_cong [of "map tolower s" "''broadcast''" length] by auto
  finally show ?thesis .
qed

lemma str_to_sid_t_iff:
  assumes "NUL \<notin> set s"
  shows "str_to_sid_t s = Some sid \<longleftrightarrow>
    s = ''broadcast'' \<and> sid = SID_BROADCAST \<or> length sid = SID_SIZE \<and> map toupper s = hex_of sid"
proof (cases "prefix ''broadcast'' s")
  case True
  then obtain u where u: "s = ''broadcast'' @ u" by (auto simp: prefix_def)
  have "map toupper s \<noteq> hex_of sid"
    using hex_of_xdigits [of s sid] not_xdigits_broadcast [of s] u tolower_broadcast by auto
  moreover have "NUL \<notin> set u" using assms u by simp
  moreover have "strn_startswith s (- 1) ''broadcast'' = Some u"
    using True u by (subst strn_startswith_unlimited) simp_all
  ultimately show ?thesis
    using u by (auto simp: str_to_sid_t_def parse_sid_t_def deref_eq_NUL simp del: strn_startswith.simps)
next
  case False
  then have "strn_startswith s (- 1) ''broadcast'' = None"
    by (subst strn_startswith_unlimited) simp_all
  then show ?thesis
    using False parse_hex_t_whole [OF assms, of SID_SIZE sid]
    by (auto simp: str_to_sid_t_def parse_sid_t_hex simp del: strn_startswith.simps)
qed

section \<open>Lemmas on integers\<close>

lemma write_uint_length [simp]: "length (write_uint n v) = n"
  by (induction n v rule: write_uint.induct) simp_all

lemma foldl_bytes_bit:
  fixes v :: "'a::len word"
  assumes "8 * n \<le> LENGTH('a)" "k < LENGTH('a)"
  shows "bit (foldr (\<lambda>b v. push_bit 8 v OR ucast b) (write_uint n v) (0 :: 'a word)) k \<longleftrightarrow> k < 8 * n \<and> bit v k"
  using assms
proof (induction n arbitrary: v k)
  case (Suc n)
  show ?case
  proof (cases "k < 8")
    case True
    then show ?thesis
      using Suc.prems by (auto simp: bit_simps)
  next
    case False
    then show ?thesis
      using Suc.prems Suc.IH [of "k - 8" "drop_bit 8 v"] by (auto simp: bit_simps dest: bit_imp_le_length)
  qed
qed simp

lemma read_write_uint:
  fixes v :: "'a::len word"
  assumes "8 * n = LENGTH('a)"
  shows "read_uint n (write_uint n v @ rest) = Some v"
proof -
  have "foldr (\<lambda>b v. push_bit 8 v OR ucast b) (write_uint n v) 0 = v"
    by (rule bit_word_eqI) (use foldl_bytes_bit [of n _ v] assms in auto)
  then show ?thesis
    by (simp add: read_uint_def mem_read_def foldl_conv_foldr)
qed

section \<open>Lemmas on UUIDs\<close>

lemma time_hi_and_version_set:
  "length uuid = 16 \<Longrightarrow> time_hi_and_version (uuid[6 := ucast (drop_bit 8 v), 7 := ucast v]) = v"
  by (rule bit_word_eqI) (auto simp: time_hi_and_version_def bit_simps)

lemma version_bits_apart: "(x AND 0xfff OR y) AND (0xf000 :: uint16) = y AND 0xf000"
  by (simp add: bit.conj_disj_distrib2 and.assoc)

lemma uuid_set_version_Some:
  assumes "length uuid = 16" "uuid_is_valid uuid" "version \<noteq> UUID_VERSION_UNSUPPORTED"
  obtains uuid' where "uuid_set_version uuid version = Some uuid'" "length uuid' = 16" "uuid_is_valid uuid'"
    "uuid_get_version uuid' = Some version" "uuid' ! 6 AND 0xf = uuid ! 6 AND 0xf"
    "\<forall>i. i \<noteq> 6 \<longrightarrow> uuid' ! i = uuid ! i"
proof -
  define bits :: uint16 where "bits = (case version of UUID_VERSION_TIME_BASED \<Rightarrow> 0x1000
    | UUID_VERSION_DCE_SECURITY \<Rightarrow> 0x2000 | UUID_VERSION_NAME_MD5 \<Rightarrow> 0x3000 | UUID_VERSION_RANDOM \<Rightarrow> 0x4000
    | _ \<Rightarrow> 0x5000)"
  define v where "v = (time_hi_and_version uuid AND 0xfff) OR bits"
  define u where "u = uuid[6 := ucast (drop_bit 8 v), 7 := ucast v]"
  have bits: "bits AND 0xf000 = bits" "bits AND 0x0fff = 0"
    using assms(3) by (cases version; simp add: bits_def)+
  have "v AND 0xf000 = bits"
    by (simp add: v_def version_bits_apart bits)
  then have get: "uuid_get_version u = Some version"
    using assms time_hi_and_version_set [OF assms(1), of v]
    by (cases version) (simp_all add: uuid_get_version_def u_def uuid_is_valid_def bits_def)
  have low: "v AND 0xfff = time_hi_and_version uuid AND 0xfff"
    by (simp add: v_def bit.conj_disj_distrib2 bits)
  have "bit (0xfff :: uint16) k" if "k < 12" for k
    using that bit_mask_iff [of 12 k, where 'a = uint16] by (simp add: mask_eq_exp_minus_1)
  then have lowbit: "bit v k = bit (time_hi_and_version uuid) k" if "k < 12" for k
    using arg_cong [OF low, of "\<lambda>w. bit w k"] that by (auto simp: bit_simps)
  have nibble: "x AND 0xf = take_bit 4 x" for x :: byte
    by (simp add: take_bit_eq_mask mask_eq_exp_minus_1)
  have high: "\<not> bit x (8 + n)" for x :: byte and n
    using bit_imp_le_length [of x "8 + n"] by auto
  have "ucast v = uuid ! 7"
    by (rule bit_word_eqI) (auto simp: bit_simps lowbit time_hi_and_version_def)
  moreover have "ucast (drop_bit 8 v) AND 0xf = uuid ! 6 AND 0xf"
    unfolding nibble by (rule bit_word_eqI) (auto simp: bit_simps high lowbit time_hi_and_version_def)
  moreover have "uuid_set_version uuid version = Some u"
    using assms by (cases version) (simp_all add: uuid_set_version_def u_def v_def bits_def)
  ultimately show ?thesis
    using that [of u] assms get by (auto simp: u_def uuid_is_valid_def nth_list_update)
qed

text \<open>The canonical text, in upper case.\<close>

definition uuid_text :: "byte list \<Rightarrow> string" where
  "uuid_text u = hex_of (take 4 u) @ ''-'' @ hex_of (take 2 (drop 4 u)) @ ''-'' @ hex_of (take 2 (drop 6 u)) @
     ''-'' @ hex_of (take 2 (drop 8 u)) @ ''-'' @ hex_of (drop 10 u)"

fun uuid_digits :: "nat \<Rightarrow> byte list \<Rightarrow> string" where
  "uuid_digits i [] = []"
| "uuid_digits i (b # bs) = (if i \<in> {4, 6, 8, 10} then ''-'' else []) @ hex_of [b] @ uuid_digits (i + 1) bs"

lemma uuid_digits_append: "uuid_digits i (xs @ ys) = uuid_digits i xs @ uuid_digits (i + length xs) ys"
  by (induction xs arbitrary: i) auto

lemma uuid_digits_group:
  "\<forall>j. i \<le> j \<and> j < i + length bs \<longrightarrow> j \<notin> {4, 6, 8, 10} \<Longrightarrow> uuid_digits i bs = hex_of bs"
proof (induction bs arbitrary: i)
  case (Cons b bs)
  have "i \<notin> {4, 6, 8, 10}" using Cons.prems [rule_format, of i] by simp
  moreover have "uuid_digits (i + 1) bs = hex_of bs"
    using Cons.prems by (intro Cons.IH) auto
  ultimately show ?case by simp
qed simp

lemma uuid_digits_dash_group:
  assumes "(i, length bs) \<in> {(4, 2), (6, 2), (8, 2), (10, 6)}"
  shows "uuid_digits i bs = ''-'' @ hex_of bs"
proof -
  obtain b bs' where bs: "bs = b # bs'" using assms by (cases bs) auto
  then have "uuid_digits (i + 1) bs' = hex_of bs'"
    using assms by (intro uuid_digits_group) auto
  then show ?thesis using assms bs by auto
qed

lemma uuid_split:
  "length u = 16 \<Longrightarrow> u = take 4 u @ take 2 (drop 4 u) @ take 2 (drop 6 u) @ take 2 (drop 8 u) @ drop 10 u"
  by (rule nth_equalityI) (auto simp: nth_append)

lemma uuid_text_digits:
  assumes "length u = 16"
  shows "uuid_text u = uuid_digits 0 u"
proof -
  obtain a b c d e where u: "u = a @ b @ c @ d @ e" "length a = 4" "length b = 2" "length c = 2" "length d = 2" "length e = 6"
    using that [OF uuid_split [OF assms]] assms by simp
  have "uuid_digits 0 a = hex_of a" using u(2) by (intro uuid_digits_group) auto
  then show ?thesis
    using u by (simp add: uuid_text_def uuid_digits_append uuid_digits_dash_group)
qed

lemma toupper_dash: "toupper c = CHR ''-'' \<longleftrightarrow> c = CHR ''-''"
proof -
  have "CHR ''-'' \<notin> set uppers \<and> CHR ''-'' \<notin> set lowers" by code_simp
  then show ?thesis
    by (auto simp: toupper_def dest: map_of_SomeD set_zip_rightD set_zip_leftD split: option.splits)
qed

lemma tolower_hexdigit: "n < 16 \<Longrightarrow> tolower (hexdigit_upper ! n) = hexdigit_lower ! n"
proof -
  have "\<forall>n \<in> set [0..<16]. tolower (hexdigit_upper ! n) = hexdigit_lower ! n" by code_simp
  then show "n < 16 \<Longrightarrow> tolower (hexdigit_upper ! n) = hexdigit_lower ! n" by simp
qed

lemma tolower_dash: "tolower (CHR ''-'') = CHR ''-''"
  by code_simp

lemma strbuf_uuid_loop_appends: "appends (strbuf_uuid_loop i bs) (map tolower (uuid_digits i bs))"
proof (induction bs arbitrary: i)
  case Nil
  then show ?case using appends_Some by (simp add: appends_def)
next
  case (Cons b bs)
  have dash: "appends (\<lambda>sb. if i \<in> {4, 6, 8, 10} then strbuf_putc sb (CHR ''-'') else Some sb)
      (map tolower (if i \<in> {4, 6, 8, 10} then ''-'' else []))"
    using strbuf_putc_appends [of "CHR ''-''"] appends_Some by (auto simp: tolower_dash)
  have "appends (\<lambda>sb. (if i \<in> {4, 6, 8, 10} then strbuf_putc sb (CHR ''-'') else Some sb) \<bind> (\<lambda>sb.
      strbuf_putc sb (hexdigit_lower ! unat (drop_bit 4 b)) \<bind> (\<lambda>sb.
      strbuf_putc sb (hexdigit_lower ! unat (b AND 0xf)) \<bind> strbuf_uuid_loop (i + 1) bs)))
     (map tolower (if i \<in> {4, 6, 8, 10} then ''-'' else []) @
      [hexdigit_lower ! unat (drop_bit 4 b)] @ [hexdigit_lower ! unat (b AND 0xf)] @
      map tolower (uuid_digits (i + 1) bs))"
    by (intro appends_bind dash strbuf_putc_appends Cons.IH)
  then show ?case
    using nibbles(1,2) [of b] by (simp add: tolower_hexdigit)
qed

lemma uuid_text_length: "length u = 16 \<Longrightarrow> length (uuid_text u) = UUID_STRLEN"
  by (simp add: uuid_text_def UUID_STRLEN_def)

lemma uuid_to_str_text:
  assumes "length u = 16" "uuid_is_valid u" "UUID_STRLEN < length dst"
  shows "uuid_to_str u dst = Some (map tolower (uuid_text u) @ NUL # drop (UUID_STRLEN + 1) dst)"
proof -
  obtain sb where sb: "strbuf_init (Some dst) (int (UUID_STRLEN + 1)) = Some sb" "sb_rel (Some dst) UUID_STRLEN [] sb"
    using strbuf_init_rel [of "UUID_STRLEN + 1" dst] assms(3) by auto
  then obtain sb' where sb': "strbuf_uuid_loop 0 u sb = Some sb'"
      "sb_rel (Some dst) UUID_STRLEN (map tolower (uuid_text u)) sb'"
    using appendsD [OF strbuf_uuid_loop_appends, of "Some dst" UUID_STRLEN "[]" sb 0 u] uuid_text_digits [OF assms(1)]
    by auto
  then show ?thesis
    using sb assms(2) uuid_text_length [OF assms(1)]
    by (auto simp: uuid_to_str_def strbuf_uuid_def strbuf_overrun_def sb_rel_def sb_text_def)
qed

text \<open>
  The state of the parser between the groups: as long as all went well, the text read so far is that
  of the first \<open>k\<close> bytes of the result.
\<close>

definition uuid_parsed :: "string \<Rightarrow> nat \<Rightarrow> bool \<times> byte list \<times> string \<Rightarrow> bool" where
  "uuid_parsed s k = (\<lambda>(ok, v, end). length v = 16 \<and>
     (ok \<longrightarrow> (\<exists>t. s = t @ end \<and> map toupper t = uuid_digits 0 (take k v))))"

lemma uuid_group_result:
  assumes "length v = 16" "at + n \<le> 16"
  obtains bs t "end" where "uuid_group at n (v, s) = Some (length bs = n, take at v @ bs @ drop (at + length bs) v, end)"
    "s = t @ end" "map toupper t = hex_of bs" "length bs \<le> n"
proof -
  obtain bs "end" where r: "strn_fromhex (int n) s = (bs, end)" by fastforce
  then obtain t where t: "s = t @ end" "map toupper t = hex_of bs" "length bs \<le> n"
    using strn_fromhex_loop_sound [of n 0 s bs "end"] by (auto simp: strn_fromhex_def)
  then show ?thesis
    using that [of bs "end" t] assms r by (simp add: uuid_group_def mem_write_Some)
qed

lemma uuid_first_group:
  assumes "length v = 16"
  shows "\<exists>r. uuid_group 0 4 (v, s) = Some r \<and> uuid_parsed s 4 r"
proof -
  obtain bs t "end" where r: "uuid_group 0 4 (v, s) = Some (length bs = 4, take 0 v @ bs @ drop (0 + length bs) v, end)"
      "s = t @ end" "map toupper t = hex_of bs" "length bs \<le> 4"
    by (rule uuid_group_result [of v 0 4 s]) (simp_all add: assms)
  have "length bs = 4 \<Longrightarrow> uuid_digits 0 bs = hex_of bs" by (intro uuid_digits_group) auto
  then show ?thesis using r assms by (auto simp: uuid_parsed_def)
qed

lemma uuid_next_group:
  assumes "uuid_parsed s at r" "(at, n) \<in> {(4, 2), (6, 2), (8, 2), (10, 6)}"
  shows "\<exists>r'. uuid_dash_group at n r = Some r' \<and> uuid_parsed s (at + n) r'"
proof -
  obtain ok v "end" where r: "r = (ok, v, end)" by (cases r)
  have v: "length v = 16" using assms(1) r by (simp add: uuid_parsed_def)
  show ?thesis
  proof (cases "ok \<and> deref end = CHR ''-''")
    case True
    then obtain rest where e: "end = CHR ''-'' # rest" by (cases "end") (auto simp: deref_def)
    obtain t where t: "s = t @ end" "map toupper t = uuid_digits 0 (take at v)"
      using True assms(1) r by (auto simp: uuid_parsed_def)
    obtain bs t' end' where g: "uuid_group at n (v, rest) = Some (length bs = n, take at v @ bs @ drop (at + length bs) v, end')"
        "rest = t' @ end'" "map toupper t' = hex_of bs" "length bs \<le> n"
      by (rule uuid_group_result [of v at n rest]) (use v assms(2) in auto)
    have "length bs = n \<Longrightarrow> uuid_digits 0 (take at v @ bs) = uuid_digits 0 (take at v) @ ''-'' @ hex_of bs"
      using assms(2) v by (auto simp: uuid_digits_append uuid_digits_dash_group)
    moreover have "length bs = n \<Longrightarrow> take (at + n) (take at v @ bs @ drop (at + length bs) v) = take at v @ bs"
      using assms(2) v by auto
    ultimately have "uuid_parsed s (at + n) (length bs = n, take at v @ bs @ drop (at + length bs) v, end')"
      using t e g assms(2) v
      by (auto simp: uuid_parsed_def toupper_dash intro!: exI [of _ "t @ CHR ''-'' # t'"])
    then show ?thesis using True r e g(1) by (simp add: uuid_dash_group_def)
  next
    case False
    then show ?thesis using r v by (auto simp: uuid_dash_group_def uuid_parsed_def)
  qed
qed

lemma str_to_uuid_sound:
  assumes "length v = 16"
  shows "\<exists>ok u end. str_to_uuid s v afterp = Some (ok, u, end) \<and> length u = 16 \<and>
    (ok \<longrightarrow> uuid_is_valid u \<and> (afterp \<or> deref end = NUL) \<and> (\<exists>t. s = t @ end \<and> map toupper t = uuid_text u))"
proof -
  obtain r1 where r1: "uuid_group 0 4 (v, s) = Some r1" "uuid_parsed s 4 r1" using uuid_first_group [OF assms] by blast
  obtain r2 where r2: "uuid_dash_group 4 2 r1 = Some r2" "uuid_parsed s 6 r2" using uuid_next_group [OF r1(2), of 2] by auto
  obtain r3 where r3: "uuid_dash_group 6 2 r2 = Some r3" "uuid_parsed s 8 r3" using uuid_next_group [OF r2(2), of 2] by auto
  obtain r4 where r4: "uuid_dash_group 8 2 r3 = Some r4" "uuid_parsed s 10 r4" using uuid_next_group [OF r3(2), of 2] by auto
  obtain r5 where r5: "uuid_dash_group 10 6 r4 = Some r5" "uuid_parsed s 16 r5" using uuid_next_group [OF r4(2), of 6] by auto
  obtain ok u "end" where r: "r5 = (ok, u, end)" by (cases r5)
  have u: "length u = 16" "ok \<longrightarrow> (\<exists>t. s = t @ end \<and> map toupper t = uuid_text u)"
    using r5(2) r uuid_text_digits by (auto simp: uuid_parsed_def)
  moreover have "length t = UUID_STRLEN" if "map toupper t = uuid_text u" for t
    using arg_cong [OF that, of length] uuid_text_length [OF u(1)] by (simp only: length_map)
  ultimately have "ok \<longrightarrow> length s = UUID_STRLEN + length end" by fastforce
  then show ?thesis
    using u r1(1) r2(1) r3(1) r4(1) r5(1) r by (auto simp: str_to_uuid_def)
qed

lemma uuid_group_complete:
  "map toupper t = hex_of bs \<Longrightarrow> length bs = n \<Longrightarrow> at + n \<le> length v \<Longrightarrow>
   uuid_group at n (v, t @ end) = Some (True, take at v @ bs @ drop (at + n) v, end)"
  using strn_fromhex_loop_complete [of t bs n 0 "end"]
  by (simp add: uuid_group_def strn_fromhex_def mem_write_Some)

lemma uuid_dash_group_complete:
  "map toupper t = ''-'' @ hex_of bs \<Longrightarrow> length bs = n \<Longrightarrow> at + n \<le> length v \<Longrightarrow>
   uuid_dash_group at n (True, v, t @ end) = Some (True, take at v @ bs @ drop (at + n) v, end)"
  by (auto simp: uuid_dash_group_def map_eq_Cons_conv toupper_dash deref_def uuid_group_complete)

lemma map_split_append: "map f t = x @ y \<Longrightarrow> \<exists>u v. t = u @ v \<and> map f u = x \<and> map f v = y"
  by (metis map_eq_append_conv)

lemma str_to_uuid_complete:
  assumes "length v = 16" "length u = 16" "uuid_is_valid u" "map toupper t = uuid_text u" "afterp \<or> deref end = NUL"
  shows "str_to_uuid (t @ end) v afterp = Some (True, u, end)"
proof -
  define a b c d e where "a = take 4 u" and "b = take 2 (drop 4 u)" and "c = take 2 (drop 6 u)" and
    "d = take 2 (drop 8 u)" and "e = drop 10 u"
  note defs = a_def b_def c_def d_def e_def
  have len: "length a = 4" "length b = 2" "length c = 2" "length d = 2" "length e = 6"
    using assms(2) by (simp_all add: defs)
  have u: "a @ b @ c @ d @ e = u"
    unfolding defs by (rule uuid_split [OF assms(2), symmetric])
  have "map toupper t = hex_of a @ (''-'' @ hex_of b) @ (''-'' @ hex_of c) @ (''-'' @ hex_of d) @ (''-'' @ hex_of e)"
    using assms(4) by (simp add: uuid_text_def defs)
  then obtain ta t1 where 1: "t = ta @ t1" "map toupper ta = hex_of a"
      "map toupper t1 = (''-'' @ hex_of b) @ (''-'' @ hex_of c) @ (''-'' @ hex_of d) @ (''-'' @ hex_of e)"
    using map_split_append by blast
  then obtain tb t2 where 2: "t1 = tb @ t2" "map toupper tb = ''-'' @ hex_of b"
      "map toupper t2 = (''-'' @ hex_of c) @ (''-'' @ hex_of d) @ (''-'' @ hex_of e)"
    using map_split_append [OF 1(3)] by blast
  then obtain tc t3 where 3: "t2 = tc @ t3" "map toupper tc = ''-'' @ hex_of c"
      "map toupper t3 = (''-'' @ hex_of d) @ (''-'' @ hex_of e)"
    using map_split_append [OF 2(3)] by blast
  then obtain td te where 4: "t3 = td @ te" "map toupper td = ''-'' @ hex_of d" "map toupper te = ''-'' @ hex_of e"
    using map_split_append [OF 3(3)] by blast
  have t: "t = ta @ tb @ tc @ td @ te" using 1(1) 2(1) 3(1) 4(1) by simp
  have "length t = UUID_STRLEN"
    using arg_cong [OF assms(4), of length] uuid_text_length [OF assms(2)] by (simp only: length_map)
  then show ?thesis
    using assms(1,3,5) len u [symmetric]
    by (simp add: str_to_uuid_def t uuid_group_complete [OF 1(2)] uuid_dash_group_complete [OF 2(2)]
        uuid_dash_group_complete [OF 3(2)] uuid_dash_group_complete [OF 4(2)] uuid_dash_group_complete [OF 4(3)])
qed

section \<open>Properties\<close>

text \<open>
  (C22) Subscriber ids in text. For a text (without NUL) \<open>str_to_sid_t\<close> accepts exactly ``broadcast'',
  which is the all-ones id, and the 64 digit hexadecimal representations in either case, and returns
  the id represented; \<open>str_is_subscriber_id\<close> accepts the same texts and, beyond them, the word
  ``broadcast'' in other cases, which \<open>str_to_sid_t\<close> refuses.
\<close>

theorem str_to_sid_t_exact:
  assumes "NUL \<notin> set s"
  shows "(str_to_sid_t s = Some sid \<longleftrightarrow>
      s = ''broadcast'' \<and> sid = SID_BROADCAST \<or> length sid = SID_SIZE \<and> map toupper s = hex_of sid) \<and>
    (str_is_subscriber_id s \<longleftrightarrow> map tolower s = ''broadcast'' \<or> (\<exists>sid. str_to_sid_t s = Some sid))"
proof
  show "str_to_sid_t s = Some sid \<longleftrightarrow>
      s = ''broadcast'' \<and> sid = SID_BROADCAST \<or> length sid = SID_SIZE \<and> map toupper s = hex_of sid"
    by (rule str_to_sid_t_iff [OF assms])
  show "str_is_subscriber_id s \<longleftrightarrow> map tolower s = ''broadcast'' \<or> (\<exists>sid. str_to_sid_t s = Some sid)"
  proof (cases "map tolower (take 9 s) = ''broadcast''")
    case True
    then have "map toupper s \<noteq> hex_of sid" for sid
      using not_xdigits_broadcast [OF True] hex_of_xdigits by blast
    moreover have "map tolower s = ''broadcast''" if "s = ''broadcast''"
      using True that by simp
    ultimately show ?thesis
      by (auto simp: str_is_subscriber_id_broadcast [OF True assms] str_to_sid_t_iff [OF assms])
  next
    case False
    then have "map tolower s \<noteq> ''broadcast''"
      using take_map [of 9 tolower s] by auto
    moreover have "s \<noteq> ''broadcast''"
      using False tolower_broadcast by auto
    ultimately show ?thesis
      by (simp add: str_is_subscriber_id_hex [OF False assms] str_to_sid_t_iff [OF assms])
  qed
qed

theorem str_to_sid_t_exact_witness:
  "NUL \<notin> set ''BROADCAST'' \<and> str_is_subscriber_id ''BROADCAST'' \<and> str_to_sid_t ''BROADCAST'' \<noteq> Some SID_BROADCAST"
proof -
  have "str_is_subscriber_id ''BROADCAST''" by code_simp
  moreover have "map toupper ''BROADCAST'' \<noteq> hex_of SID_BROADCAST"
    using hex_text_length [of "''BROADCAST''" SID_BROADCAST] by (auto simp: SID_BROADCAST_def SID_SIZE_def)
  ultimately show ?thesis
    using str_to_sid_t_exact [of "''BROADCAST''" SID_BROADCAST] by simp
qed

text \<open>
  Little-endian integers: what \<open>write_uint64\<close>, \<open>write_uint32\<close> and \<open>write_uint16\<close> store is read back
  by the matching function, and takes 8, 4 and 2 bytes.
\<close>

theorem uint_roundtrip:
  "(read_uint64 (write_uint64 v @ rest) = Some v \<and> length (write_uint64 v) = 8) \<and>
   (read_uint32 (write_uint32 w @ rest) = Some w \<and> length (write_uint32 w) = 4) \<and>
   (read_uint16 (write_uint16 x @ rest) = Some x \<and> length (write_uint16 x) = 2)"
  by (simp add: read_uint64_def read_uint32_def read_uint16_def write_uint64_def write_uint32_def write_uint16_def
      read_write_uint)

text \<open>
  Comparison of counters that wrap: as long as two counters are less than half the range apart,
  the result is their distance, also across the wrap.
\<close>

theorem compare_wrapped_correct:
  "(- 128 \<le> d \<and> d < 128 \<longrightarrow> compare_wrapped_uint8 (two + word_of_int d) two = d) \<and>
   (- 32768 \<le> e \<and> e < 32768 \<longrightarrow> compare_wrapped_uint16 (four + word_of_int e) four = e)"
  by (auto simp: compare_wrapped_uint8_def compare_wrapped_uint16_def sint_sbintrunc' signed_take_bit_int_eq_self)

theorem compare_wrapped_correct_witness:
  "compare_wrapped_uint8 (255 + word_of_int 2) 255 = 2 \<and> compare_wrapped_uint16 (1 + word_of_int (- 2)) 1 = - 2"
  using compare_wrapped_correct [of 2 255 "- 2" 1] by simp

text \<open>
  (C24) UUIDs stay valid: \<open>uuid_set_version\<close> on a valid UUID succeeds for every supported version, gives
  a valid UUID of that version and changes nothing but the version, which is the four highest bits of
  the seventh byte; \<open>uuid_generate_random\<close> makes a valid UUID of the random version from any random
  bytes, and keeps every random bit but the version and the variant, the two highest bits of the ninth byte.
\<close>

theorem uuid_versions:
  assumes "length uuid = 16" "uuid_is_valid uuid" "version \<noteq> UUID_VERSION_UNSUPPORTED" "length rnd = 16"
  shows "(\<exists>uuid'. uuid_set_version uuid version = Some uuid' \<and> length uuid' = 16 \<and> uuid_is_valid uuid' \<and>
      uuid_get_version uuid' = Some version \<and> uuid' ! 6 AND 0xf = uuid ! 6 AND 0xf \<and>
      (\<forall>i. i \<noteq> 6 \<longrightarrow> uuid' ! i = uuid ! i)) \<and>
    (\<exists>uuid'. uuid_generate_random (Some rnd) = Some (Some uuid') \<and> length uuid' = 16 \<and> uuid_is_valid uuid' \<and>
      uuid_get_version uuid' = Some UUID_VERSION_RANDOM \<and> uuid' ! 6 AND 0xf = rnd ! 6 AND 0xf \<and>
      uuid' ! 8 AND 0x3f = rnd ! 8 AND 0x3f \<and> (\<forall>i. i \<noteq> 6 \<and> i \<noteq> 8 \<longrightarrow> uuid' ! i = rnd ! i))"
proof
  obtain uuid' where "uuid_set_version uuid version = Some uuid'" "length uuid' = 16" "uuid_is_valid uuid'"
      "uuid_get_version uuid' = Some version" "uuid' ! 6 AND 0xf = uuid ! 6 AND 0xf"
      "\<forall>i. i \<noteq> 6 \<longrightarrow> uuid' ! i = uuid ! i"
    by (rule uuid_set_version_Some [OF assms(1-3)])
  then show "\<exists>uuid'. uuid_set_version uuid version = Some uuid' \<and> length uuid' = 16 \<and> uuid_is_valid uuid' \<and>
      uuid_get_version uuid' = Some version \<and> uuid' ! 6 AND 0xf = uuid ! 6 AND 0xf \<and>
      (\<forall>i. i \<noteq> 6 \<longrightarrow> uuid' ! i = uuid ! i)"
    by (intro exI [of _ uuid'] conjI)
  define r where "r = rnd[8 := (rnd ! 8 AND 0x3f) OR 0x80]"
  have "length r = 16" "uuid_is_valid r"
    using assms(4) by (simp_all add: r_def uuid_is_valid_def bit.conj_disj_distrib2 and.assoc)
  then obtain u where u: "uuid_set_version r UUID_VERSION_RANDOM = Some u" "length u = 16" "uuid_is_valid u"
      "uuid_get_version u = Some UUID_VERSION_RANDOM" "u ! 6 AND 0xf = r ! 6 AND 0xf" "\<forall>i. i \<noteq> 6 \<longrightarrow> u ! i = r ! i"
    by (rule uuid_set_version_Some [of r UUID_VERSION_RANDOM]) simp
  have "u ! 8 AND 0x3f = rnd ! 8 AND 0x3f"
    using u(6) assms(4) by (simp add: r_def bit.conj_disj_distrib2 and.assoc)
  moreover have "u ! i = rnd ! i" if "i \<noteq> 6" "i \<noteq> 8" for i using u(6) that by (simp add: r_def)
  moreover have "u ! 6 AND 0xf = rnd ! 6 AND 0xf" using u(5) by (simp add: r_def)
  moreover have "uuid_generate_random (Some rnd) = Some (Some u)" using u(1) by (simp add: uuid_generate_random_def r_def)
  ultimately show "\<exists>uuid'. uuid_generate_random (Some rnd) = Some (Some uuid') \<and> length uuid' = 16 \<and> uuid_is_valid uuid' \<and>
      uuid_get_version uuid' = Some UUID_VERSION_RANDOM \<and> uuid' ! 6 AND 0xf = rnd ! 6 AND 0xf \<and>
      uuid' ! 8 AND 0x3f = rnd ! 8 AND 0x3f \<and> (\<forall>i. i \<noteq> 6 \<and> i \<noteq> 8 \<longrightarrow> uuid' ! i = rnd ! i)"
    using u(2-4) by (intro exI [of _ u] conjI allI impI) blast+
qed

theorem uuid_versions_witness:
  "\<exists>uuid'. uuid_set_version (replicate 16 0x80) UUID_VERSION_NAME_MD5 = Some uuid' \<and> uuid_is_valid uuid'"
proof -
  have "uuid_is_valid (replicate 16 0x80)" by (simp add: uuid_is_valid_def)
  then show ?thesis
    using uuid_versions [of "replicate 16 0x80" UUID_VERSION_NAME_MD5 "replicate 16 0"] by auto
qed

text \<open>
  (C19) UUID text, both ways. \<open>uuid_to_str\<close> writes a valid UUID in lower case in the canonical five
  groups, with a terminating NUL and nothing behind it touched. \<open>str_to_uuid\<close> never fails its
  assertion; it accepts, before any rest, exactly the canonical texts in either case of the valid
  UUIDs, and returns the UUID and the rest.
\<close>

theorem uuid_text_roundtrip:
  assumes "length u = 16" "length v = 16" "UUID_STRLEN < length dst"
  shows "(uuid_is_valid u \<longrightarrow> uuid_to_str u dst = Some (map tolower (uuid_text u) @ NUL # drop (UUID_STRLEN + 1) dst)) \<and>
    str_to_uuid s v True \<noteq> None \<and>
    (str_to_uuid s v True = Some (True, u, end) \<longleftrightarrow>
      uuid_is_valid u \<and> (\<exists>t. s = t @ end \<and> map toupper t = uuid_text u))"
  using uuid_to_str_text [OF assms(1) _ assms(3)] str_to_uuid_sound [OF assms(2), of s True]
    str_to_uuid_complete [OF assms(2,1)] by fastforce

theorem uuid_text_roundtrip_witness:
  "str_to_uuid (''00000000-0000-4000-8000-0000000000aB'' @ '' x'') (replicate 16 0) True =
     Some (True, [0, 0, 0, 0, 0, 0, 0x40, 0, 0x80, 0, 0, 0, 0, 0, 0, 0xab], '' x'')"
proof -
  have "map toupper ''00000000-0000-4000-8000-0000000000aB'' =
      uuid_text [0, 0, 0, 0, 0, 0, 0x40, 0, 0x80, 0, 0, 0, 0, 0, 0, 0xab]" by code_simp
  moreover have "uuid_is_valid [0, 0, 0, 0, 0, 0, 0x40, 0, 0x80, 0, 0, 0, 0, 0, 0, 0xab]" by code_simp
  ultimately show ?thesis
    using uuid_text_roundtrip [of "[0, 0, 0, 0, 0, 0, 0x40, 0, 0x80, 0, 0, 0, 0, 0, 0, 0xab]" "replicate 16 0"
        "replicate 37 NUL" "''00000000-0000-4000-8000-0000000000aB'' @ '' x''" "'' x''"]
    by (simp add: UUID_STRLEN_def del: append_Cons)
qed

text \<open>A text that is refused has changed the result.\<close>

lemma str_to_uuid_changes_result:
  "str_to_uuid ''01020304-zz'' (replicate 16 0) True = Some (False, [1, 2, 3, 4] @ replicate 12 0, ''zz'')"
  by code_simp

end
