(* ===== verification/Subscriber_Tree.thy ===== *)
theory Subscriber_Tree
  imports Data_Formats
begin

text \<open>
  The subscriber tree of overlay_address.c: a radix tree over the nibbles of the subscriber ids, in
  which a subscriber is found by its whole id or by a prefix that no other known subscriber shares.

  A pointer to a \<open>struct subscriber\<close> is the index of the struct in the list \<open>subscribers\<close> of all the
  structs allocated so far (structs are never freed while the daemon runs). The 16 slots of a tree
  node with their \<open>is_tree\<close> bits are a list of \<open>slot\<close>s. Of \<open>struct subscriber\<close> only the fields that this
  file reads or writes are kept.

  The \<open>n\<close>-th call of the allocator returns a zeroed object if \<open>mem n\<close>, and NULL otherwise.
\<close>

section \<open>The state\<close>

record subscriber =
  sid :: "byte list"
  abbreviate_len :: nat
  send_full :: bool
  reachable_self :: bool
  last_explained :: int

datatype slot = Slot_empty | Slot_subscriber nat | Slot_tree "slot list"

record subscriber_state =
  root :: "slot list"
  subscribers :: "subscriber list"
  mallocs :: nat

definition empty_node :: "slot list" where
  "empty_node = replicate 16 Slot_empty"

definition emalloc_zero :: "(nat \<Rightarrow> bool) \<Rightarrow> subscriber_state \<Rightarrow> bool \<times> subscriber_state" where
  "emalloc_zero mem st = (mem (mallocs st), st\<lparr>mallocs := mallocs st + 1\<rparr>)"

definition get_nibble :: "byte list \<Rightarrow> nat \<Rightarrow> nat" where
  "get_nibble sidp pos =
     (let byte = sidp ! (pos div 2); byte = (if even pos then drop_bit 4 byte else byte) in unat (byte AND 0xF))"

section \<open>Finding and creating subscribers\<close>

text \<open>
  The loop of \<open>_find_subscriber\<close>, entered with \<open>pos < len * 2\<close>: \<open>node\<close> is what \<open>ptr\<close> points to, and the result has the
  node as the loop leaves it. The new subscriber and the new node are the zeroed objects of
  \<open>emalloc_zero\<close> with the fields that the code assigns.
\<close>

function find_loop :: "(nat \<Rightarrow> bool) \<Rightarrow> byte list \<Rightarrow> nat \<Rightarrow> bool \<Rightarrow> nat option \<Rightarrow> nat \<Rightarrow> slot list \<Rightarrow> subscriber_state \<Rightarrow>
    nat option \<times> slot list \<times> subscriber_state" where
  "find_loop mem sidp len create ret pos node st =
     (let nibble = get_nibble sidp pos; pos = pos + 1
      in case node ! nibble of
           Slot_tree child \<Rightarrow>
             if pos < len * 2
             then let (ret, child, st) = find_loop mem sidp len create ret pos child st
                  in (ret, node[nibble := Slot_tree child], st)
             else (ret, node, st)
         | Slot_empty \<Rightarrow>
             if create
             then let (ok, st) = emalloc_zero mem st
                  in if ok
                     then let p = length (subscribers st);
                              new = \<lparr>sid = take SID_SIZE sidp, abbreviate_len = pos, send_full = False,
                                     reachable_self = False, last_explained = 0\<rparr>
                          in (Some p, node[nibble := Slot_subscriber p], st\<lparr>subscribers := subscribers st @ [new]\<rparr>)
                     else (None, node, st)
             else (ret, node, st)
         | Slot_subscriber p \<Rightarrow>
             let s = subscribers st ! p
             in if memcmp (take len (sid s)) (take len sidp) = 0 then (Some p, node, st)
                else if \<not> create then (None, node, st)
                else let (ok, st) = emalloc_zero mem st
                     in if \<not> ok then (None, node, st)
                        else let new = empty_node[get_nibble (sid s) pos := Slot_subscriber p];
                                 st = st\<lparr>subscribers := (subscribers st)[p := s\<lparr>abbreviate_len := pos + 1\<rparr>]\<rparr>
                             in if pos < len * 2
                                then let (ret, new, st) = find_loop mem sidp len create (Some p) pos new st
                                     in (ret, node[nibble := Slot_tree new], st)
                                else (Some p, node[nibble := Slot_tree new], st))"
  by pat_completeness auto
termination
  by (relation "measure (\<lambda>(mem, sidp, len, create, ret, pos, node, st). len * 2 - pos)") auto

declare find_loop.simps [simp del]

text \<open>
  The prefix is read from the caller's object, its first byte even if \<open>len\<close> is 0, and compared with the
  \<open>SID_SIZE\<close> bytes of an id: reading past either is undefined.
\<close>

definition find_subscriber :: "(nat \<Rightarrow> bool) \<Rightarrow> byte list \<Rightarrow> nat \<Rightarrow> bool \<Rightarrow> subscriber_state \<Rightarrow>
    (nat option \<times> subscriber_state) option" where
  "find_subscriber mem sidp len create st = do {
     assert (sidp \<noteq> [] \<and> len \<le> length sidp \<and> len \<le> SID_SIZE);
     let create = (create \<and> len = SID_SIZE);
     let (ret, node, st) = find_loop mem sidp len create None 0 (root st) st;
     Some (ret, st\<lparr>root := node\<rparr>)
   }"

section \<open>Walking the tree\<close>

text \<open>
  The callback maps the pointer and its context to the new context and whether to stop. \<open>walk_slots\<close>
  is the loop over the slots \<open>i..15\<close> of a node at depth \<open>pos\<close>; \<open>start\<close> is the id to start from.
\<close>

lemma size_list_drop: "size_list size (drop n xs) \<le> size_list size xs"
proof (induction n arbitrary: xs)
  case (Suc n)
  show ?case
  proof (cases xs)
    case (Cons x l)
    then show ?thesis using Suc.IH [of l] by simp
  qed simp
qed simp

function walk_slots :: "slot list \<Rightarrow> nat \<Rightarrow> byte list option \<Rightarrow> (nat \<Rightarrow> 'c \<Rightarrow> bool \<times> 'c) \<Rightarrow> 'c \<Rightarrow> bool \<times> 'c" where
  "walk_slots [] pos start callback c = (False, c)"
| "walk_slots (s # slots) pos start callback c =
     (let (stop, c) =
        (case s of
           Slot_tree node \<Rightarrow>
             walk_slots (case start of None \<Rightarrow> node | Some s0 \<Rightarrow> drop (get_nibble s0 (pos + 1)) node) (pos + 1) start callback c
         | Slot_subscriber p \<Rightarrow> callback p c
         | Slot_empty \<Rightarrow> (False, c))
      in if stop then (True, c) else walk_slots slots pos None callback c)"
  by pat_completeness auto
termination
proof (relation "measure (\<lambda>(slots, pos, start, callback, c). size_list size slots)", goal_cases)
  case (2 s slots pos start callback c node)
  have "size_list size (case start of None \<Rightarrow> node | Some s0 \<Rightarrow> drop (get_nibble s0 (pos + 1)) node) \<le> size_list size node"
    by (cases start) (auto simp: size_list_drop)
  then show ?case using 2 by simp
qed auto

definition walk_tree :: "slot list \<Rightarrow> nat \<Rightarrow> byte list option \<Rightarrow> (nat \<Rightarrow> 'c \<Rightarrow> bool \<times> 'c) \<Rightarrow> 'c \<Rightarrow> bool \<times> 'c" where
  "walk_tree node pos start callback c =
     walk_slots (case start of None \<Rightarrow> node | Some s0 \<Rightarrow> drop (get_nibble s0 pos) node) pos start callback c"

definition enum_subscribers :: "subscriber_state \<Rightarrow> nat option \<Rightarrow> (nat \<Rightarrow> 'c \<Rightarrow> bool \<times> 'c) \<Rightarrow> 'c \<Rightarrow> bool \<times> 'c" where
  "enum_subscribers st start callback c =
     walk_tree (root st) 0 (map_option (\<lambda>p. sid (subscribers st ! p)) start) callback c"

text \<open>The descent of \<open>prefix_matches\<close> to the node that holds the matching subscribers.\<close>

function prefix_loop :: "subscriber list \<Rightarrow> byte list \<Rightarrow> nat \<Rightarrow> nat \<Rightarrow> slot list \<Rightarrow> (nat \<Rightarrow> 'c \<Rightarrow> bool \<times> 'c) \<Rightarrow> 'c \<Rightarrow> 'c" where
  "prefix_loop subs idp len pos node callback c =
     (if pos < len * 2
      then case node ! get_nibble idp pos of
             Slot_tree child \<Rightarrow> prefix_loop subs idp len (pos + 1) child callback c
           | Slot_subscriber p \<Rightarrow>
               if memcmp (take len (sid (subs ! p))) (take len idp) = 0 then snd (callback p c) else c
           | Slot_empty \<Rightarrow> c
      else snd (walk_tree node (pos + 1) None callback c))"
  by pat_completeness auto
termination
  by (relation "measure (\<lambda>(subs, idp, len, pos, node, callback, c). len * 2 - pos)") auto

declare prefix_loop.simps [simp del]

definition prefix_matches :: "subscriber_state \<Rightarrow> byte list \<Rightarrow> nat \<Rightarrow> (nat \<Rightarrow> 'c \<Rightarrow> bool \<times> 'c) \<Rightarrow> 'c \<Rightarrow> 'c" where
  "prefix_matches st idp len callback c = prefix_loop (subscribers st) idp len 0 (root st) callback c"

section \<open>Broadcast packet identifiers\<close>

definition BROADCAST_LEN :: nat where "BROADCAST_LEN = 8"

definition MAX_BPIS :: nat where "MAX_BPIS = 1024"

definition bpi_index :: "byte list \<Rightarrow> nat" where
  "bpi_index addr =
     unat (foldl (\<lambda>b x. ((push_bit 3 b AND 0xfff8) + (drop_bit 13 b AND 0x7)) XOR ucast x) (0 :: uint32) addr AND 0x3ff)"

definition overlay_broadcast_generate_address :: "(nat \<Rightarrow> uint32) \<Rightarrow> byte list" where
  "overlay_broadcast_generate_address random = map (\<lambda>i. ucast (random i AND 0xff)) [0..<BROADCAST_LEN]"

definition overlay_broadcast_drop_check :: "byte list \<Rightarrow> byte list list \<Rightarrow> bool \<times> byte list list" where
  "overlay_broadcast_drop_check addr bpilist =
     (let i = bpi_index addr
      in if memcmp (bpilist ! i) addr \<noteq> 0 then (False, bpilist[i := addr]) else (True, bpilist))"

end
