(* ===== verification/Subscriber_Tree_Correct.thy ===== *)
theory Subscriber_Tree_Correct
  imports Subscriber_Tree
begin

text \<open>
  Correctness of the subscriber tree: the invariant, that a lookup finds exactly the subscriber
  that an abbreviation identifies, that creation keeps the invariant and the pointers, and that the
  walks visit the subscribers in the order of their ids.
\<close>

section \<open>The invariant\<close>

text \<open>
  The slot at the end of a path of nibbles. A subscriber stands at the end of a path that starts its
  id, as long as its \<open>abbreviate_len\<close>.
\<close>

fun slot_at :: "slot \<Rightarrow> nat list \<Rightarrow> slot option" where
  "slot_at s [] = Some s"
| "slot_at (Slot_tree t) (i # q) = (if i < length t then slot_at (t ! i) q else None)"
| "slot_at _ (i # q) = None"

definition path_of :: "byte list \<Rightarrow> nat \<Rightarrow> nat list" where
  "path_of s n = map (get_nibble s) [0..<n]"

definition slot_ok :: "subscriber list \<Rightarrow> nat list \<Rightarrow> slot \<Rightarrow> bool" where
  "slot_ok subs path s \<longleftrightarrow> (\<forall>q x. slot_at s q = Some x \<longrightarrow>
     (case x of
        Slot_empty \<Rightarrow> True
      | Slot_subscriber p \<Rightarrow> p < length subs \<and> length (sid (subs ! p)) = SID_SIZE \<and>
          abbreviate_len (subs ! p) = length (path @ q) \<and> path_of (sid (subs ! p)) (length (path @ q)) = path @ q
      | Slot_tree t \<Rightarrow> length t = 16 \<and> length (path @ q) < SID_STRLEN))"

definition pointers :: "slot \<Rightarrow> nat set" where
  "pointers s = {p. \<exists>q. slot_at s q = Some (Slot_subscriber p)}"

text \<open>The invariant of the whole state; every struct that was allocated is in the tree.\<close>

definition tree_wf :: "subscriber_state \<Rightarrow> bool" where
  "tree_wf st \<longleftrightarrow> slot_ok (subscribers st) [] (Slot_tree (root st)) \<and>
     pointers (Slot_tree (root st)) = {..<length (subscribers st)}"

definition known_sids :: "subscriber_state \<Rightarrow> byte list set" where
  "known_sids st = sid ` set (subscribers st)"

lemma get_nibble_less: "get_nibble s k < 16"
proof -
  have "unat (b AND 0xF :: byte) < 16" for b
    using nibbles(2) [of b] by simp
  then show ?thesis by (simp add: get_nibble_def Let_def)
qed

lemma byte_eq_nibbles:
  fixes a b :: byte
  assumes "drop_bit 4 a AND 0xF = drop_bit 4 b AND 0xF" "a AND 0xF = b AND 0xF"
  shows "a = b"
proof (rule bit_word_eqI)
  fix n assume n: "n < LENGTH(8)"
  have m: "x AND 0xF = take_bit 4 x" for x :: byte by (simp add: take_bit_eq_mask mask_eq_exp_minus_1)
  show "bit a n = bit b n"
    using arg_cong [OF assms(1), of "\<lambda>w. bit w (n - 4)"] arg_cong [OF assms(2), of "\<lambda>w. bit w n"] n
    by (cases "n < 4") (auto simp: m bit_simps)
qed

lemma path_of_take: "path_of a (2 * n) = path_of b (2 * n) \<longleftrightarrow> take n a = take n b"
  if "n \<le> length a" "n \<le> length b"
proof
  assume "take n a = take n b"
  then have "a ! i = b ! i" if "i < n" for i
    using that by (metis nth_take)
  then show "path_of a (2 * n) = path_of b (2 * n)"
    by (auto simp: path_of_def get_nibble_def)
next
  assume eq: "path_of a (2 * n) = path_of b (2 * n)"
  have "a ! i = b ! i" if "i < n" for i
  proof (rule byte_eq_nibbles)
    have n: "get_nibble a k = get_nibble b k" if "k < 2 * n" for k
      using arg_cong [OF eq, of "\<lambda>xs. xs ! k"] that by (simp add: path_of_def)
    show "drop_bit 4 (a ! i) AND 0xF = drop_bit 4 (b ! i) AND 0xF"
      using n [of "2 * i"] that by (simp add: get_nibble_def word_unat_eq_iff)
    show "(a ! i) AND 0xF = (b ! i) AND 0xF"
      using n [of "2 * i + 1"] that by (simp add: get_nibble_def word_unat_eq_iff)
  qed
  then show "take n a = take n b"
    using that by (intro nth_take_lemma) auto
qed

lemma path_of_Suc: "path_of s (Suc n) = path_of s n @ [get_nibble s n]"
  by (simp add: path_of_def)

lemma path_of_length [simp]: "length (path_of s n) = n"
  by (simp add: path_of_def)

lemma path_of_mono: "path_of a n = path_of b n \<Longrightarrow> m \<le> n \<Longrightarrow> path_of a m = path_of b m"
  by (auto simp: path_of_def)

lemma path_of_take_path: "m \<le> n \<Longrightarrow> take m (path_of a n) = path_of a m"
  by (simp add: path_of_def take_map)

lemma memcmp_eq_0: "length xs = length ys \<Longrightarrow> memcmp xs ys = 0 \<longleftrightarrow> xs = ys"
  by (induction xs ys rule: list_induct2) auto

lemma slot_at_append: "slot_at s (q @ r) = (case slot_at s q of None \<Rightarrow> None | Some x \<Rightarrow> slot_at x r)"
  by (induction s q rule: slot_at.induct) auto

lemma slot_at_leaf: "slot_at (Slot_subscriber p) q = Some x \<longleftrightarrow> q = [] \<and> x = Slot_subscriber p"
  by (cases q) auto

lemma pointers_simps [simp]:
  "pointers Slot_empty = {}"
  "pointers (Slot_subscriber p) = {p}"
proof -
  show "pointers Slot_empty = {}"
    unfolding pointers_def by (auto elim: slot_at.elims)
  show "pointers (Slot_subscriber p) = {p}"
    by (auto simp: pointers_def slot_at_leaf)
qed

lemma pointers_tree: "pointers (Slot_tree t) = (\<Union>i < length t. pointers (t ! i))"
proof -
  have "slot_at (Slot_tree t) q = Some (Slot_subscriber p) \<longleftrightarrow>
      (\<exists>i r. q = i # r \<and> i < length t \<and> slot_at (t ! i) r = Some (Slot_subscriber p))" for q p
    by (cases q) auto
  then show ?thesis by (auto simp: pointers_def)
qed

lemma slot_ok_child: "slot_ok subs path (Slot_tree t) \<Longrightarrow> i < length t \<Longrightarrow> slot_ok subs (path @ [i]) (t ! i)"
  unfolding slot_ok_def by (intro allI impI) (elim allE [where x = "i # _"], auto split: slot.splits)

lemma slot_ok_tree:
  "slot_ok subs path (Slot_tree t) \<longleftrightarrow>
   length t = 16 \<and> length path < SID_STRLEN \<and> (\<forall>i < 16. slot_ok subs (path @ [i]) (t ! i))"
proof
  assume ok: "slot_ok subs path (Slot_tree t)"
  then have "length t = 16 \<and> length path < SID_STRLEN"
    using ok [unfolded slot_ok_def, rule_format, of "[]" "Slot_tree t"] by simp
  then show "length t = 16 \<and> length path < SID_STRLEN \<and> (\<forall>i < 16. slot_ok subs (path @ [i]) (t ! i))"
    using slot_ok_child [OF ok] by simp
next
  assume t: "length t = 16 \<and> length path < SID_STRLEN \<and> (\<forall>i < 16. slot_ok subs (path @ [i]) (t ! i))"
  show "slot_ok subs path (Slot_tree t)"
    unfolding slot_ok_def
  proof (intro allI impI)
    fix q x
    assume x: "slot_at (Slot_tree t) q = Some x"
    show "case x of Slot_empty \<Rightarrow> True
      | Slot_subscriber p \<Rightarrow> p < length subs \<and> length (sid (subs ! p)) = SID_SIZE \<and>
          abbreviate_len (subs ! p) = length (path @ q) \<and> path_of (sid (subs ! p)) (length (path @ q)) = path @ q
      | Slot_tree t \<Rightarrow> length t = 16 \<and> length (path @ q) < SID_STRLEN"
    proof (cases q)
      case Nil
      then show ?thesis using x t by (cases x) auto
    next
      case (Cons i r)
      then have "i < 16" "slot_at (t ! i) r = Some x" using x t by (auto split: if_splits)
      then show ?thesis
        using t [THEN conjunct2, THEN conjunct2, rule_format, of i, unfolded slot_ok_def, rule_format, of r x] Cons by (cases x) simp_all
    qed
  qed
qed

lemma slot_ok_leaf:
  "slot_ok subs path (Slot_subscriber p) \<longleftrightarrow> p < length subs \<and> length (sid (subs ! p)) = SID_SIZE \<and>
     abbreviate_len (subs ! p) = length path \<and> path_of (sid (subs ! p)) (length path) = path"
  by (auto simp: slot_ok_def slot_at_leaf)

lemma slot_ok_empty [simp]: "slot_ok subs path Slot_empty"
  unfolding slot_ok_def by (auto elim!: slot_at.elims)

lemma slot_at_depth:
  assumes "slot_ok subs path (Slot_tree t)" "slot_at (Slot_tree t) q = Some x"
  shows "length (path @ q) \<le> SID_STRLEN"
proof (cases q rule: rev_cases)
  case Nil
  then show ?thesis using assms(1) by (simp add: slot_ok_tree)
next
  case (snoc r i)
  then obtain y where y: "slot_at (Slot_tree t) r = Some y" "slot_at y [i] = Some x"
    using assms(2) by (auto simp: slot_at_append split: option.splits)
  then obtain t' where "y = Slot_tree t'" by (cases y) auto
  then have "length (path @ r) < SID_STRLEN"
    using assms(1) [unfolded slot_ok_def, rule_format, OF y(1)] by simp
  then show ?thesis using snoc by simp
qed

lemma slot_ok_pointer:
  assumes "slot_ok subs path s" "p \<in> pointers s"
  shows "p < length subs \<and> length (sid (subs ! p)) = SID_SIZE \<and> length path \<le> abbreviate_len (subs ! p) \<and>
    path_of (sid (subs ! p)) (length path) = path \<and>
    (\<exists>q. slot_at s q = Some (Slot_subscriber p) \<and> path_of (sid (subs ! p)) (abbreviate_len (subs ! p)) = path @ q)"
proof -
  obtain q where q: "slot_at s q = Some (Slot_subscriber p)" using assms(2) by (auto simp: pointers_def)
  then have ok: "p < length subs \<and> length (sid (subs ! p)) = SID_SIZE \<and>
      abbreviate_len (subs ! p) = length (path @ q) \<and> path_of (sid (subs ! p)) (length (path @ q)) = path @ q"
    using assms(1) [unfolded slot_ok_def, rule_format, OF q] by simp
  moreover have "path_of (sid (subs ! p)) (length path) = path"
    using path_of_take_path [of "length path" "length (path @ q)" "sid (subs ! p)"] ok by simp
  ultimately show ?thesis using q by auto
qed

section \<open>Lookup\<close>

text \<open>
  Subscribers at different places have ids that differ within the shorter of their paths.
\<close>

lemma pointer_unique:
  assumes ok: "slot_ok subs path s" and p: "p \<in> pointers s" and p': "p' \<in> pointers s"
    and "abbreviate_len (subs ! p) \<le> 2 * len" "len \<le> SID_SIZE"
    and eq: "take len (sid (subs ! p)) = take len (sid (subs ! p'))"
  shows "p = p'"
proof -
  let ?a = "abbreviate_len (subs ! p)" and ?a' = "abbreviate_len (subs ! p')"
  obtain q where q: "slot_at s q = Some (Slot_subscriber p)" "path_of (sid (subs ! p)) ?a = path @ q"
    using slot_ok_pointer [OF ok p] by blast
  obtain q' where q': "slot_at s q' = Some (Slot_subscriber p')" "path_of (sid (subs ! p')) ?a' = path @ q'"
    using slot_ok_pointer [OF ok p'] by blast
  have "path_of (sid (subs ! p)) (2 * len) = path_of (sid (subs ! p')) (2 * len)"
    using path_of_take [of len "sid (subs ! p)" "sid (subs ! p')"] slot_ok_pointer [OF ok p] slot_ok_pointer [OF ok p'] assms(5) eq
    by simp
  then have same: "path_of (sid (subs ! p)) m = path_of (sid (subs ! p')) m" if "m \<le> 2 * len" for m
    using that by (rule path_of_mono)
  show ?thesis
  proof (cases "?a \<le> ?a'")
    case True
    then have "take ?a (path @ q') = path @ q"
      using q(2) q'(2) same [OF assms(4)] path_of_take_path [of ?a ?a' "sid (subs ! p')"] by simp
    then obtain r where "q' = q @ r" by (metis append_take_drop_id same_append_eq append_assoc)
    then show ?thesis using q(1) q'(1) by (simp add: slot_at_append slot_at_leaf)
  next
    case False
    then have "take ?a' (path @ q) = path @ q'"
      using q(2) q'(2) same [of ?a'] assms(4) path_of_take_path [of ?a' ?a "sid (subs ! p)"] by simp
    then obtain r where "q = q' @ r" by (metis append_take_drop_id same_append_eq append_assoc)
    then show ?thesis using q(1) q'(1) by (simp add: slot_at_append slot_at_leaf)
  qed
qed

text \<open>Below a node, the subscribers that share one more nibble are in one slot.\<close>

lemma pointers_slot:
  assumes "slot_ok subs path (Slot_tree node)" "p \<in> pointers (Slot_tree node)" "i < 16"
  shows "p \<in> pointers (node ! i) \<longleftrightarrow> i = get_nibble (sid (subs ! p)) (length path)"
proof -
  have l: "length node = 16" using assms(1) by (simp add: slot_ok_tree)
  have *: "j = get_nibble (sid (subs ! p)) (length path)" if "j < 16" "p \<in> pointers (node ! j)" for j
    using slot_ok_pointer [OF slot_ok_child [OF assms(1)] that(2)] that(1) l by (simp add: path_of_Suc)
  obtain j where "j < 16" "p \<in> pointers (node ! j)" using assms(2) l by (auto simp: pointers_tree)
  then show ?thesis using * assms(3) by blast
qed

lemma find_loop_lookup:
  assumes "slot_ok (subscribers st) (path_of sidp pos) (Slot_tree node)" "pos < 2 * len" "len \<le> length sidp" "len \<le> SID_SIZE"
  shows "\<exists>r. find_loop mem sidp len False None pos node st = (r, node, st) \<and>
    (\<forall>p. r = Some p \<longleftrightarrow> p \<in> pointers (Slot_tree node) \<and> take len (sid (subscribers st ! p)) = take len sidp \<and>
       abbreviate_len (subscribers st ! p) \<le> 2 * len)"
  using assms
proof (induction "2 * len - pos" arbitrary: pos node rule: less_induct)
  case less
  let ?i = "get_nibble sidp pos" and ?subs = "subscribers st"
  let ?match = "\<lambda>p. take len (sid (?subs ! p)) = take len sidp \<and> abbreviate_len (?subs ! p) \<le> 2 * len"
  have l: "length node = 16" using less.prems(1) by (simp add: slot_ok_tree)
  have child: "slot_ok ?subs (path_of sidp (Suc pos)) (node ! ?i)"
    using slot_ok_child [OF less.prems(1), of ?i] l get_nibble_less by (simp add: path_of_Suc)
  have below: "p \<in> pointers (node ! ?i)" if "p \<in> pointers (Slot_tree node)" "?match p" for p
  proof -
    have "path_of (sid (?subs ! p)) (2 * len) = path_of sidp (2 * len)"
      using path_of_take [of len "sid (?subs ! p)" sidp] slot_ok_pointer [OF less.prems(1) that(1)] that(2) less.prems(3,4)
      by simp
    then have "path_of (sid (?subs ! p)) (Suc pos) = path_of sidp (Suc pos)"
      using less.prems(2) path_of_mono by (metis Suc_leI)
    then show ?thesis
      using pointers_slot [OF less.prems(1) that(1), of ?i] get_nibble_less by (simp add: path_of_Suc)
  qed
  have up: "p \<in> pointers (Slot_tree node)" if "p \<in> pointers (node ! ?i)" for p
    using that l get_nibble_less [of sidp pos] by (auto simp: pointers_tree)
  have found: "p \<in> pointers (Slot_tree node) \<and> ?match p \<longleftrightarrow> p \<in> pointers (node ! ?i) \<and> ?match p" for p
    using below [of p] up [of p] by blast
  show ?case
  proof (cases "node ! ?i")
    case Slot_empty
    then have "find_loop mem sidp len False None pos node st = (None, node, st)"
      by (subst find_loop.simps) simp
    then show ?thesis by (simp add: found Slot_empty)
  next
    case (Slot_subscriber p)
    have p: "length (sid (?subs ! p)) = SID_SIZE" "abbreviate_len (?subs ! p) = Suc pos"
      using child Slot_subscriber by (simp_all add: slot_ok_leaf)
    have "memcmp (take len (sid (?subs ! p))) (take len sidp) = 0 \<longleftrightarrow> take len (sid (?subs ! p)) = take len sidp"
      using p(1) less.prems(3,4) by (intro memcmp_eq_0) simp
    then have "find_loop mem sidp len False None pos node st =
        (if take len (sid (?subs ! p)) = take len sidp then Some p else None, node, st)"
      using Slot_subscriber by (subst find_loop.simps) (simp add: Let_def)
    then show ?thesis using p(2) less.prems(2) by (simp add: found Slot_subscriber) auto
  next
    case (Slot_tree c)
    show ?thesis
    proof (cases "Suc pos < 2 * len")
      case True
      have ok: "slot_ok ?subs (path_of sidp (Suc pos)) (Slot_tree c)" using child Slot_tree by simp
      have lt: "2 * len - Suc pos < 2 * len - pos" using less.prems(2) by linarith
      have same: "node[?i := Slot_tree c] = node" using Slot_tree list_update_id [of node ?i] by simp
      obtain r where r: "find_loop mem sidp len False None (Suc pos) c st = (r, c, st)"
          "\<forall>p. r = Some p \<longleftrightarrow> p \<in> pointers (Slot_tree c) \<and> ?match p"
        using less.hyps [OF lt ok True less.prems(3,4)] by blast
      have "find_loop mem sidp len False None pos node st = (r, node, st)"
        using Slot_tree True r(1) same by (subst find_loop.simps) (simp add: Let_def mult.commute)
      then show ?thesis using r(2) by (simp add: found Slot_tree)
    next
      case False
      have "find_loop mem sidp len False None pos node st = (None, node, st)"
        using Slot_tree False by (subst find_loop.simps) (simp add: Let_def)
      moreover have "\<not> ?match p" if "p \<in> pointers (Slot_tree c)" for p
      proof -
        obtain j where "j < length c" "p \<in> pointers (c ! j)" using \<open>p \<in> pointers (Slot_tree c)\<close> by (auto simp: pointers_tree)
        then show ?thesis
          using slot_ok_pointer [OF slot_ok_child [OF child [unfolded Slot_tree], of j], of p] False by auto
      qed
      ultimately show ?thesis by (simp add: found Slot_tree)
    qed
  qed
qed

section \<open>Creation\<close>

text \<open>
  What creation may change of the structs: it only adds to the list, and changes of the old structs
  at most the \<open>abbreviate_len\<close>, and that only of those in \<open>P\<close>.
\<close>

definition same_subs :: "subscriber list \<Rightarrow> subscriber list \<Rightarrow> nat set \<Rightarrow> bool" where
  "same_subs subs subs' P \<longleftrightarrow> length subs \<le> length subs' \<and>
     (\<forall>p < length subs. subs' ! p = (subs ! p)\<lparr>abbreviate_len := abbreviate_len (subs' ! p)\<rparr> \<and>
        (p \<notin> P \<longrightarrow> subs' ! p = subs ! p))"

lemma same_subs_refl: "same_subs subs subs P"
  by (simp add: same_subs_def)

lemma same_subs_sid: "same_subs subs subs' P \<Longrightarrow> p < length subs \<Longrightarrow> sid (subs' ! p) = sid (subs ! p)"
  unfolding same_subs_def by (metis subscriber.select_convs(1) subscriber.surjective subscriber.update_convs(2))

lemma same_subs_frame:
  assumes "slot_ok subs path s" "same_subs subs subs' P" "pointers s \<inter> P = {}"
  shows "slot_ok subs' path s"
  unfolding slot_ok_def
proof (intro allI impI)
  fix q x
  assume x: "slot_at s q = Some x"
  note ok = assms(1) [unfolded slot_ok_def, rule_format, OF x]
  show "case x of Slot_empty \<Rightarrow> True
      | Slot_subscriber p \<Rightarrow> p < length subs' \<and> length (sid (subs' ! p)) = SID_SIZE \<and>
          abbreviate_len (subs' ! p) = length (path @ q) \<and> path_of (sid (subs' ! p)) (length (path @ q)) = path @ q
      | Slot_tree t \<Rightarrow> length t = 16 \<and> length (path @ q) < SID_STRLEN"
  proof (cases x)
    case (Slot_subscriber p)
    then have "p \<notin> P" using x assms(3) by (auto simp: pointers_def)
    then show ?thesis using ok Slot_subscriber assms(2) by (auto simp: same_subs_def)
  qed (use ok in auto)
qed

text \<open>
  The result of the loop with \<open>create\<close> for the id \<open>s\<close>, at the node \<open>node\<close> at the end of \<open>path\<close>.
\<close>

definition find_post :: "(nat \<Rightarrow> bool) \<Rightarrow> byte list \<Rightarrow> nat list \<Rightarrow> slot list \<Rightarrow> subscriber_state \<Rightarrow>
    nat option \<times> slot list \<times> subscriber_state \<Rightarrow> bool" where
  "find_post mem s path node st = (\<lambda>(r, node', st').
     slot_ok (subscribers st') path (Slot_tree node') \<and>
     same_subs (subscribers st) (subscribers st') (pointers (Slot_tree node)) \<and> root st' = root st \<and>
     ((\<exists>p \<in> pointers (Slot_tree node). sid (subscribers st ! p) = s \<and> r = Some p \<and> node' = node \<and> st' = st) \<or>
      (\<forall>p \<in> pointers (Slot_tree node). sid (subscribers st ! p) \<noteq> s) \<and>
        (r = Some (length (subscribers st)) \<and> length (subscribers st') = Suc (length (subscribers st)) \<and>
           sid (subscribers st' ! length (subscribers st)) = s \<and>
           pointers (Slot_tree node') = insert (length (subscribers st)) (pointers (Slot_tree node)) \<or>
         r = None \<and> length (subscribers st') = length (subscribers st) \<and>
           pointers (Slot_tree node') = pointers (Slot_tree node) \<and> (\<exists>n. \<not> mem n))))"

lemma pointers_update:
  assumes "length node = 16" "i < 16"
  shows "pointers (Slot_tree (node[i := x])) = pointers x \<union> (\<Union>j \<in> {..<16} - {i}. pointers (node ! j))"
    and "pointers (Slot_tree node) = pointers (node ! i) \<union> (\<Union>j \<in> {..<16} - {i}. pointers (node ! j))"
  using assms by (auto simp: pointers_tree nth_list_update split: if_splits)

lemma pointers_apart:
  assumes "slot_ok subs path (Slot_tree node)" "i < 16" "j < 16" "i \<noteq> j"
  shows "pointers (node ! i) \<inter> pointers (node ! j) = {}"
proof -
  have "length node = 16" using assms(1) by (simp add: slot_ok_tree)
  then have "p \<in> pointers (Slot_tree node)" if "p \<in> pointers (node ! i)" for p
    using that assms(2) by (auto simp: pointers_tree)
  then show ?thesis
    using pointers_slot [OF assms(1) _ assms(2)] pointers_slot [OF assms(1) _ assms(3)] assms(4) by blast
qed

text \<open>A node whose slot \<open>i\<close> is replaced stays correct if the slot is, and the other slots' structs are unchanged.\<close>

lemma slot_ok_update:
  assumes "slot_ok subs path (Slot_tree node)" "i < 16" "same_subs subs subs' (pointers (node ! i))"
    and "slot_ok subs' (path @ [i]) x"
  shows "slot_ok subs' path (Slot_tree (node[i := x]))"
proof -
  have "slot_ok subs' (path @ [j]) (node ! j)" if "j < 16" "j \<noteq> i" for j
    using assms(1,3) that pointers_apart [OF assms(1) that(1) assms(2) that(2)]
    by (intro same_subs_frame [of subs _ _ subs' "pointers (node ! i)"]) (auto simp: slot_ok_tree)
  then show ?thesis
    using assms by (auto simp: slot_ok_tree nth_list_update)
qed

definition slot_post :: "(nat \<Rightarrow> bool) \<Rightarrow> byte list \<Rightarrow> nat list \<Rightarrow> slot \<Rightarrow> subscriber_state \<Rightarrow>
    nat option \<Rightarrow> slot \<Rightarrow> subscriber_state \<Rightarrow> bool" where
  "slot_post mem s path x st r x' st' \<longleftrightarrow>
     slot_ok (subscribers st') path x' \<and> same_subs (subscribers st) (subscribers st') (pointers x) \<and> root st' = root st \<and>
     ((\<exists>p \<in> pointers x. sid (subscribers st ! p) = s \<and> r = Some p \<and> x' = x \<and> st' = st) \<or>
      (\<forall>p \<in> pointers x. sid (subscribers st ! p) \<noteq> s) \<and>
        (r = Some (length (subscribers st)) \<and> length (subscribers st') = Suc (length (subscribers st)) \<and>
           sid (subscribers st' ! length (subscribers st)) = s \<and> pointers x' = insert (length (subscribers st)) (pointers x) \<or>
         r = None \<and> length (subscribers st') = length (subscribers st) \<and> pointers x' = pointers x \<and> (\<exists>n. \<not> mem n)))"

lemma find_post_slot:
  "find_post mem s path node st (r, node', st') \<longleftrightarrow> slot_post mem s path (Slot_tree node) st r (Slot_tree node') st'"
  by (simp add: find_post_def slot_post_def)

lemma slot_post_up:
  assumes ok: "slot_ok (subscribers st) (path_of s n) (Slot_tree node)"
    and post: "slot_post mem s (path_of s (Suc n)) (node ! get_nibble s n) st r x' st'"
  shows "find_post mem s (path_of s n) node st (r, node[get_nibble s n := x'], st')"
proof -
  let ?i = "get_nibble s n" and ?rest = "\<Union>j \<in> {..<16} - {get_nibble s n}. pointers (node ! j)"
  have l: "length node = 16" "?i < 16" using ok get_nibble_less by (simp_all add: slot_ok_tree)
  have same: "same_subs (subscribers st) (subscribers st') (pointers (node ! ?i))"
    using post by (simp add: slot_post_def)
  have ok': "slot_ok (subscribers st') (path_of s n) (Slot_tree (node[?i := x']))"
    using post by (intro slot_ok_update [OF ok l(2) same]) (simp add: slot_post_def path_of_Suc)
  have same': "same_subs (subscribers st) (subscribers st') (pointers (Slot_tree node))"
    using same pointers_update(2) [OF l] by (auto simp: same_subs_def)
  have rest: "\<forall>p \<in> ?rest. sid (subscribers st ! p) \<noteq> s"
  proof
    fix p
    assume "p \<in> ?rest"
    then obtain j where j: "j < 16" "j \<noteq> ?i" "p \<in> pointers (node ! j)" by blast
    then have "p \<in> pointers (Slot_tree node)" using l(1) by (auto simp: pointers_tree)
    from pointers_slot [OF ok this j(1)] j show "sid (subscribers st ! p) \<noteq> s" by auto
  qed
  have ptr: "pointers (Slot_tree node) = pointers (node ! ?i) \<union> ?rest"
      "pointers (Slot_tree (node[?i := x'])) = pointers x' \<union> ?rest"
    using pointers_update(1) [OF l, of x'] pointers_update(2) [OF l] by simp_all
  consider (found) p where "p \<in> pointers (node ! ?i)" "sid (subscribers st ! p) = s" "r = Some p" "x' = node ! ?i" "st' = st"
    | (new) "\<forall>p \<in> pointers (node ! ?i). sid (subscribers st ! p) \<noteq> s" "r = Some (length (subscribers st))"
        "length (subscribers st') = Suc (length (subscribers st))" "sid (subscribers st' ! length (subscribers st)) = s"
        "pointers x' = insert (length (subscribers st)) (pointers (node ! ?i))"
    | (nomem) "\<forall>p \<in> pointers (node ! ?i). sid (subscribers st ! p) \<noteq> s" "r = None"
        "length (subscribers st') = length (subscribers st)" "pointers x' = pointers (node ! ?i)" "\<exists>n. \<not> mem n"
    using post unfolding slot_post_def by blast
  then show ?thesis
  proof cases
    case found
    then show ?thesis
      using ok' same' ptr l unfolding find_post_def prod.case by (simp add: same_subs_refl)
  next
    case new
    have "root st' = root st" using post by (simp add: slot_post_def)
    then show ?thesis
      using ok' same' new rest unfolding find_post_def prod.case ptr by blast
  next
    case nomem
    have "root st' = root st" using post by (simp add: slot_post_def)
    then show ?thesis
      using ok' same' nomem rest unfolding find_post_def prod.case ptr by blast
  qed
qed

lemma slot_post_new:
  assumes "length s = SID_SIZE" "n < SID_STRLEN" "emalloc_zero mem st = (True, st')"
  shows "slot_post mem s (path_of s (Suc n)) Slot_empty st (Some (length (subscribers st')))
    (Slot_subscriber (length (subscribers st')))
    (st'\<lparr>subscribers := subscribers st' @ [\<lparr>sid = s, abbreviate_len = Suc n, send_full = False,
       reachable_self = False, last_explained = 0\<rparr>]\<rparr>)"
  using assms by (auto simp: slot_post_def slot_ok_leaf same_subs_def emalloc_zero_def nth_append)

lemma slot_post_no_mem:
  assumes "slot_ok (subscribers st) path x" "\<forall>p \<in> pointers x. sid (subscribers st ! p) \<noteq> s"
    and "emalloc_zero mem st = (False, st')"
  shows "slot_post mem s path x st None x st'"
  using assms by (auto simp: slot_post_def same_subs_refl emalloc_zero_def)

text \<open>The subscriber that is bumped: the new node below its slot holds it one level down.\<close>

lemma bumped_ok:
  assumes "slot_ok subs (path_of s (Suc n)) (Slot_subscriber p)" "Suc n < SID_STRLEN"
  shows "slot_ok (subs[p := (subs ! p)\<lparr>abbreviate_len := Suc (Suc n)\<rparr>]) (path_of s (Suc n))
    (Slot_tree (empty_node[get_nibble (sid (subs ! p)) (Suc n) := Slot_subscriber p]))"
  and "pointers (Slot_tree (empty_node[get_nibble (sid (subs ! p)) (Suc n) := Slot_subscriber p])) = {p}"
proof -
  let ?j = "get_nibble (sid (subs ! p)) (Suc n)"
  have j: "?j < 16" by (rule get_nibble_less)
  have "slot_ok (subs[p := (subs ! p)\<lparr>abbreviate_len := Suc (Suc n)\<rparr>]) (path_of s (Suc n) @ [?j]) (Slot_subscriber p)"
    using assms(1) by (auto simp: slot_ok_leaf path_of_Suc [of _ "Suc n"])
  then show "slot_ok (subs[p := (subs ! p)\<lparr>abbreviate_len := Suc (Suc n)\<rparr>]) (path_of s (Suc n))
      (Slot_tree (empty_node[?j := Slot_subscriber p]))"
    using assms(2) j by (auto simp: slot_ok_tree empty_node_def nth_list_update)
  show "pointers (Slot_tree (empty_node[?j := Slot_subscriber p])) = {p}"
    using j by (auto simp: pointers_update(1) empty_node_def)
qed

lemma slot_post_bumped:
  assumes ok: "slot_ok (subscribers st) path (Slot_subscriber p)" and "sid (subscribers st ! p) \<noteq> s"
    and st1: "subscribers st1 = (subscribers st)[p := (subscribers st ! p)\<lparr>abbreviate_len := k\<rparr>]" "root st1 = root st"
    and new: "pointers (Slot_tree new) = {p}"
    and post: "find_post mem s path new st1 (r, new', st')"
  shows "slot_post mem s path (Slot_subscriber p) st r (Slot_tree new') st'"
proof -
  have p: "p < length (subscribers st)" using ok by (simp add: slot_ok_leaf)
  have sid1: "sid (subscribers st1 ! q) = sid (subscribers st ! q)" for q
    using p by (cases "q = p") (simp_all add: st1(1))
  have "same_subs (subscribers st1) (subscribers st') {p}"
    using post new by (simp add: find_post_def)
  then have "same_subs (subscribers st) (subscribers st') {p}"
    using p unfolding same_subs_def st1(1) by (metis (no_types, lifting) length_list_update nth_list_update_eq
        nth_list_update_neq singletonI subscriber.update_convs(2) subscriber.surjective)
  then show ?thesis
    using post new assms(2) p st1 sid1 [of p] unfolding find_post_def slot_post_def prod.case by auto
qed

lemma find_loop_create:
  assumes "slot_ok (subscribers st) (path_of s pos) (Slot_tree node)" "pos < SID_STRLEN" "length s = SID_SIZE"
  shows "find_post mem s (path_of s pos) node st (find_loop mem s SID_SIZE True ret pos node st)"
  using assms
proof (induction "SID_STRLEN - pos" arbitrary: pos node st ret rule: less_induct)
  case less
  let ?i = "get_nibble s pos"
  have l: "length node = 16" "?i < 16" using less.prems(1) get_nibble_less by (simp_all add: slot_ok_tree)
  have child: "slot_ok (subscribers st) (path_of s (Suc pos)) (node ! ?i)"
    using slot_ok_child [OF less.prems(1), of ?i] l by (simp add: path_of_Suc)
  have lt: "SID_STRLEN - Suc pos < SID_STRLEN - pos" using less.prems(2) by linarith
  have str: "SID_SIZE * 2 = SID_STRLEN" by (simp add: SID_STRLEN_def)
  note up = slot_post_up [OF less.prems(1)]
  obtain ok st1 where mem: "emalloc_zero mem st = (ok, st1)" by (cases "emalloc_zero mem st")
  have st1: "subscribers st1 = subscribers st" "root st1 = root st"
    using mem by (auto simp: emalloc_zero_def)
  show ?case
  proof (cases "node ! ?i")
    case Slot_empty
    show ?thesis
    proof (cases ok)
      case True
      then have "slot_post mem s (path_of s (Suc pos)) (node ! ?i) st (Some (length (subscribers st1)))
          (Slot_subscriber (length (subscribers st1)))
          (st1\<lparr>subscribers := subscribers st1 @ [\<lparr>sid = s, abbreviate_len = Suc pos, send_full = False,
             reachable_self = False, last_explained = 0\<rparr>]\<rparr>)"
        using slot_post_new [OF less.prems(3,2), of mem st st1] mem Slot_empty by simp
      from up [OF this] show ?thesis
        using Slot_empty True mem less.prems(3) by (subst find_loop.simps) (simp add: Let_def)
    next
      case False
      then have "slot_post mem s (path_of s (Suc pos)) (node ! ?i) st None (node ! ?i) st1"
        using slot_post_no_mem [OF child, of s mem st1] mem Slot_empty by simp
      from up [OF this, unfolded list_update_id] show ?thesis
        using Slot_empty False mem by (subst find_loop.simps) (simp add: Let_def)
    qed
  next
    case (Slot_subscriber p)
    have p: "p < length (subscribers st)" "length (sid (subscribers st ! p)) = SID_SIZE"
        "path_of (sid (subscribers st ! p)) (Suc pos) = path_of s (Suc pos)"
      using child Slot_subscriber by (simp_all add: slot_ok_leaf)
    have cmp: "memcmp (take SID_SIZE (sid (subscribers st ! p))) (take SID_SIZE s) = 0 \<longleftrightarrow> sid (subscribers st ! p) = s"
      using p(2) less.prems(3) memcmp_eq_0 [of "sid (subscribers st ! p)" s] by simp
    show ?thesis
    proof (cases "sid (subscribers st ! p) = s")
      case True
      have "slot_post mem s (path_of s (Suc pos)) (node ! ?i) st (Some p) (node ! ?i) st"
        using child Slot_subscriber True by (auto simp: slot_post_def same_subs_refl)
      from up [OF this, unfolded list_update_id] show ?thesis
        using Slot_subscriber True cmp by (subst find_loop.simps) (simp add: Let_def)
    next
      case False
      have deep: "Suc pos < SID_STRLEN"
      proof (rule ccontr)
        assume "\<not> Suc pos < SID_STRLEN"
        then have "Suc pos = 2 * SID_SIZE" using less.prems(2) str by simp
        then show False
          using p less.prems(3) False path_of_take [of SID_SIZE "sid (subscribers st ! p)" s] by simp
      qed
      show ?thesis
      proof (cases ok)
        case True
        define new where "new = empty_node[get_nibble (sid (subscribers st ! p)) (Suc pos) := Slot_subscriber p]"
        define st2 where "st2 = st1\<lparr>subscribers := (subscribers st)[p := (subscribers st ! p)\<lparr>abbreviate_len := Suc (Suc pos)\<rparr>]\<rparr>"
        obtain r new' st' where r: "find_loop mem s SID_SIZE True (Some p) (Suc pos) new st2 = (r, new', st')"
          by (cases "find_loop mem s SID_SIZE True (Some p) (Suc pos) new st2")
        have "slot_ok (subscribers st2) (path_of s (Suc pos)) (Slot_tree new)"
          using bumped_ok(1) [OF child [unfolded Slot_subscriber] deep] st1 by (simp add: new_def st2_def)
        then have "find_post mem s (path_of s (Suc pos)) new st2 (r, new', st')"
          using less.hyps [OF lt _ deep less.prems(3), of st2 new "Some p"] r by simp
        then have "slot_post mem s (path_of s (Suc pos)) (node ! ?i) st r (Slot_tree new') st'"
          using slot_post_bumped [OF child [unfolded Slot_subscriber] False, of st2 "Suc (Suc pos)" new mem r new' st']
            bumped_ok(2) [OF child [unfolded Slot_subscriber] deep] st1
          by (simp add: Slot_subscriber st2_def new_def)
        from up [OF this] show ?thesis
          using Slot_subscriber False cmp True mem deep r str st1
          by (subst find_loop.simps) (simp add: Let_def flip: new_def st2_def)
      next
        case nomem: False
        have "slot_post mem s (path_of s (Suc pos)) (node ! ?i) st None (node ! ?i) st1"
          using slot_post_no_mem [OF child, of s mem st1] mem Slot_subscriber False nomem by simp
        from up [OF this, unfolded list_update_id] show ?thesis
          using Slot_subscriber False cmp nomem mem by (subst find_loop.simps) (simp add: Let_def)
      qed
    qed
  next
    case (Slot_tree c)
    have deep: "Suc pos < SID_STRLEN" using child Slot_tree by (simp add: slot_ok_tree)
    obtain r c' st' where r: "find_loop mem s SID_SIZE True ret (Suc pos) c st = (r, c', st')"
      by (cases "find_loop mem s SID_SIZE True ret (Suc pos) c st")
    have "find_post mem s (path_of s (Suc pos)) c st (r, c', st')"
      using less.hyps [OF lt _ deep less.prems(3), of st c ret] child Slot_tree r by simp
    then have "slot_post mem s (path_of s (Suc pos)) (node ! ?i) st r (Slot_tree c') st'"
      by (simp add: find_post_slot Slot_tree)
    from up [OF this] show ?thesis
      using Slot_tree deep r str by (subst find_loop.simps) (simp add: Let_def)
  qed
qed

section \<open>The order of the subscribers\<close>

lemma byte_nibble_less:
  fixes x y :: byte
  assumes "unat (drop_bit 4 x AND 0xF) < unat (drop_bit 4 y AND 0xF) \<or>
    drop_bit 4 x AND 0xF = drop_bit 4 y AND 0xF \<and> unat (x AND 0xF) < unat (y AND 0xF)"
  shows "x < y"
proof -
  have m: "b AND 0xF = take_bit 4 b" for b :: byte
    by (simp add: take_bit_eq_mask mask_eq_exp_minus_1)
  have hi: "take_bit 4 (drop_bit 4 b) = drop_bit 4 b" for b :: byte
    by (rule bit_word_eqI) (auto simp: bit_simps dest: bit_imp_le_length)
  have v: "unat b = 16 * unat (drop_bit 4 b) + unat (take_bit 4 b)" for b :: byte
    unfolding unat_drop_bit_eq unsigned_take_bit_eq by (simp add: drop_bit_eq_div take_bit_eq_mod)
  have low: "unat (take_bit 4 b) < 16" for b :: byte
    unfolding unsigned_take_bit_eq by (simp add: take_bit_eq_mod)
  show ?thesis
    using assms v [of x] v [of y] low [of x] low [of y] unfolding m hi word_less_nat_alt by auto
qed

lemma memcmp_common: "memcmp (xs @ ys) (xs @ zs) = memcmp ys zs"
  by (induction xs) auto

lemma memcmp_nibble_less:
  assumes "path_of a n = path_of b n" "get_nibble a n < get_nibble b n" "n < 2 * length a" "length a = length b"
  shows "memcmp a b = - 1" "memcmp b a = 1"
proof -
  let ?i = "n div 2"
  have i: "?i < length a" using assms(3) by linarith
  have "path_of a (2 * ?i) = path_of b (2 * ?i)"
    by (rule path_of_mono [OF assms(1)]) linarith
  then have pre: "take ?i a = take ?i b"
    using path_of_take [of ?i a b] i assms(4) by simp
  have "a ! ?i < b ! ?i"
  proof (rule byte_nibble_less, cases "even n")
    case True
    then show "unat (drop_bit 4 (a ! ?i) AND 0xF) < unat (drop_bit 4 (b ! ?i) AND 0xF) \<or>
        drop_bit 4 (a ! ?i) AND 0xF = drop_bit 4 (b ! ?i) AND 0xF \<and> unat (a ! ?i AND 0xF) < unat (b ! ?i AND 0xF)"
      using assms(2) by (simp add: get_nibble_def Let_def)
  next
    case False
    then have "get_nibble a (n - 1) = get_nibble b (n - 1)"
      using assms(1) by (cases n) (auto simp: path_of_Suc)
    moreover have "(n - 1) div 2 = ?i" "even (n - 1)" using False by (auto elim: oddE)
    ultimately show "unat (drop_bit 4 (a ! ?i) AND 0xF) < unat (drop_bit 4 (b ! ?i) AND 0xF) \<or>
        drop_bit 4 (a ! ?i) AND 0xF = drop_bit 4 (b ! ?i) AND 0xF \<and> unat (a ! ?i AND 0xF) < unat (b ! ?i AND 0xF)"
      using assms(2) False by (simp add: get_nibble_def Let_def word_unat_eq_iff)
  qed
  then have less: "memcmp (a ! ?i # drop (Suc ?i) a) (b ! ?i # drop (Suc ?i) b) = - 1"
      "memcmp (b ! ?i # drop (Suc ?i) b) (a ! ?i # drop (Suc ?i) a) = 1" by auto
  have "take ?i a @ a ! ?i # drop (Suc ?i) a = a" "take ?i a @ b ! ?i # drop (Suc ?i) b = b"
    using id_take_nth_drop [of ?i a] id_take_nth_drop [of ?i b] i assms(4) pre by simp_all
  then show "memcmp a b = - 1" "memcmp b a = 1"
    using less memcmp_common [of "take ?i a" "a ! ?i # drop (Suc ?i) a" "b ! ?i # drop (Suc ?i) b"]
      memcmp_common [of "take ?i a" "b ! ?i # drop (Suc ?i) b" "a ! ?i # drop (Suc ?i) a"] by simp_all
qed

text \<open>The subscribers of a slot in the order of the walk, and the calls of a walk over a list of them.\<close>

fun leaves :: "slot \<Rightarrow> nat list" where
  "leaves Slot_empty = []"
| "leaves (Slot_subscriber p) = [p]"
| "leaves (Slot_tree t) = concat (map leaves t)"

fun call_until :: "(nat \<Rightarrow> 'c \<Rightarrow> bool \<times> 'c) \<Rightarrow> nat list \<Rightarrow> 'c \<Rightarrow> bool \<times> 'c" where
  "call_until callback [] c = (False, c)"
| "call_until callback (p # ps) c = (case callback p c of (True, c) \<Rightarrow> (True, c) | (False, c) \<Rightarrow> call_until callback ps c)"

lemma call_until_append:
  "call_until cb (xs @ ys) c = (case call_until cb xs c of (True, c) \<Rightarrow> (True, c) | (False, c) \<Rightarrow> call_until cb ys c)"
  by (induction xs arbitrary: c) (auto split: prod.splits bool.splits)

lemma set_leaves: "set (leaves s) = pointers s"
proof (induction s rule: leaves.induct)
  case (3 t)
  then have "set (leaves (Slot_tree t)) = (\<Union>x \<in> set t. pointers x)" by auto
  moreover have "set t = (!) t ` {..<length t}" by (auto simp: set_conv_nth)
  ultimately show ?case by (simp add: pointers_tree)
qed simp_all

lemma walk_slots_all: "walk_slots slots pos None cb c = call_until cb (concat (map leaves slots)) c"
proof (induction slots pos "None :: byte list option" cb c rule: walk_slots.induct)
  case (2 s slots pos cb c)
  show ?case
  proof (cases s)
    case (Slot_tree node)
    then have "walk_slots node (pos + 1) None cb c = call_until cb (leaves s) c"
      using 2(1) [of node] by simp
    then show ?thesis
      using Slot_tree 2(2) by (auto simp: call_until_append split: prod.splits bool.splits)
  qed (use 2(2) in \<open>auto simp: call_until_append split: prod.splits bool.splits\<close>)
qed simp

lemma set_leaves_take: "q \<in> set (concat (map leaves (take k t))) \<Longrightarrow> \<exists>j. j < k \<and> j < length t \<and> q \<in> pointers (t ! j)"
  by (auto simp: set_leaves in_set_conv_nth) blast

lemma set_leaves_drop:
  assumes "q \<in> set (concat (map leaves (drop k t)))"
  shows "\<exists>j. k \<le> j \<and> j < length t \<and> q \<in> pointers (t ! j)"
proof -
  obtain i where "i < length t - k" "q \<in> pointers (t ! (k + i))"
    using assms by (auto simp: set_leaves in_set_conv_nth)
  then show ?thesis by (intro exI [of _ "k + i"]) auto
qed

lemma leaves_sorted:
  "slot_ok subs path s \<Longrightarrow> sorted_wrt (\<lambda>p q. memcmp (sid (subs ! p)) (sid (subs ! q)) = - 1) (leaves s)"
proof (induction s arbitrary: path rule: leaves.induct)
  case (3 t)
  have "sorted_wrt (\<lambda>p q. memcmp (sid (subs ! p)) (sid (subs ! q)) = - 1) (concat (map leaves (drop k t)))" for k
  proof (induction "length t - k" arbitrary: k)
    case (Suc n)
    then have k: "k < length t" by linarith
    have "sorted_wrt (\<lambda>p q. memcmp (sid (subs ! p)) (sid (subs ! q)) = - 1) (leaves (t ! k))"
      using 3 slot_ok_child [OF 3(2) k] k by auto
    moreover have "sorted_wrt (\<lambda>p q. memcmp (sid (subs ! p)) (sid (subs ! q)) = - 1) (concat (map leaves (drop (Suc k) t)))"
      using Suc by (intro Suc(1)) linarith
    moreover have "memcmp (sid (subs ! p)) (sid (subs ! q)) = - 1"
      if pt: "p \<in> set (leaves (t ! k))" and qt: "q \<in> set (concat (map leaves (drop (Suc k) t)))" for p q
    proof -
      obtain j where j: "k < j" "j < length t" "q \<in> pointers (t ! j)"
        using set_leaves_drop [OF qt] by (meson Suc_le_lessD)
      have p: "p \<in> pointers (t ! k)" using pt by (simp add: set_leaves)
      note pk = slot_ok_pointer [OF slot_ok_child [OF 3(2) k] p]
        and qj = slot_ok_pointer [OF slot_ok_child [OF 3(2) j(2)] j(3)]
      have "length path < SID_STRLEN" using 3(2) by (simp add: slot_ok_tree)
      then show ?thesis
        using pk qj j(1) by (intro memcmp_nibble_less(1) [of _ "length path"]) (auto simp: path_of_Suc SID_STRLEN_def)
    qed
    moreover have "drop k t = t ! k # drop (Suc k) t" using k by (simp add: Cons_nth_drop_Suc)
    ultimately show ?case by (simp add: sorted_wrt_append)
  qed simp
  from this [of 0] show ?case by simp
qed simp_all

text \<open>With a start: of the node that holds it, the subscribers from it on.\<close>

lemma leaves_split:
  "i < length node \<Longrightarrow> concat (map leaves node) =
   concat (map leaves (take i node)) @ leaves (node ! i) @ concat (map leaves (drop (Suc i) node))"
  by (metis append_take_drop_id Cons_nth_drop_Suc concat.simps(2) concat_append list.simps(9) map_append)

lemma leaves_from:
  assumes ok: "slot_ok subs path (Slot_tree node)" and p0: "p0 \<in> pointers (Slot_tree node)"
  defines "s0 \<equiv> sid (subs ! p0)"
  defines "i \<equiv> get_nibble s0 (length path)"
  shows "filter (\<lambda>p. memcmp (sid (subs ! p)) s0 \<noteq> - 1) (concat (map leaves node)) =
    filter (\<lambda>p. memcmp (sid (subs ! p)) s0 \<noteq> - 1) (leaves (node ! i)) @ concat (map leaves (drop (Suc i) node))"
proof -
  let ?P = "\<lambda>p. memcmp (sid (subs ! p)) s0 \<noteq> - 1"
  have l: "length node = 16" "i < 16" "length path < SID_STRLEN"
    using ok by (simp_all add: slot_ok_tree i_def get_nibble_less)
  have i0: "p0 \<in> pointers (node ! i)"
    using pointers_slot [OF ok p0 l(2)] by (simp add: i_def s0_def)
  note q0 = slot_ok_pointer [OF slot_ok_child [OF ok] i0]
  have "\<not> ?P p" if pt: "p \<in> set (concat (map leaves (take i node)))" for p
  proof -
    obtain j where j: "j < i" "p \<in> pointers (node ! j)"
      using set_leaves_take [OF pt] by blast
    then have "j < length node" using l by simp
    from slot_ok_pointer [OF slot_ok_child [OF ok this] j(2)] show ?thesis
      using q0 j(1) l unfolding s0_def
      by (simp add: memcmp_nibble_less(1) [of _ "length path"] path_of_Suc SID_STRLEN_def)
  qed
  moreover have "?P p" if pt: "p \<in> set (concat (map leaves (drop (Suc i) node)))" for p
  proof -
    obtain j where j: "i < j" "j < length node" "p \<in> pointers (node ! j)"
      using set_leaves_drop [OF pt] by (meson Suc_le_lessD)
    from slot_ok_pointer [OF slot_ok_child [OF ok j(2)] j(3)] show ?thesis
      using q0 j(1) l unfolding s0_def
      by (simp add: memcmp_nibble_less(2) [of _ "length path"] path_of_Suc SID_STRLEN_def)
  qed
  ultimately show ?thesis
    using leaves_split [of i node] l by (simp add: filter_empty_conv filter_id_conv)
qed

lemma memcmp_refl: "memcmp s s = 0"
  by (simp add: memcmp_eq_0)

lemma walk_slots_from:
  assumes "slot_ok subs path (Slot_tree node)" "p0 \<in> pointers (Slot_tree node)" "s0 = sid (subs ! p0)"
  shows "walk_slots (drop (get_nibble s0 (length path)) node) (length path) (Some s0) cb c =
    call_until cb (filter (\<lambda>p. memcmp (sid (subs ! p)) s0 \<noteq> - 1) (concat (map leaves node))) c"
  using assms
proof (induction "SID_STRLEN - length path" arbitrary: path node c rule: less_induct)
  case less
  let ?i = "get_nibble s0 (length path)"
  have l: "?i < length node" "length path < SID_STRLEN" "?i < 16"
    using less.prems(1) by (simp_all add: slot_ok_tree get_nibble_less)
  have p0: "p0 \<in> pointers (node ! ?i)"
    using pointers_slot [OF less.prems(1,2) l(3)] less.prems(3) by simp
  have d: "drop ?i node = node ! ?i # drop (Suc ?i) node" using l(1) by (simp add: Cons_nth_drop_Suc)
  note filter = leaves_from [OF less.prems(1,2), folded less.prems(3)]
  show ?case
  proof (cases "node ! ?i")
    case Slot_empty
    then show ?thesis using p0 by simp
  next
    case (Slot_subscriber p)
    then have "p = p0" "memcmp (sid (subs ! p0)) s0 = 0" using p0 less.prems(3) by (simp_all add: memcmp_refl)
    then show ?thesis
      using Slot_subscriber unfolding d filter by (simp add: walk_slots_all split: prod.splits bool.splits)
  next
    case (Slot_tree child)
    have ok: "slot_ok subs (path @ [?i]) (Slot_tree child)"
      using slot_ok_child [OF less.prems(1) l(1)] Slot_tree by simp
    have "walk_slots (drop (get_nibble s0 (length (path @ [?i]))) child) (length (path @ [?i])) (Some s0) cb c =
        call_until cb (filter (\<lambda>p. memcmp (sid (subs ! p)) s0 \<noteq> - 1) (concat (map leaves child))) c"
      using l(2) p0 Slot_tree less.prems(3) by (intro less.hyps ok) auto
    then show ?thesis
      using Slot_tree unfolding d filter by (simp add: call_until_append walk_slots_all split: prod.splits bool.splits)
  qed
qed

lemma leaves_matching:
  assumes ok: "slot_ok subs (path_of idp pos) (Slot_tree node)" and "pos < 2 * len" "len \<le> length idp" "len \<le> SID_SIZE"
  shows "filter (\<lambda>p. take len (sid (subs ! p)) = take len idp) (concat (map leaves node)) =
    filter (\<lambda>p. take len (sid (subs ! p)) = take len idp) (leaves (node ! get_nibble idp pos))"
proof -
  let ?i = "get_nibble idp pos"
  have l: "?i < length node" using ok by (simp add: slot_ok_tree get_nibble_less)
  have "take len (sid (subs ! p)) \<noteq> take len idp" if "j < length node" "j \<noteq> ?i" "p \<in> pointers (node ! j)" for p j
  proof
    assume eq: "take len (sid (subs ! p)) = take len idp"
    note p = slot_ok_pointer [OF slot_ok_child [OF ok that(1)] that(3)]
    have "path_of (sid (subs ! p)) (2 * len) = path_of idp (2 * len)"
      using path_of_take [of len "sid (subs ! p)" idp] p eq assms(3,4) by simp
    then have "path_of (sid (subs ! p)) (Suc pos) = path_of idp (Suc pos)"
      using assms(2) by (auto intro: path_of_mono)
    then show False using p that(2) by (simp add: path_of_Suc)
  qed
  then have "filter (\<lambda>p. take len (sid (subs ! p)) = take len idp) (concat (map leaves (take ?i node))) = []"
    "filter (\<lambda>p. take len (sid (subs ! p)) = take len idp) (concat (map leaves (drop (Suc ?i) node))) = []"
    unfolding filter_empty_conv using set_leaves_take [of _ ?i node] set_leaves_drop [of _ "Suc ?i" node]
    by (metis less_not_refl, metis Suc_n_not_le_n)
  then show ?thesis by (simp add: leaves_split [OF l])
qed

lemma prefix_loop_calls:
  assumes "slot_ok subs (path_of idp pos) (Slot_tree node)" "pos \<le> 2 * len" "len \<le> length idp" "len \<le> SID_SIZE"
  shows "prefix_loop subs idp len pos node cb c =
    snd (call_until cb (filter (\<lambda>p. take len (sid (subs ! p)) = take len idp) (concat (map leaves node))) c)"
  using assms
proof (induction "2 * len - pos" arbitrary: pos node rule: less_induct)
  case less
  let ?i = "get_nibble idp pos" and ?M = "\<lambda>p. take len (sid (subs ! p)) = take len idp"
  have l: "?i < length node" using less.prems(1) by (simp add: slot_ok_tree get_nibble_less)
  show ?case
  proof (cases "pos < 2 * len")
    case False
    have "?M p" if "p \<in> set (concat (map leaves node))" for p
    proof -
      have "p \<in> pointers (Slot_tree node)" using that by (simp flip: set_leaves)
      then have p: "length (sid (subs ! p)) = SID_SIZE" "path_of (sid (subs ! p)) pos = path_of idp pos"
        using slot_ok_pointer [OF less.prems(1)] by simp_all
      moreover have "pos = 2 * len" using False less.prems(2) by simp
      ultimately show ?thesis using path_of_take [of len "sid (subs ! p)" idp] less.prems(3,4) by simp
    qed
    then have "filter ?M (concat (map leaves node)) = concat (map leaves node)" by (simp add: filter_id_conv)
    then show ?thesis using False by (subst prefix_loop.simps) (simp add: walk_tree_def walk_slots_all)
  next
    case True
    have child: "slot_ok subs (path_of idp (Suc pos)) (node ! ?i)"
      using slot_ok_child [OF less.prems(1) l] by (simp add: path_of_Suc)
    note M = leaves_matching [OF less.prems(1) True less.prems(3,4)]
    have lt: "2 * len - Suc pos < 2 * len - pos" "Suc pos \<le> 2 * len" using True by linarith+
    show ?thesis
    proof (cases "node ! ?i")
      case Slot_empty
      then show ?thesis using True M by (subst prefix_loop.simps) simp
    next
      case (Slot_subscriber p)
      have "length (sid (subs ! p)) = SID_SIZE" using child Slot_subscriber by (simp add: slot_ok_leaf)
      then have "memcmp (take len (sid (subs ! p))) (take len idp) = 0 \<longleftrightarrow> ?M p"
        using less.prems(3,4) by (intro memcmp_eq_0) simp
      then show ?thesis
        using True M Slot_subscriber
        by (subst prefix_loop.simps) (auto split: prod.splits bool.splits)
    next
      case (Slot_tree t)
      then have "prefix_loop subs idp len (Suc pos) t cb c = snd (call_until cb (filter ?M (concat (map leaves t))) c)"
        using child by (intro less.hyps lt less.prems(3,4)) simp
      then show ?thesis using True M Slot_tree by (subst prefix_loop.simps) simp
    qed
  qed
qed

section \<open>Properties\<close>

lemma find_subscriber_eq:
  "0 < len \<Longrightarrow> len \<le> length sidp \<Longrightarrow> len \<le> SID_SIZE \<Longrightarrow> find_subscriber mem sidp len create st =
    (let (ret, node, st) = find_loop mem sidp len (create \<and> len = SID_SIZE) None 0 (root st) st in Some (ret, st\<lparr>root := node\<rparr>))"
  by (cases sidp) (simp_all add: find_subscriber_def)

lemma tree_wf_pointer: "tree_wf st \<Longrightarrow> p \<in> pointers (Slot_tree (root st)) \<longleftrightarrow> p < length (subscribers st)"
  by (simp add: tree_wf_def)

lemma tree_wf_sid: "tree_wf st \<Longrightarrow> p < length (subscribers st) \<Longrightarrow> length (sid (subscribers st ! p)) = SID_SIZE"
  using slot_ok_pointer [of "subscribers st" "[]" "Slot_tree (root st)" p] by (simp add: tree_wf_def)

section \<open>Compact trees\<close>

text \<open>
  A tree is compact if every node below the root has at least two subscribers under it, so that no
  abbreviation is longer than it must be.
\<close>

fun compact_slot :: "slot \<Rightarrow> bool" where
  "compact_slot (Slot_tree t) \<longleftrightarrow> 2 \<le> card (set (leaves (Slot_tree t))) \<and> list_all compact_slot t"
| "compact_slot s \<longleftrightarrow> True"

declare compact_slot.simps(1) [simp del]

definition tree_compact :: "subscriber_state \<Rightarrow> bool" where
  "tree_compact st \<longleftrightarrow> list_all compact_slot (root st)"

lemma compact_slot_tree: "compact_slot (Slot_tree t) \<longleftrightarrow> 2 \<le> card (pointers (Slot_tree t)) \<and> list_all compact_slot t"
  by (simp only: compact_slot.simps(1) set_leaves)

lemma finite_pointers: "finite (pointers s)"
  unfolding set_leaves [symmetric] by (rule finite_set)

lemma compact_slot_at:
  "list_all compact_slot node \<Longrightarrow> slot_at (Slot_tree node) q = Some (Slot_tree t) \<Longrightarrow> q \<noteq> [] \<Longrightarrow> 2 \<le> card (pointers (Slot_tree t))"
proof (induction q arbitrary: node)
  case (Cons i q)
  have i: "i < length node" "slot_at (node ! i) q = Some (Slot_tree t)" using Cons.prems(2) by (auto split: if_splits)
  have c: "compact_slot (node ! i)" using Cons.prems(1) i(1) by (simp add: list_all_length)
  show ?case
  proof (cases q)
    case Nil
    then show ?thesis using i(2) c by (simp add: compact_slot_tree)
  next
    case (Cons k q')
    then obtain u where u: "node ! i = Slot_tree u" using i(2) by (cases "node ! i") auto
    then show ?thesis using Cons.IH [of u] i(2) c Cons by (simp add: compact_slot_tree)
  qed
qed simp

lemma compact_shared:
  assumes wf: "tree_wf st" "tree_compact st" and p: "p < length (subscribers st)" and n: "0 < n" "n < abbreviate_len (subscribers st ! p)"
  obtains q where "q < length (subscribers st)" "q \<noteq> p" "path_of (sid (subscribers st ! q)) n = path_of (sid (subscribers st ! p)) n"
proof -
  let ?root = "Slot_tree (root st)" and ?y = "path_of (sid (subscribers st ! p)) n" and ?a = "abbreviate_len (subscribers st ! p)"
  have ok: "slot_ok (subscribers st) [] ?root" using wf(1) by (simp add: tree_wf_def)
  have "p \<in> pointers ?root" using wf(1) p by (simp add: tree_wf_pointer)
  from slot_ok_pointer [OF ok this] have x: "slot_at ?root (path_of (sid (subscribers st ! p)) ?a) = Some (Slot_subscriber p)" by auto
  have "path_of (sid (subscribers st ! p)) ?a = ?y @ drop n (path_of (sid (subscribers st ! p)) ?a)"
    using n(2) append_take_drop_id [of n "path_of (sid (subscribers st ! p)) ?a"] by (simp add: path_of_take_path)
  moreover have "drop n (path_of (sid (subscribers st ! p)) ?a) \<noteq> []" using n(2) by simp
  ultimately obtain z where z: "slot_at ?root (?y @ z) = Some (Slot_subscriber p)" "z \<noteq> []" using x by metis
  then obtain t where t: "slot_at ?root ?y = Some (Slot_tree t)"
    by (cases "slot_at ?root ?y"; cases "the (slot_at ?root ?y)"; cases z) (auto simp: slot_at_append)
  have "?y \<noteq> []" using n(1) path_of_length [of "sid (subscribers st ! p)" n] by force
  then have "2 \<le> card (pointers (Slot_tree t))"
    using compact_slot_at [OF _ t] wf(2) by (simp add: tree_compact_def)
  then have "\<not> pointers (Slot_tree t) \<subseteq> {p}" using card_mono [of "{p}" "pointers (Slot_tree t)"] by auto
  then obtain q where q: "q \<in> pointers (Slot_tree t)" "q \<noteq> p" by blast
  then obtain w where "slot_at (Slot_tree t) w = Some (Slot_subscriber q)" by (auto simp: pointers_def)
  then have w: "slot_at ?root (?y @ w) = Some (Slot_subscriber q)" using t by (simp add: slot_at_append)
  then have "q \<in> pointers ?root" unfolding pointers_def by blast
  moreover have "path_of (sid (subscribers st ! q)) (length (?y @ w)) = ?y @ w"
    using ok w unfolding slot_ok_def by fastforce
  then have "path_of (sid (subscribers st ! q)) n = ?y"
    using path_of_take_path [of n "length (?y @ w)" "sid (subscribers st ! q)"] by simp
  ultimately show ?thesis using that [of q] q(2) wf(1) by (simp add: tree_wf_pointer)
qed

text \<open>In a compact tree a prefix that only one subscriber has is as long as its abbreviation.\<close>

lemma compact_abbreviation:
  assumes "tree_wf st" "tree_compact st" "p < length (subscribers st)" "0 < len" "len \<le> SID_SIZE"
    and "\<And>q. q < length (subscribers st) \<Longrightarrow> take len (sid (subscribers st ! q)) = take len (sid (subscribers st ! p)) \<Longrightarrow> q = p"
  shows "abbreviate_len (subscribers st ! p) \<le> 2 * len"
proof (rule ccontr)
  assume "\<not> ?thesis"
  then have long: "2 * len < abbreviate_len (subscribers st ! p)" by simp
  have "0 < 2 * len" using assms(4) by simp
  from compact_shared [OF assms(1-3) this long] obtain q where
    q: "q < length (subscribers st)" "q \<noteq> p" "path_of (sid (subscribers st ! q)) (2 * len) = path_of (sid (subscribers st ! p)) (2 * len)" .
  then have "take len (sid (subscribers st ! q)) = take len (sid (subscribers st ! p))"
    using assms(1,3,5) path_of_take [of len "sid (subscribers st ! q)" "sid (subscribers st ! p)"] by (simp add: tree_wf_sid)
  then show False using assms(6) q(1,2) by blast
qed

lemma find_loop_compact:
  assumes "slot_ok (subscribers st) (path_of s pos) (Slot_tree node)" "pos < SID_STRLEN" "length s = SID_SIZE"
    and "list_all compact_slot node" "\<forall>n. mem n"
  shows "list_all compact_slot (fst (snd (find_loop mem s SID_SIZE True ret pos node st)))"
  using assms
proof (induction "SID_STRLEN - pos" arbitrary: pos node st ret rule: less_induct)
  case less
  let ?i = "get_nibble s pos"
  have l: "length node = 16" "?i < 16" using less.prems(1) get_nibble_less by (simp_all add: slot_ok_tree)
  have child: "slot_ok (subscribers st) (path_of s (Suc pos)) (node ! ?i)"
    using slot_ok_child [OF less.prems(1), of ?i] l by (simp add: path_of_Suc)
  have lt: "SID_STRLEN - Suc pos < SID_STRLEN - pos" using less.prems(2) by linarith
  have str: "SID_SIZE * 2 = SID_STRLEN" by (simp add: SID_STRLEN_def)
  have set: "list_all compact_slot (node[?i := x])" if "compact_slot x" for x
    using less.prems(4) l that by (auto simp: list_all_length nth_list_update)
  obtain st1 where mem: "emalloc_zero mem st = (True, st1)" "subscribers st1 = subscribers st"
    using less.prems(5) by (simp add: emalloc_zero_def)
  show ?case
  proof (cases "node ! ?i")
    case Slot_empty
    then show ?thesis using mem(1) set by (subst find_loop.simps) (simp add: Let_def)
  next
    case (Slot_subscriber p)
    have p: "p < length (subscribers st)" "length (sid (subscribers st ! p)) = SID_SIZE"
        "path_of (sid (subscribers st ! p)) (Suc pos) = path_of s (Suc pos)"
      using child Slot_subscriber by (simp_all add: slot_ok_leaf)
    have cmp: "memcmp (take SID_SIZE (sid (subscribers st ! p))) (take SID_SIZE s) = 0 \<longleftrightarrow> sid (subscribers st ! p) = s"
      using p(2) less.prems(3) memcmp_eq_0 [of "sid (subscribers st ! p)" s] by simp
    show ?thesis
    proof (cases "sid (subscribers st ! p) = s")
      case True
      then show ?thesis using Slot_subscriber cmp less.prems(4) by (subst find_loop.simps) (simp add: Let_def)
    next
      case False
      have deep: "Suc pos < SID_STRLEN"
        using p less.prems(2,3) False path_of_take [of SID_SIZE "sid (subscribers st ! p)" s]
        by (cases "Suc pos = 2 * SID_SIZE") (auto simp: SID_STRLEN_def)
      define new where "new = empty_node[get_nibble (sid (subscribers st ! p)) (Suc pos) := Slot_subscriber p]"
      define st2 where "st2 = st1\<lparr>subscribers := (subscribers st)[p := (subscribers st ! p)\<lparr>abbreviate_len := Suc (Suc pos)\<rparr>]\<rparr>"
      obtain r new' st' where r: "find_loop mem s SID_SIZE True (Some p) (Suc pos) new st2 = (r, new', st')"
        by (cases "find_loop mem s SID_SIZE True (Some p) (Suc pos) new st2")
      have ok2: "slot_ok (subscribers st2) (path_of s (Suc pos)) (Slot_tree new)" and ptr: "pointers (Slot_tree new) = {p}"
        using bumped_ok [OF child [unfolded Slot_subscriber] deep] by (simp_all add: new_def st2_def)
      have "list_all compact_slot new" unfolding new_def empty_node_def
        using set_update_subset_insert [of "replicate 16 Slot_empty" "get_nibble (sid (subscribers st ! p)) (Suc pos)" "Slot_subscriber p"]
        by (auto simp: list_all_iff)
      then have c: "list_all compact_slot new'"
        using less.hyps [OF lt ok2 deep less.prems(3) _ less.prems(5), of "Some p"] r by simp
      have "sid (subscribers st2 ! p) \<noteq> s" using p(1) False by (simp add: st2_def)
      then have "pointers (Slot_tree new') = insert (length (subscribers st)) {p}"
        using find_loop_create [OF ok2 deep less.prems(3), of mem "Some p"] less.prems(5) p(1)
        unfolding r find_post_def prod.case ptr by (auto simp: st2_def)
      then have "compact_slot (Slot_tree new')" using c p(1) by (simp add: compact_slot_tree)
      from set [OF this] show ?thesis
        using Slot_subscriber False cmp mem deep r str
        by (subst find_loop.simps) (simp add: Let_def flip: new_def st2_def)
    qed
  next
    case (Slot_tree c)
    have deep: "Suc pos < SID_STRLEN" using child Slot_tree by (simp add: slot_ok_tree)
    obtain r c' st' where r: "find_loop mem s SID_SIZE True ret (Suc pos) c st = (r, c', st')"
      by (cases "find_loop mem s SID_SIZE True ret (Suc pos) c st")
    have ok2: "slot_ok (subscribers st) (path_of s (Suc pos)) (Slot_tree c)" using child Slot_tree by simp
    have cc: "compact_slot (Slot_tree c)" using less.prems(4) l Slot_tree by (metis list_all_length)
    then have c: "list_all compact_slot c'"
      using less.hyps [OF lt ok2 deep less.prems(3) _ less.prems(5), of ret] r by (simp add: compact_slot_tree)
    have "pointers (Slot_tree c) \<subseteq> pointers (Slot_tree c')"
      using find_loop_create [OF ok2 deep less.prems(3), of mem ret] unfolding r find_post_def prod.case by auto
    then have "card (pointers (Slot_tree c)) \<le> card (pointers (Slot_tree c'))" by (intro card_mono finite_pointers)
    then have "compact_slot (Slot_tree c')" using c cc by (simp add: compact_slot_tree)
    from set [OF this] show ?thesis
      using Slot_tree deep r str by (subst find_loop.simps) (simp add: Let_def)
  qed
qed

lemma find_subscriber_compact:
  assumes "tree_wf st" "tree_compact st" "length s = SID_SIZE" "\<forall>n. mem n" "find_subscriber mem s SID_SIZE True st = Some (r, st')"
  shows "tree_compact st'"
proof -
  have "slot_ok (subscribers st) (path_of s 0) (Slot_tree (root st))" using assms(1) by (simp add: tree_wf_def path_of_def)
  from find_loop_compact [OF this _ assms(3) _ assms(4), of None] show ?thesis
    using assms(2,3,5) by (auto simp: tree_compact_def find_subscriber_eq SID_STRLEN_def SID_SIZE_def split: prod.splits)
qed

section \<open>Properties of the tree\<close>

text \<open>
  (C5) Abbreviated addresses are unambiguous. Without creation (or with a prefix shorter than an id,
  for which nothing is created) \<open>find_subscriber\<close> changes nothing; it returns a subscriber exactly if
  the prefix starts its id and is at least as long as its abbreviation, and then no other known
  subscriber has an id with that prefix. In a compact tree the abbreviations are as short as can be: a
  subscriber is found by a prefix exactly if it is the only one with that prefix. Creation keeps a tree
  compact as long as memory lasts.
\<close>

theorem find_subscriber_lookup:
  assumes "tree_wf st" "0 < len" "len \<le> SID_SIZE" "length sidp = len" "\<not> create \<or> len \<noteq> SID_SIZE"
  shows "\<exists>r. find_subscriber mem sidp len create st = Some (r, st) \<and>
    (\<forall>p. r = Some p \<longleftrightarrow> p < length (subscribers st) \<and> take len (sid (subscribers st ! p)) = sidp \<and>
       abbreviate_len (subscribers st ! p) \<le> 2 * len) \<and>
    (\<forall>p q. r = Some p \<and> q < length (subscribers st) \<and> take len (sid (subscribers st ! q)) = sidp \<longrightarrow> q = p) \<and>
    (tree_compact st \<longrightarrow>
      (\<forall>p. r = Some p \<longleftrightarrow> {q. q < length (subscribers st) \<and> take len (sid (subscribers st ! q)) = sidp} = {p}) \<and>
      (\<forall>ok s r' st'. (\<forall>n. ok n) \<and> length s = SID_SIZE \<and> find_subscriber ok s SID_SIZE True st = Some (r', st') \<longrightarrow> tree_compact st'))"
proof -
  let ?M = "{q. q < length (subscribers st) \<and> take len (sid (subscribers st ! q)) = sidp}"
  have ok: "slot_ok (subscribers st) (path_of sidp 0) (Slot_tree (root st))"
    using assms(1) by (simp add: tree_wf_def path_of_def)
  obtain r where r: "find_loop mem sidp len False None 0 (root st) st = (r, root st, st)"
      "\<And>p. r = Some p \<longleftrightarrow> p < length (subscribers st) \<and> take len (sid (subscribers st ! p)) = sidp \<and>
         abbreviate_len (subscribers st ! p) \<le> 2 * len"
    using find_loop_lookup [OF ok, of len mem] assms by (auto simp: tree_wf_pointer)
  have c: "(create \<and> len = SID_SIZE) = False" using assms(5) by blast
  have run: "find_subscriber mem sidp len create st = Some (r, st)"
    using r(1) assms(2-4) by (simp add: find_subscriber_eq c)
  have unique: "q = p" if "r = Some p" "q < length (subscribers st)" "take len (sid (subscribers st ! q)) = sidp" for p q
    using pointer_unique [OF ok, of p q len] that r(2) [of p] assms(1,3) by (simp add: tree_wf_pointer)
  have "r = Some p" if compact: "tree_compact st" and M: "?M = {p}" for p
  proof -
    have "p \<in> ?M" unfolding M by simp
    then have p: "p < length (subscribers st)" "take len (sid (subscribers st ! p)) = sidp" by simp_all
    have "q = p" if "q < length (subscribers st)" "take len (sid (subscribers st ! q)) = take len (sid (subscribers st ! p))" for q
      using M that p(2) by blast
    then have "abbreviate_len (subscribers st ! p) \<le> 2 * len" by (rule compact_abbreviation [OF assms(1) compact p(1) assms(2,3)])
    then show ?thesis using p unfolding r(2) by blast
  qed
  moreover have "?M = {p}" if "r = Some p" for p
  proof
    show "?M \<subseteq> {p}" using unique [OF that] by blast
    show "{p} \<subseteq> ?M" using that unfolding r(2) by simp
  qed
  ultimately have exact: "\<forall>p. r = Some p \<longleftrightarrow> ?M = {p}" if "tree_compact st" using that by blast
  have keep: "\<forall>ok s r' st'. (\<forall>n. ok n) \<and> length s = SID_SIZE \<and> find_subscriber ok s SID_SIZE True st = Some (r', st') \<longrightarrow> tree_compact st'"
    if "tree_compact st" using find_subscriber_compact [OF assms(1) that] by blast
  show ?thesis
  proof (intro exI [of _ r] conjI)
    show "\<forall>p q. r = Some p \<and> q < length (subscribers st) \<and> take len (sid (subscribers st ! q)) = sidp \<longrightarrow> q = p"
      using unique by blast
    show "tree_compact st \<longrightarrow> (\<forall>p. r = Some p \<longleftrightarrow> ?M = {p}) \<and>
        (\<forall>ok s r' st'. (\<forall>n. ok n) \<and> length s = SID_SIZE \<and> find_subscriber ok s SID_SIZE True st = Some (r', st') \<longrightarrow> tree_compact st')"
      using exact keep by blast
  qed (fact run, use r(2) in blast)
qed

lemma tree_wf_distinct:
  assumes "tree_wf st"
  shows "distinct (map sid (subscribers st))"
proof -
  have ok: "slot_ok (subscribers st) [] (Slot_tree (root st))" using assms by (simp add: tree_wf_def)
  have "p = q" if p: "p < length (subscribers st)" and "q < length (subscribers st)"
    "sid (subscribers st ! p) = sid (subscribers st ! q)" for p q
  proof (rule pointer_unique [OF ok, of p q SID_SIZE])
    obtain x where "slot_at (Slot_tree (root st)) x = Some (Slot_subscriber p)"
        "path_of (sid (subscribers st ! p)) (abbreviate_len (subscribers st ! p)) = x"
      using slot_ok_pointer [OF ok, of p] p assms by (auto simp: tree_wf_pointer)
    then have "length x \<le> SID_STRLEN"
      using slot_at_depth [OF ok] by simp
    then show "abbreviate_len (subscribers st ! p) \<le> 2 * SID_SIZE"
      using \<open>path_of _ _ = x\<close> by (auto simp: SID_STRLEN_def)
  qed (use that assms in \<open>simp_all add: tree_wf_pointer\<close>)
  then show ?thesis by (auto simp: distinct_conv_nth)
qed

definition two_subscribers :: subscriber_state where
  "two_subscribers =
     (let s = (\<lambda>b n. \<lparr>sid = b # replicate 31 0, abbreviate_len = n, send_full = False, reachable_self = False, last_explained = 0\<rparr>)
      in \<lparr>root = empty_node[1 := Slot_tree (empty_node[0 := Slot_subscriber 0, 2 := Slot_subscriber 1])],
          subscribers = [s 0x10 2, s 0x12 2], mallocs = 3\<rparr>)"

lemma two_subscribers_wf: "tree_wf two_subscribers"
proof -
  let ?subs = "subscribers two_subscribers"
  let ?t = "empty_node[0 := Slot_subscriber 0, 2 := Slot_subscriber 1]"
  have subs: "length ?subs = 2" "length (sid (?subs ! 0)) = 32" "length (sid (?subs ! 1)) = 32"
      "abbreviate_len (?subs ! 0) = 2" "abbreviate_len (?subs ! 1) = 2"
    by (simp_all add: two_subscribers_def Let_def)
  have path: "path_of (sid (?subs ! 0)) 2 = [1, 0]" "path_of (sid (?subs ! 1)) 2 = [1, 2]"
    by code_simp+
  have leaf: "slot_ok ?subs [1, 0] (Slot_subscriber 0)" "slot_ok ?subs [1, 2] (Slot_subscriber (Suc 0))"
    using subs path by (simp_all add: slot_ok_leaf SID_SIZE_def numeral_2_eq_2)
  have "slot_ok ?subs [1] (Slot_tree ?t)"
    using leaf by (auto simp: slot_ok_tree empty_node_def nth_list_update SID_STRLEN_def SID_SIZE_def)
  then have "slot_ok ?subs [] (Slot_tree (root two_subscribers))"
    by (auto simp: slot_ok_tree [of _ "[]"] two_subscribers_def Let_def empty_node_def nth_list_update SID_STRLEN_def SID_SIZE_def)
  moreover have "set (leaves (Slot_tree (root two_subscribers))) = {0, 1}" by code_simp
  then have "pointers (Slot_tree (root two_subscribers)) = {0, 1}" by (simp only: set_leaves)
  moreover have "{0, 1} = {..<2 :: nat}" by (auto simp: numeral_2_eq_2)
  ultimately show ?thesis using subs(1) by (simp add: tree_wf_def)
qed

lemma two_subscribers_compact: "tree_compact two_subscribers"
  by code_simp

theorem find_subscriber_lookup_witness:
  "\<exists>r. find_subscriber (\<lambda>_. True) [0x12] 1 True two_subscribers = Some (r, two_subscribers) \<and> r = Some 1 \<and>
     {q. q < length (subscribers two_subscribers) \<and> take 1 (sid (subscribers two_subscribers ! q)) = [0x12]} = {1}"
proof -
  have "length (subscribers two_subscribers) = 2" "take 1 (sid (subscribers two_subscribers ! 1)) = [0x12]"
      "abbreviate_len (subscribers two_subscribers ! 1) = 2"
    by (simp_all add: two_subscribers_def Let_def)
  then show ?thesis
    using find_subscriber_lookup [OF two_subscribers_wf, of 1 "[0x12]" True "\<lambda>_. True"] two_subscribers_compact
    by (auto simp: SID_SIZE_def)
qed

lemma find_subscriber_result:
  assumes "tree_wf st" "length sidp = SID_SIZE"
  shows "\<exists>r st'. find_subscriber mem sidp SID_SIZE True st = Some (r, st') \<and> tree_wf st' \<and>
    distinct (map sid (subscribers st')) \<and>
    (sidp \<in> known_sids st \<longrightarrow> st' = st) \<and>
    (\<forall>p < length (subscribers st). sid (subscribers st' ! p) = sid (subscribers st ! p)) \<and>
    (case r of
       Some p \<Rightarrow> p < length (subscribers st') \<and> sid (subscribers st' ! p) = sidp \<and> known_sids st' = insert sidp (known_sids st)
     | None \<Rightarrow> (\<exists>n. \<not> mem n) \<and> known_sids st' = known_sids st)"
proof -
  have ok: "slot_ok (subscribers st) (path_of sidp 0) (Slot_tree (root st))"
    using assms(1) by (simp add: tree_wf_def path_of_def)
  obtain r node st1 where loop: "find_loop mem sidp SID_SIZE True None 0 (root st) st = (r, node, st1)"
    by (cases "find_loop mem sidp SID_SIZE True None 0 (root st) st")
  have post: "find_post mem sidp [] (root st) st (r, node, st1)"
    using find_loop_create [OF ok _ assms(2), of mem None] loop by (simp add: path_of_def SID_STRLEN_def SID_SIZE_def)
  let ?st' = "st1\<lparr>root := node\<rparr>" and ?n = "length (subscribers st)"
  have run: "find_subscriber mem sidp SID_SIZE True st = Some (r, ?st')"
    using loop assms(2) by (simp add: find_subscriber_eq SID_SIZE_def)
  have ok': "slot_ok (subscribers ?st') [] (Slot_tree (root ?st'))"
    and sids: "\<forall>p < ?n. sid (subscribers ?st' ! p) = sid (subscribers st ! p)"
    using post same_subs_sid by (auto simp: find_post_def)
  have sub: "pointers (Slot_tree (root st)) = {..<?n}" using assms(1) by (simp add: tree_wf_def)
  have known: "known_sids x = (\<lambda>p. sid (subscribers x ! p)) ` {..<length (subscribers x)}" for x
    by (auto simp: known_sids_def set_conv_nth)
  have old: "(\<lambda>p. sid (subscribers ?st' ! p)) ` {..<?n} = known_sids st"
    unfolding known using sids by (intro image_cong) auto
  consider (found) p where "p < ?n" "sid (subscribers st ! p) = sidp" "r = Some p" "node = root st" "st1 = st"
    | (new) "\<forall>p < ?n. sid (subscribers st ! p) \<noteq> sidp" "r = Some ?n" "length (subscribers st1) = Suc ?n"
        "sid (subscribers st1 ! ?n) = sidp" "pointers (Slot_tree node) = insert ?n {..<?n}"
    | (nomem) "\<forall>p < ?n. sid (subscribers st ! p) \<noteq> sidp" "r = None" "length (subscribers st1) = ?n"
        "pointers (Slot_tree node) = {..<?n}" "\<exists>n. \<not> mem n"
    using post unfolding find_post_def prod.case sub by blast
  then show ?thesis
  proof cases
    case found
    then have "?st' = st" by simp
    then show ?thesis
      using run found assms(1) tree_wf_distinct [OF assms(1)] by (auto simp: known)
  next
    case new
    then have wf: "tree_wf ?st'" using ok' by (simp add: tree_wf_def lessThan_Suc)
    have "known_sids ?st' = insert sidp (known_sids st)"
      using new old by (simp add: known [of ?st'] lessThan_Suc)
    moreover have "sidp \<notin> known_sids st" using new(1) by (auto simp: known)
    ultimately show ?thesis
      using run new sids wf tree_wf_distinct [OF wf] by auto
  next
    case nomem
    then have wf: "tree_wf ?st'" using ok' by (simp add: tree_wf_def)
    have "known_sids ?st' = known_sids st"
      using nomem old by (simp add: known [of ?st'])
    moreover have "sidp \<notin> known_sids st" using nomem(1) by (auto simp: known)
    ultimately show ?thesis
      using run nomem sids wf tree_wf_distinct [OF wf] by auto
  qed
qed

text \<open>
  (C4) The tree is kept. \<open>find_subscriber\<close> with creation, for a whole id, preserves the invariant of
  the tree, under which no two structs have the same id. It returns the subscriber with that id:
  the one there is, in which case nothing changes, or a new one; it fails only if memory runs out,
  and then nothing is added. The subscribers that other code points to keep their ids.
\<close>

theorem find_subscriber_create:
  assumes "tree_wf st" "length sidp = SID_SIZE"
  shows "\<exists>r st'. find_subscriber mem sidp SID_SIZE True st = Some (r, st') \<and> tree_wf st' \<and>
    distinct (map sid (subscribers st')) \<and>
    (sidp \<in> known_sids st \<longrightarrow> st' = st) \<and>
    (\<forall>p < length (subscribers st). sid (subscribers st' ! p) = sid (subscribers st ! p)) \<and>
    (case r of
       Some p \<Rightarrow> p < length (subscribers st') \<and> sid (subscribers st' ! p) = sidp \<and> known_sids st' = insert sidp (known_sids st)
     | None \<Rightarrow> (\<exists>n. \<not> mem n) \<and> known_sids st' = known_sids st)"
  by (rule find_subscriber_result [OF assms])

theorem find_subscriber_create_witness:
  "\<exists>r st'. find_subscriber (\<lambda>_. True) (0x13 # replicate 31 7) SID_SIZE True two_subscribers = Some (r, st') \<and>
     tree_wf st' \<and> (\<exists>p. r = Some p \<and> sid (subscribers st' ! p) = 0x13 # replicate 31 7)"
proof -
  have "length (0x13 # replicate 31 7 :: byte list) = SID_SIZE" by (simp add: SID_SIZE_def)
  from find_subscriber_create [OF two_subscribers_wf this, of "\<lambda>_. True"] show ?thesis
    by (auto split: option.splits)
qed

text \<open>The zeroed tree that the process starts with satisfies the invariant.\<close>

lemma tree_wf_empty: "tree_wf \<lparr>root = empty_node, subscribers = [], mallocs = 0\<rparr>"
proof -
  have "pointers (Slot_tree empty_node) = {}" by (auto simp: pointers_tree empty_node_def)
  moreover have "slot_ok [] [] (Slot_tree empty_node)"
    by (auto simp: slot_ok_tree empty_node_def SID_STRLEN_def SID_SIZE_def)
  ultimately show ?thesis by (simp add: tree_wf_def)
qed

text \<open>
  (C15) The walk. There is a fixed order of the known subscribers, each once, by ascending id;
  \<open>enum_subscribers\<close> calls its callback for them in that order, starting with \<open>start\<close> if there is
  one, until the callback asks to stop, and \<open>prefix_matches\<close> for exactly those whose id has the prefix.
\<close>

theorem subscriber_walks:
  assumes "tree_wf st" "len \<le> SID_SIZE" "length idp = len" "p0 < length (subscribers st)"
  shows "\<exists>ps. set ps = {..<length (subscribers st)} \<and>
    sorted_wrt (\<lambda>p q. memcmp (sid (subscribers st ! p)) (sid (subscribers st ! q)) = - 1) ps \<and>
    enum_subscribers st None cb c = call_until cb ps c \<and>
    enum_subscribers st (Some p0) cb c =
      call_until cb (filter (\<lambda>p. memcmp (sid (subscribers st ! p)) (sid (subscribers st ! p0)) \<noteq> - 1) ps) c \<and>
    prefix_matches st idp len cb c =
      snd (call_until cb (filter (\<lambda>p. take len (sid (subscribers st ! p)) = idp) ps) c)"
proof (intro exI conjI)
  let ?ps = "leaves (Slot_tree (root st))"
  have ok: "slot_ok (subscribers st) [] (Slot_tree (root st))" using assms(1) by (simp add: tree_wf_def)
  show "set ?ps = {..<length (subscribers st)}"
    using assms(1) unfolding set_leaves tree_wf_def by simp
  show "sorted_wrt (\<lambda>p q. memcmp (sid (subscribers st ! p)) (sid (subscribers st ! q)) = - 1) ?ps"
    by (rule leaves_sorted [OF ok])
  show "enum_subscribers st None cb c = call_until cb ?ps c"
    by (simp add: enum_subscribers_def walk_tree_def walk_slots_all)
  show "enum_subscribers st (Some p0) cb c =
      call_until cb (filter (\<lambda>p. memcmp (sid (subscribers st ! p)) (sid (subscribers st ! p0)) \<noteq> - 1) ?ps) c"
    using walk_slots_from [OF ok, of p0 "sid (subscribers st ! p0)" cb c] assms(1,4)
    by (simp add: enum_subscribers_def walk_tree_def tree_wf_pointer)
  have "slot_ok (subscribers st) (path_of idp 0) (Slot_tree (root st))" using ok by (simp add: path_of_def)
  from prefix_loop_calls [OF this, of len cb c]
  show "prefix_matches st idp len cb c = snd (call_until cb (filter (\<lambda>p. take len (sid (subscribers st ! p)) = idp) ?ps) c)"
    using assms(2,3) by (simp add: prefix_matches_def)
qed

theorem subscriber_walks_witness:
  "\<exists>ps. set ps = {..<length (subscribers two_subscribers)} \<and>
     enum_subscribers two_subscribers (Some 1) (\<lambda>p c. (False, c @ [p])) [] =
       call_until (\<lambda>p c. (False, c @ [p])) (filter (\<lambda>p. memcmp (sid (subscribers two_subscribers ! p))
          (sid (subscribers two_subscribers ! 1)) \<noteq> - 1) ps) []"
proof -
  have "(1 :: nat) < length (subscribers two_subscribers)" by (simp add: two_subscribers_def Let_def)
  from subscriber_walks [OF two_subscribers_wf _ refl this, of "[]" "\<lambda>p c. (False, c @ [p])" "[]"]
  show ?thesis by auto
qed

section \<open>Broadcast packet identifiers\<close>

lemma bpi_index_less: "bpi_index addr < MAX_BPIS"
proof -
  have "unat (x AND 0x3ff :: uint32) < 1024" for x
  proof -
    have "x AND 0x3ff = take_bit 10 x" by (simp add: take_bit_eq_mask mask_eq_exp_minus_1)
    then show ?thesis unfolding \<open>x AND 0x3ff = take_bit 10 x\<close> unsigned_take_bit_eq by (simp add: take_bit_eq_mod)
  qed
  then show ?thesis by (simp add: bpi_index_def MAX_BPIS_def)
qed

lemma broadcast_check_keeps:
  "length (snd (overlay_broadcast_drop_check x l)) = length l"
  "i \<noteq> bpi_index x \<Longrightarrow> snd (overlay_broadcast_drop_check x l) ! i = l ! i"
  by (simp_all add: overlay_broadcast_drop_check_def Let_def)

text \<open>
  (C29) Duplicate suppression. \<open>overlay_broadcast_drop_check\<close> stays inside its table, drops a broadcast
  identifier that was the last one checked of those with its hash, and after a check the same
  identifier is dropped, until another one with the same hash is checked.
\<close>

theorem broadcast_drop_check_correct:
  assumes "length bpilist = MAX_BPIS" "\<forall>x \<in> set bpilist. length x = BROADCAST_LEN" "length addr = BROADCAST_LEN"
    and "\<forall>x \<in> set others. length x = BROADCAST_LEN \<and> bpi_index x \<noteq> bpi_index addr"
  shows "(fst (overlay_broadcast_drop_check addr bpilist) \<longleftrightarrow> bpilist ! bpi_index addr = addr) \<and>
    length (snd (overlay_broadcast_drop_check addr bpilist)) = MAX_BPIS \<and>
    fst (overlay_broadcast_drop_check addr
      (fold (\<lambda>x l. snd (overlay_broadcast_drop_check x l)) others (snd (overlay_broadcast_drop_check addr bpilist))))"
proof (intro conjI)
  have i: "bpi_index addr < length bpilist" using bpi_index_less assms(1) by simp
  then have "length (bpilist ! bpi_index addr) = length addr" using assms(2,3) by simp
  then show "fst (overlay_broadcast_drop_check addr bpilist) \<longleftrightarrow> bpilist ! bpi_index addr = addr"
    by (simp add: overlay_broadcast_drop_check_def Let_def memcmp_eq_0)
  show "length (snd (overlay_broadcast_drop_check addr bpilist)) = MAX_BPIS"
    using assms(1) by (simp add: broadcast_check_keeps)
  have "snd (overlay_broadcast_drop_check addr bpilist) ! bpi_index addr = addr"
    using i \<open>length _ = length addr\<close> by (simp add: overlay_broadcast_drop_check_def Let_def memcmp_eq_0)
  moreover have "fold (\<lambda>x l. snd (overlay_broadcast_drop_check x l)) others l ! bpi_index addr = l ! bpi_index addr" for l
    using assms(4) by (induction others arbitrary: l) (simp_all add: broadcast_check_keeps)
  ultimately show "fst (overlay_broadcast_drop_check addr
      (fold (\<lambda>x l. snd (overlay_broadcast_drop_check x l)) others (snd (overlay_broadcast_drop_check addr bpilist))))"
    by (simp add: overlay_broadcast_drop_check_def [of addr "fold _ _ _"] Let_def memcmp_refl)
qed

theorem broadcast_drop_check_correct_witness:
  "fst (overlay_broadcast_drop_check [1, 2, 3, 4, 5, 6, 7, 8]
     (snd (overlay_broadcast_drop_check [1, 2, 3, 4, 5, 6, 7, 8] (replicate MAX_BPIS (replicate BROADCAST_LEN 0)))))"
  using broadcast_drop_check_correct [of "replicate MAX_BPIS (replicate BROADCAST_LEN 0)" "[1, 2, 3, 4, 5, 6, 7, 8]" "[]"]
  by (simp add: BROADCAST_LEN_def)

section \<open>Finding a known subscriber\<close>

lemma abbreviate_len_bound:
  assumes "tree_wf t" "p < length (subscribers t)"
  shows "abbreviate_len (subscribers t ! p) \<le> 2 * SID_SIZE"
proof -
  have ok: "slot_ok (subscribers t) [] (Slot_tree (root t))" using assms(1) by (simp add: tree_wf_def)
  have "p \<in> pointers (Slot_tree (root t))" using assms by (simp add: tree_wf_pointer)
  from slot_ok_pointer [OF ok this] obtain q where q: "slot_at (Slot_tree (root t)) q = Some (Slot_subscriber p)"
      "path_of (sid (subscribers t ! p)) (abbreviate_len (subscribers t ! p)) = q" by auto
  show ?thesis
    using slot_at_depth [OF ok q(1)] q(2) by (auto simp: SID_STRLEN_def)
qed

lemma find_subscriber_found:
  assumes wf: "tree_wf t" and p: "p < length (subscribers t)" and len: "0 < len" "len \<le> SID_SIZE"
    and abbr: "abbreviate_len (subscribers t ! p) \<le> 2 * len"
  shows "find_subscriber mem (take len (sid (subscribers t ! p))) len create t = Some (Some p, t)"
proof -
  let ?id = "take len (sid (subscribers t ! p))"
  have ok: "slot_ok (subscribers t) (path_of ?id 0) (Slot_tree (root t))" using wf by (simp add: tree_wf_def path_of_def)
  have l: "length ?id = len" using tree_wf_sid [OF wf p] len by simp
  show ?thesis
  proof (cases "create \<and> len = SID_SIZE")
    case True
    have id: "?id = sid (subscribers t ! p)" using True tree_wf_sid [OF wf p] by simp
    obtain r node st1 where loop: "find_loop mem ?id SID_SIZE True None 0 (root t) t = (r, node, st1)"
      by (cases "find_loop mem ?id SID_SIZE True None 0 (root t) t")
    have post: "find_post mem ?id [] (root t) t (r, node, st1)"
      using find_loop_create [OF ok, of mem None] loop l True by (simp add: path_of_def SID_STRLEN_def SID_SIZE_def)
    have "p \<in> pointers (Slot_tree (root t))" using wf p by (simp add: tree_wf_pointer)
    then obtain q where q: "q \<in> pointers (Slot_tree (root t))" "sid (subscribers t ! q) = ?id" "r = Some q" "node = root t" "st1 = t"
      using post id [symmetric] unfolding find_post_def prod.case by blast
    then have "q < length (subscribers t)" "map sid (subscribers t) ! q = map sid (subscribers t) ! p"
      using wf p id by (simp_all add: tree_wf_pointer)
    then have "q = p"
      using tree_wf_distinct [OF wf] p nth_eq_iff_index_eq [of "map sid (subscribers t)" q p] by simp
    then show ?thesis using loop q True l len by (simp add: find_subscriber_eq)
  next
    case False
    have len2: "0 < 2 * len" "len \<le> length ?id" using len l by simp_all
    obtain r where r: "find_loop mem ?id len False None 0 (root t) t = (r, root t, t)"
        "\<forall>q. r = Some q \<longleftrightarrow> q \<in> pointers (Slot_tree (root t)) \<and> take len (sid (subscribers t ! q)) = take len ?id \<and>
           abbreviate_len (subscribers t ! q) \<le> 2 * len"
      using find_loop_lookup [OF ok len2 len(2), of mem] by blast
    have "r = Some p" using r(2) wf p abbr by (simp add: tree_wf_pointer)
    have c: "(create \<and> len = SID_SIZE) = False" using False by blast
    show ?thesis using \<open>r = Some p\<close> r(1) l len by (simp add: find_subscriber_eq c)
  qed
qed

lemma known_sids_card: "tree_wf t \<Longrightarrow> card (known_sids t) = length (subscribers t)"
  using tree_wf_distinct [of t] distinct_card [of "map sid (subscribers t)"] by (simp add: known_sids_def)

lemma find_subscriber_grows:
  assumes "tree_wf st" "length s = SID_SIZE"
  shows "\<exists>r t. find_subscriber mem s SID_SIZE True st = Some (r, t) \<and> tree_wf t \<and> length (subscribers st) \<le> length (subscribers t) \<and>
    (\<forall>p. r = Some p \<longrightarrow> p < length (subscribers t))"
proof -
  obtain r t where t: "find_subscriber mem s SID_SIZE True st = Some (r, t)" "tree_wf t"
      "known_sids st \<subseteq> known_sids t" "\<forall>p. r = Some p \<longrightarrow> p < length (subscribers t)"
    using find_subscriber_result [OF assms, of mem] by (force split: option.splits)
  have "length (subscribers st) \<le> length (subscribers t)"
    using card_mono [OF _ t(3)] known_sids_card [OF assms(1)] known_sids_card [OF t(2)] by (simp add: known_sids_def)
  then show ?thesis using t by blast
qed

end
