(* ===== verification/Overlay_Address.thy ===== *)
theory Overlay_Address
  imports Subscriber_Tree_Correct Overlay_Fields
begin

text \<open>
  Addresses in overlay packets (overlay_address.c): writing a subscriber as a one-byte code or the
  shortest prefix of its id that identifies it, reading it back, and asking for and giving
  explanations of abbreviations that cannot be resolved.

  The state is the subscriber tree with \<open>my_subscriber\<close>, the number of times the clock was read (its
  \<open>n\<close>-th reading is \<open>gettime n\<close>) and the calls of \<open>link_explained\<close> of the routing code, of which only
  the order of the calls is kept, and the frames that were enqueued. Of \<open>struct decode_context\<close> and \<open>struct overlay_frame\<close> the fields
  that this file uses are kept.
\<close>

section \<open>The state\<close>

text \<open>
  Of an interface: \<open>local_echo\<close>, whether its own destination may be sent to, and what
  \<open>create_unicast_destination\<close> returns for the address a packet came from, \<open>None\<close> for NULL and
  otherwise whether that destination may be sent to.
\<close>

record overlay_interface =
  local_echo :: bool
  destination_send :: bool
  unicast_send :: "bool option"

datatype packet_destination = Interface_destination | Unicast_destination

record overlay_frame =
  frame_type :: nat
  ttl :: nat
  queue :: nat
  destinations :: "packet_destination list"
  frame_source :: "nat option"
  frame_destination :: "nat option"
  source_full :: bool
  frame_interface :: "overlay_interface option"
  payload :: "overlay_buffer option"

record decode_context =
  interface :: "overlay_interface option"
  flags :: byte
  please_explain :: "overlay_frame option"
  sender :: "nat option"
  previous :: "nat option"
  point_to_point_device :: "nat option"

record overlay_state =
  tree :: subscriber_state
  my_subscriber :: "nat option"
  gettimes :: nat
  explained :: "nat list"
  enqueued :: "overlay_frame list"

text \<open>The frame that \<open>calloc\<close> or \<open>emalloc_zero\<close> returns.\<close>

definition frame_zero :: overlay_frame where
  "frame_zero = \<lparr>frame_type = 0, ttl = 0, queue = 0, destinations = [], frame_source = None, frame_destination = None,
     source_full = False, frame_interface = None, payload = None\<rparr>"






definition OA_CODE_P2P_YOU :: byte where "OA_CODE_P2P_YOU = 0xfd"


definition MDP_MTU :: nat where "MDP_MTU = 1200"

definition sub_at :: "overlay_state \<Rightarrow> nat \<Rightarrow> subscriber" where
  "sub_at st p = subscribers (tree st) ! p"

definition sub_update :: "nat \<Rightarrow> (subscriber \<Rightarrow> subscriber) \<Rightarrow> overlay_state \<Rightarrow> overlay_state" where
  "sub_update p f st = st\<lparr>tree := (tree st)\<lparr>subscribers := (subscribers (tree st))[p := f (sub_at st p)]\<rparr>\<rparr>"

definition overlay_malloc :: "(nat \<Rightarrow> bool) \<Rightarrow> overlay_state \<Rightarrow> bool \<times> overlay_state" where
  "overlay_malloc mem st = (let (ok, t) = emalloc_zero mem (tree st) in (ok, st\<lparr>tree := t\<rparr>))"

section \<open>Writing addresses\<close>

definition overlay_broadcast_append :: "allocator \<Rightarrow> overlay_buffer \<Rightarrow> byte list \<Rightarrow> overlay_buffer option" where
  "overlay_broadcast_append al b addr = ob_append_bytes al b addr"


section \<open>Explaining abbreviations\<close>

text \<open>
  \<open>add_explain_response\<close> is the callback of the tree walks: its context is the decode context with the
  state, \<open>None\<close> if the process has stopped. It returns whether to stop walking.
\<close>

definition add_explain_response :: "(nat \<Rightarrow> bool) \<Rightarrow> (nat \<Rightarrow> int) \<Rightarrow> allocator \<Rightarrow> nat \<Rightarrow>
    decode_context \<times> overlay_state \<Rightarrow> (bool \<times> decode_context \<times> overlay_state) option" where
  "add_explain_response mem gettime al p = (\<lambda>(response, st).
     let now = gettime (gettimes st); st = st\<lparr>gettimes := gettimes st + 1\<rparr>
     in if now - last_explained (sub_at st p) < 500 then Some (False, response, st)
        else let st = sub_update p (last_explained_update (\<lambda>_. now)) st
        in do {
          (frame, response, st) \<leftarrow>
            (case please_explain response of
               Some f \<Rightarrow> Some (Some f, response, st)
             | None \<Rightarrow>
                 let (ok, st) = overlay_malloc mem st
                 in if \<not> ok then Some (None, response, st)
                    else let (ok, st) = overlay_malloc mem st
                         in case ob_new ok of
                              None \<Rightarrow> Some (None, response\<lparr>please_explain := None\<rparr>, st)
                            | Some b \<Rightarrow> do {
                                b \<leftarrow> ob_limitsize b 1024;
                                let f = frame_zero\<lparr>payload := Some b\<rparr>;
                                Some (Some f, response\<lparr>please_explain := Some f\<rparr>, st)
                              });
          case frame of
            None \<Rightarrow> Some (True, response, st)
          | Some f \<Rightarrow>
              if reachable_self (sub_at st p) \<and> my_subscriber st = Some p
              then Some (False, response\<lparr>please_explain := Some (f\<lparr>source_full := True\<rparr>)\<rparr>, st)
              else do {
                let st = (if reachable_self (sub_at st p) then sub_update p (send_full_update (\<lambda>_. True)) st else st);
                b \<leftarrow> payload f;
                let b = ob_checkpoint b;
                b \<leftarrow> ob_append_byte al b (of_nat SID_SIZE);
                b \<leftarrow> ob_append_bytes al b (sid (sub_at st p));
                if ob_overrun b
                then Some (True, response\<lparr>please_explain := Some (f\<lparr>payload := Some (ob_rewind b)\<rparr>)\<rparr>, st)
                else Some (False, response\<lparr>please_explain := Some (f\<lparr>payload := Some b\<rparr>)\<rparr>,
                           st\<lparr>explained := explained st @ [p]\<rparr>)
              }
        })"

definition explain_callback :: "(nat \<Rightarrow> bool) \<Rightarrow> (nat \<Rightarrow> int) \<Rightarrow> allocator \<Rightarrow> nat \<Rightarrow>
    (decode_context \<times> overlay_state) option \<Rightarrow> bool \<times> (decode_context \<times> overlay_state) option" where
  "explain_callback mem gettime al p c =
     (case c of
        None \<Rightarrow> (True, None)
      | Some cs \<Rightarrow> (case add_explain_response mem gettime al p cs of
                      None \<Rightarrow> (True, None)
                    | Some (stop, cs) \<Rightarrow> (stop, Some cs)))"



section \<open>Reading addresses\<close>


definition overlay_broadcast_parse :: "overlay_buffer \<Rightarrow> (byte list option \<times> overlay_buffer) option" where
  "overlay_broadcast_parse b = ob_get_bytes b BROADCAST_LEN"


section \<open>Sending explanations\<close>

definition OF_TYPE_PLEASEEXPLAIN :: nat where "OF_TYPE_PLEASEEXPLAIN = 0x60"

definition OQ_MESH_MANAGEMENT :: nat where "OQ_MESH_MANAGEMENT = 1"

definition OQ_MAX :: nat where "OQ_MAX = 5"

definition PAYLOAD_TTL_DEFAULT :: nat where "PAYLOAD_TTL_DEFAULT = 31"

definition MAX_PACKET_DESTINATIONS :: nat where "MAX_PACKET_DESTINATIONS = 16"

definition frame_add_destination :: "overlay_frame \<Rightarrow> packet_destination \<Rightarrow> bool \<Rightarrow> overlay_frame" where
  "frame_add_destination frame dest send =
     (if \<not> send \<or> length (destinations frame) \<ge> MAX_PACKET_DESTINATIONS then frame
      else frame\<lparr>destinations := destinations frame @ [dest]\<rparr>)"

text \<open>
  The tests at the start of \<open>_overlay_payload_enqueue\<close>: it accepts the frame, which is put in
  the queue, or returns -1; \<open>congested\<close> says whether the queue is full. What it does with a frame
  that it has accepted is not modelled.
\<close>

definition overlay_payload_enqueue :: "bool \<Rightarrow> overlay_frame \<Rightarrow> overlay_state \<Rightarrow> (int \<times> overlay_state) option" where
  "overlay_payload_enqueue congested p st = do {
     assert (queue p < OQ_MAX);
     b \<leftarrow> payload p;
     if ob_overrun b then Some (- 1, st)
     else do {
       assert (ob_position b < MDP_MTU);
       if congested then Some (- 1, st) else Some (0, st\<lparr>enqueued := enqueued st @ [p]\<rparr>)
     }
   }"

definition send_please_explain :: "bool \<Rightarrow> decode_context \<Rightarrow> nat option \<Rightarrow> nat option \<Rightarrow> overlay_state \<Rightarrow>
    (int \<times> overlay_state) option" where
  "send_please_explain congested context source destination st =
     (case please_explain context of
        None \<Rightarrow> Some (0, st)
      | Some frame \<Rightarrow> do {
          assert (payload frame \<noteq> None);
          let frame = frame\<lparr>frame_type := OF_TYPE_PLEASEEXPLAIN,
                frame_source := (if source \<noteq> None then source else my_subscriber st)\<rparr>;
          let frame = (if sender context = None then frame\<lparr>source_full := True\<rparr> else frame);
          let frame = frame\<lparr>frame_destination := destination\<rparr>;
          frame \<leftarrow>
            (if destination \<noteq> None then Some (frame\<lparr>ttl := PAYLOAD_TTL_DEFAULT, source_full := True\<rparr>)
             else do {
               i \<leftarrow> interface context;
               let frame = frame_add_destination (frame\<lparr>ttl := 1\<rparr>) Interface_destination (destination_send i);
               Some (case unicast_send i of None \<Rightarrow> frame | Some send \<Rightarrow> frame_add_destination frame Unicast_destination send)
             });
          (r, st) \<leftarrow> overlay_payload_enqueue congested (frame\<lparr>queue := OQ_MESH_MANAGEMENT\<rparr>) st;
          Some (if r \<noteq> - 1 then 0 else - 1, st)
        })"

section \<open>Answering requests\<close>

text \<open>
  The loop of \<open>process_explain\<close> over the requests; it returns -1 for a badly formatted one, and then the
  response collected so far is neither sent nor freed. The loop is cut off, with \<open>None\<close>, after \<open>fuel\<close> rounds.
  A request is at least one byte, so one round more than there are bytes remaining is enough.
\<close>

fun process_explain_loop :: "(nat \<Rightarrow> bool) \<Rightarrow> (nat \<Rightarrow> int) \<Rightarrow> allocator \<Rightarrow> nat \<Rightarrow> decode_context \<Rightarrow> overlay_buffer \<Rightarrow>
    overlay_state \<Rightarrow> (int \<times> decode_context \<times> overlay_buffer \<times> overlay_state) option" where
  "process_explain_loop mem gettime al 0 context b st = None"
| "process_explain_loop mem gettime al (Suc fuel) context b st = do {
     n \<leftarrow> ob_remaining b;
     if n = 0 then Some (0, context, b, st)
     else do {
       (len, b) \<leftarrow> ob_get b;
       if len = uint OA_CODE_P2P_YOU
       then do {
         p \<leftarrow> my_subscriber st;
         (_, context, st) \<leftarrow> add_explain_response mem gettime al p (context, st);
         process_explain_loop mem gettime al fuel context b st
       }
       else if len \<le> 0 \<or> len > int SID_SIZE then Some (- 1, context, b, st)
       else let (ptr, b) = ob_get_bytes_ptr b (nat len)
            in case ptr of
                 None \<Rightarrow> Some (- 1, context, b, st)
               | Some off \<Rightarrow> do {
                   s \<leftarrow> ob_read b off (nat len);
                   if nat len = SID_SIZE
                   then do {
                     (_, t) \<leftarrow> find_subscriber mem s (nat len) True (tree st);
                     process_explain_loop mem gettime al fuel context b (st\<lparr>tree := t\<rparr>)
                   }
                   else do {
                     (context, st) \<leftarrow> prefix_matches (tree st) s (nat len) (explain_callback mem gettime al) (Some (context, st));
                     process_explain_loop mem gettime al fuel context b st
                   }
                 }
     }
   }"

definition process_explain :: "(nat \<Rightarrow> bool) \<Rightarrow> (nat \<Rightarrow> int) \<Rightarrow> allocator \<Rightarrow> bool \<Rightarrow> overlay_frame \<Rightarrow>
    overlay_state \<Rightarrow> (int \<times> overlay_buffer \<times> overlay_state) option" where
  "process_explain mem gettime al congested frame st = do {
     b \<leftarrow> payload frame;
     n \<leftarrow> ob_remaining b;
     (r, context, b, st) \<leftarrow> process_explain_loop mem gettime al (n + 1)
       \<lparr>interface = frame_interface frame, flags = 0, please_explain = None, sender = frame_source frame, previous = None,
        point_to_point_device = None\<rparr> b st;
     if r = 0 \<and> please_explain context \<noteq> None
     then do {
       (_, st) \<leftarrow> send_please_explain congested context (frame_destination frame) (frame_source frame) st;
       Some (0, b, st)
     }
     else Some (r, b, st)
   }"

section \<open>The tree under the operations\<close>

lemma slot_ok_cong:
  assumes "slot_ok subs path s" "length subs = length subs'"
    and "\<forall>p < length subs. sid (subs' ! p) = sid (subs ! p) \<and> abbreviate_len (subs' ! p) = abbreviate_len (subs ! p)"
  shows "slot_ok subs' path s"
  using assms unfolding slot_ok_def by (auto split: slot.splits)

definition keeps_ids :: "overlay_state \<Rightarrow> overlay_state \<Rightarrow> bool" where
  "keeps_ids st st' \<longleftrightarrow> root (tree st') = root (tree st) \<and> my_subscriber st' = my_subscriber st \<and> enqueued st' = enqueued st \<and>
     length (subscribers (tree st')) = length (subscribers (tree st)) \<and>
     (\<forall>p < length (subscribers (tree st)). sid (sub_at st' p) = sid (sub_at st p) \<and>
        abbreviate_len (sub_at st' p) = abbreviate_len (sub_at st p))"

lemma keeps_ids_wf: "keeps_ids st st' \<Longrightarrow> tree_wf (tree st) \<Longrightarrow> tree_wf (tree st')"
  using slot_ok_cong [of "subscribers (tree st)" "[]" "Slot_tree (root (tree st))" "subscribers (tree st')"]
  by (auto simp: keeps_ids_def tree_wf_def sub_at_def)

lemma keeps_ids_refl: "keeps_ids st st"
  by (simp add: keeps_ids_def)

lemma keeps_ids_trans: "keeps_ids a b \<Longrightarrow> keeps_ids b c \<Longrightarrow> keeps_ids a c"
  by (simp add: keeps_ids_def)

lemma keeps_ids_updates [simp]:
  "keeps_ids a (st\<lparr>gettimes := n\<rparr>) = keeps_ids a st"
  "keeps_ids a (st\<lparr>explained := l\<rparr>) = keeps_ids a st"
  "keeps_ids a (snd (overlay_malloc mem st)) = keeps_ids a st"
  by (simp_all add: keeps_ids_def sub_at_def overlay_malloc_def emalloc_zero_def)

lemma nth_update_keeps: "g y = g (xs ! p) \<Longrightarrow> g (xs[p := y] ! q) = g (xs ! q)"
  by (cases "p < length xs"; cases "p = q") (simp_all add: list_update_beyond)

lemma keeps_ids_sub_update:
  assumes "\<And>s. sid (f s) = sid s" "\<And>s. abbreviate_len (f s) = abbreviate_len s" "keeps_ids a st"
  shows "keeps_ids a (sub_update p f st)"
  using assms by (simp add: keeps_ids_def sub_update_def sub_at_def nth_update_keeps)

section \<open>What is written can be read\<close>






















section \<open>Properties\<close>


definition example_state :: overlay_state where
  "example_state = \<lparr>tree = two_subscribers, my_subscriber = Some 0, gettimes = 0, explained = [], enqueued = []\<rparr>"






section \<open>Explanations\<close>

lemma ob_append_raw_refused:
  assumes "position b + length xs \<le> ob_bound" "sizeLimit b < position b + length xs" "position b \<noteq> 0 \<longrightarrow> bytes b \<noteq> None"
  shows "ob_append_raw al b xs = Some (b\<lparr>position := position b + length xs\<rparr>)"
  using assms ob_bound_SIZE_MAX(1) [OF assms(1)]
  by (simp add: ob_append_raw_def ob_makespace_def size_add_eq)

definition explain_buffer_ok :: "allocator \<Rightarrow> overlay_buffer \<Rightarrow> bool" where
  "explain_buffer_ok al b \<longleftrightarrow> ob_wf b \<and> ob_growable al b \<and> \<not> ob_overrun b \<and> 0 < sizeLimit b \<and> sizeLimit b \<le> 1024"

lemma explain_buffer_bytes: "explain_buffer_ok al b \<Longrightarrow> position b \<noteq> 0 \<Longrightarrow> bytes b \<noteq> None"
  using ob_wf_NULL [of b] by (cases "bytes b") (auto simp: explain_buffer_ok_def ob_overrun_iff)

lemma explain_checkpoint: "explain_buffer_ok al b \<Longrightarrow> explain_buffer_ok al (ob_checkpoint b)"
  by (auto simp: explain_buffer_ok_def ob_checkpoint_def ob_wf_def ob_growable_def ob_overrun_def)

lemma explain_append:
  assumes ok: "explain_buffer_ok al b" and al: "malloc_ok al" and xs: "xs \<noteq> []" "length xs \<le> SID_SIZE"
  shows "\<exists>b1 b2. ob_append_byte al (ob_checkpoint b) v = Some b1 \<and> ob_append_bytes al b1 xs = Some b2 \<and>
    (if ob_overrun b2 then explain_buffer_ok al (ob_rewind b2) else explain_buffer_ok al b2)"
proof -
  let ?b = "ob_checkpoint b"
  note ok' = explain_checkpoint [OF ok]
  have wf: "ob_wf ?b" "ob_growable al ?b" "\<not> ob_overrun ?b" "0 < sizeLimit ?b" "sizeLimit ?b \<le> 1024"
    using ok' by (simp_all add: explain_buffer_ok_def)
  have pos: "position ?b \<le> sizeLimit ?b" "checkpointLength ?b = position ?b"
    using wf(1,3) by (auto simp: ob_overrun_iff ob_checkpoint_def)
  have small: "position ?b + 40 \<le> ob_bound" using pos(1) wf(5) by (simp add: ob_bound_def)
  show ?thesis
  proof (cases "position ?b + 1 \<le> sizeLimit ?b")
    case True
    obtain b1 where b1: "ob_append_byte al ?b v = Some b1" "\<not> ob_overrun b1" "ob_growable al b1"
      using ob_append_raw_fits [OF wf(1) al wf(2,3), of "[v]"] True small by (auto simp: ob_append_raw_eqs ob_fits_def)
    have ap: "ob_appended ?b [v] b1"
      using b1(1) wf(1) al small by (intro ob_append_raw_appended) (auto simp: ob_append_raw_eqs)
    have ok1: "explain_buffer_ok al b1"
      using ap b1 wf(4,5) by (auto simp: ob_appended_def explain_buffer_ok_def)
    have p1: "position b1 = position ?b + 1" "sizeLimit b1 = sizeLimit ?b" "checkpointLength b1 = position ?b"
      using ap pos(2) by (simp_all add: ob_appended_def)
    show ?thesis
    proof (cases "position b1 + length xs \<le> sizeLimit b1")
      case True
      have "ob_fits b1 (length xs)" using True p1 small xs(2) by (simp add: ob_fits_def SID_SIZE_def)
      then obtain b2 where b2: "ob_append_bytes al b1 xs = Some b2" "\<not> ob_overrun b2" "ob_growable al b2"
        using ob_append_raw_fits [OF _ al b1(3,2), of xs] ok1 xs(1) by (auto simp: ob_append_raw_eqs explain_buffer_ok_def)
      have "ob_appended b1 xs b2"
        using b2(1) ok1 al small p1 xs by (intro ob_append_raw_appended) (auto simp: ob_append_raw_eqs explain_buffer_ok_def SID_SIZE_def)
      then have "explain_buffer_ok al b2"
        using b2 ok1 by (auto simp: ob_appended_def explain_buffer_ok_def)
      then show ?thesis using b1 b2 by auto
    next
      case False
      have "ob_append_bytes al b1 xs = Some (b1\<lparr>position := position b1 + length xs\<rparr>)"
        using ob_append_raw_refused [of b1 xs al] False p1 small xs explain_buffer_bytes [OF ok1]
        by (simp add: ob_append_raw_eqs SID_SIZE_def)
      moreover have "explain_buffer_ok al (ob_rewind (b1\<lparr>position := position b1 + length xs\<rparr>))"
        using ok1 p1 by (auto simp: explain_buffer_ok_def ob_rewind_def ob_wf_def ob_growable_def ob_overrun_def)
      moreover have "ob_overrun (b1\<lparr>position := position b1 + length xs\<rparr>)"
        using False ok1 by (auto simp: ob_overrun_def explain_buffer_ok_def SIZE_MAX_def)
      ultimately show ?thesis using b1 by auto
    qed
  next
    case False
    have bytes: "bytes ?b \<noteq> None" using explain_buffer_bytes [OF ok'] False wf(4) by simp
    let ?b1 = "?b\<lparr>position := position ?b + 1\<rparr>"
    let ?b2 = "?b1\<lparr>position := position ?b1 + length xs\<rparr>"
    have "ob_append_byte al ?b v = Some ?b1"
      using ob_append_raw_refused [of ?b "[v]" al] False small bytes by (simp add: ob_append_raw_eqs)
    moreover have "ob_append_bytes al ?b1 xs = Some ?b2"
      using ob_append_raw_refused [of ?b1 xs al] False small bytes xs by (simp add: ob_append_raw_eqs SID_SIZE_def)
    moreover have "explain_buffer_ok al (ob_rewind ?b2)"
      using ok' pos(2) by (auto simp: explain_buffer_ok_def ob_rewind_def ob_wf_def ob_growable_def ob_overrun_def)
    moreover have "ob_overrun ?b2"
      using False wf(5) by (auto simp: ob_overrun_def SIZE_MAX_def)
    ultimately show ?thesis by (intro exI [of _ ?b1] exI [of _ ?b2]) simp
  qed
qed

text \<open>Collecting a response changes nothing else in the context.\<close>

definition same_link :: "decode_context \<Rightarrow> decode_context \<Rightarrow> bool" where
  "same_link c c' \<longleftrightarrow> sender c' = sender c \<and> interface c' = interface c"

lemma same_link_simps [simp]: "same_link c c" "same_link c (c'\<lparr>please_explain := f\<rparr>) = same_link c c'"
  by (simp_all add: same_link_def)

lemma same_link_trans: "same_link a b \<Longrightarrow> same_link b c \<Longrightarrow> same_link a c"
  by (simp add: same_link_def)

definition explain_ok :: "allocator \<Rightarrow> decode_context \<Rightarrow> bool" where
  "explain_ok al c \<longleftrightarrow> (\<forall>f. please_explain c = Some f \<longrightarrow> (\<exists>b. payload f = Some b \<and> explain_buffer_ok al b))"

lemma explain_new_buffer:
  assumes "\<forall>n. al n \<noteq> None"
  shows "\<exists>b. ob_limitsize (ob_unlimitsize ob_zero) 1024 = Some b \<and> explain_buffer_ok al b"
  using assms by (auto simp: ob_limitsize_def ob_unlimitsize_def ob_zero_def explain_buffer_ok_def ob_wf_def ob_content_def
      ob_growable_def ob_overrun_def SIZE_MAX_def)

text \<open>The frame that a response goes into: the one there is, a new one, or none if memory runs out.\<close>

definition explain_frame :: "(nat \<Rightarrow> bool) \<Rightarrow> decode_context \<Rightarrow> overlay_state \<Rightarrow>
    (overlay_frame option \<times> decode_context \<times> overlay_state) option" where
  "explain_frame mem response st =
     (case please_explain response of
        Some f \<Rightarrow> Some (Some f, response, st)
      | None \<Rightarrow>
          let (ok, st) = overlay_malloc mem st
          in if \<not> ok then Some (None, response, st)
             else let (ok, st) = overlay_malloc mem st
                  in case ob_new ok of
                       None \<Rightarrow> Some (None, response\<lparr>please_explain := None\<rparr>, st)
                     | Some b \<Rightarrow> do {
                         b \<leftarrow> ob_limitsize b 1024;
                         let f = frame_zero\<lparr>payload := Some b\<rparr>;
                         Some (Some f, response\<lparr>please_explain := Some f\<rparr>, st)
                       })"

lemma keeps_ids_malloc: "overlay_malloc mem st = (ok, st') \<Longrightarrow> keeps_ids a st \<Longrightarrow> keeps_ids a st'"
  using keeps_ids_updates(3) [of a mem st] by simp

lemma explain_frame_safe:
  assumes "explain_ok al c" "\<forall>n. al n \<noteq> None"
  shows "\<exists>frame c' st'. explain_frame mem c st = Some (frame, c', st') \<and> keeps_ids st st' \<and> explain_ok al c' \<and> same_link c c' \<and>
    (\<forall>f. frame = Some f \<longrightarrow> please_explain c' = Some f)"
proof (cases "please_explain c")
  case None
  obtain ok1 st1 where m1: "overlay_malloc mem st = (ok1, st1)" by (cases "overlay_malloc mem st")
  obtain ok2 st2 where m2: "overlay_malloc mem st1 = (ok2, st2)" by (cases "overlay_malloc mem st1")
  have k: "keeps_ids st st1" "keeps_ids st st2"
    using keeps_ids_malloc [OF m1 keeps_ids_refl] keeps_ids_malloc [OF m2] by blast+
  obtain b where b: "ob_limitsize (ob_unlimitsize ob_zero) 1024 = Some b" "explain_buffer_ok al b"
    using explain_new_buffer [OF assms(2)] by blast
  show ?thesis
    using None m1 m2 k b assms(1) by (auto simp: explain_frame_def ob_new_def explain_ok_def Let_def)
qed (use assms(1) in \<open>simp add: explain_frame_def keeps_ids_refl\<close>)

lemma add_explain_response_frame:
  "add_explain_response mem gettime al p (response, st) =
     (let now = gettime (gettimes st); st = st\<lparr>gettimes := gettimes st + 1\<rparr>
      in if now - last_explained (sub_at st p) < 500 then Some (False, response, st)
         else let st = sub_update p (last_explained_update (\<lambda>_. now)) st
         in explain_frame mem response st \<bind> (\<lambda>(frame, response, st).
           case frame of
            None \<Rightarrow> Some (True, response, st)
          | Some f \<Rightarrow>
              if reachable_self (sub_at st p) \<and> my_subscriber st = Some p
              then Some (False, response\<lparr>please_explain := Some (f\<lparr>source_full := True\<rparr>)\<rparr>, st)
              else do {
                let st = (if reachable_self (sub_at st p) then sub_update p (send_full_update (\<lambda>_. True)) st else st);
                b \<leftarrow> payload f;
                let b = ob_checkpoint b;
                b \<leftarrow> ob_append_byte al b (of_nat SID_SIZE);
                b \<leftarrow> ob_append_bytes al b (sid (sub_at st p));
                if ob_overrun b
                then Some (True, response\<lparr>please_explain := Some (f\<lparr>payload := Some (ob_rewind b)\<rparr>)\<rparr>, st)
                else Some (False, response\<lparr>please_explain := Some (f\<lparr>payload := Some b\<rparr>)\<rparr>,
                           st\<lparr>explained := explained st @ [p]\<rparr>)
              }))"
  unfolding add_explain_response_def explain_frame_def prod.case by (rule refl)

lemma add_explain_response_safe:
  assumes "tree_wf (tree st)" "p < length (subscribers (tree st))" "malloc_ok al" "\<forall>n. al n \<noteq> None" "explain_ok al c"
  shows "\<exists>stop c' st'. add_explain_response mem gettime al p (c, st) = Some (stop, c', st') \<and> keeps_ids st st' \<and> explain_ok al c' \<and> same_link c c'"
proof -
  define st1 where "st1 = st\<lparr>gettimes := gettimes st + 1\<rparr>"
  define st2 where "st2 = sub_update p (last_explained_update (\<lambda>_. gettime (gettimes st))) st1"
  have k2: "keeps_ids st st2" "keeps_ids st st1"
    by (auto simp: st2_def st1_def keeps_ids_refl intro!: keeps_ids_sub_update)
  obtain frame c3 st3 where f: "explain_frame mem c st2 = Some (frame, c3, st3)" "keeps_ids st2 st3" "explain_ok al c3"
      "\<forall>f. frame = Some f \<longrightarrow> please_explain c3 = Some f" "same_link c c3"
    using explain_frame_safe [OF assms(5,4)] by blast
  have k3: "keeps_ids st st3" by (rule keeps_ids_trans [OF k2(1) f(2)])
  define st4 where "st4 = (if reachable_self (sub_at st3 p) then sub_update p (send_full_update (\<lambda>_. True)) st3 else st3)"
  have k4: "keeps_ids st st4" using k3 by (auto simp: st4_def intro!: keeps_ids_sub_update)
  have "length (sid (sub_at st4 p)) = SID_SIZE"
    using tree_wf_sid [OF keeps_ids_wf [OF k4 assms(1)], of p] k4 assms(2) by (simp add: keeps_ids_def sub_at_def)
  then have s: "sid (sub_at st4 p) \<noteq> []" "length (sid (sub_at st4 p)) \<le> SID_SIZE" by (auto simp: SID_SIZE_def)
  have run: "add_explain_response mem gettime al p (c, st) =
     (if gettime (gettimes st) - last_explained (sub_at st1 p) < 500 then Some (False, c, st1)
      else case frame of
            None \<Rightarrow> Some (True, c3, st3)
          | Some f \<Rightarrow>
              if reachable_self (sub_at st3 p) \<and> my_subscriber st3 = Some p
              then Some (False, c3\<lparr>please_explain := Some (f\<lparr>source_full := True\<rparr>)\<rparr>, st3)
              else payload f \<bind> (\<lambda>b. ob_append_byte al (ob_checkpoint b) (of_nat SID_SIZE) \<bind> (\<lambda>b.
                ob_append_bytes al b (sid (sub_at st4 p)) \<bind> (\<lambda>b.
                if ob_overrun b
                then Some (True, c3\<lparr>please_explain := Some (f\<lparr>payload := Some (ob_rewind b)\<rparr>)\<rparr>, st4)
                else Some (False, c3\<lparr>please_explain := Some (f\<lparr>payload := Some b\<rparr>)\<rparr>,
                           st4\<lparr>explained := explained st4 @ [p]\<rparr>)))))"
    by (simp only: add_explain_response_frame Let_def st1_def [symmetric] st2_def [symmetric] f(1) bind.bind_lunit prod.case
        st4_def [symmetric])
  show ?thesis
  proof (cases frame)
    case None
    then show ?thesis using run k2 k3 f(3,5) assms(5) by auto
  next
    case (Some fr)
    obtain b where b: "payload fr = Some b" "explain_buffer_ok al b"
      using f(3,4) Some by (auto simp: explain_ok_def)
    obtain b1 b2 where b12: "ob_append_byte al (ob_checkpoint b) (of_nat SID_SIZE) = Some b1"
        "ob_append_bytes al b1 (sid (sub_at st4 p)) = Some b2"
        "if ob_overrun b2 then explain_buffer_ok al (ob_rewind b2) else explain_buffer_ok al b2"
      using explain_append [OF b(2) assms(3) s] by blast
    have "explain_ok al (c3\<lparr>please_explain := Some (fr\<lparr>source_full := True\<rparr>)\<rparr>)"
      using b by (simp add: explain_ok_def)
    moreover have "ob_overrun b2 \<Longrightarrow> explain_ok al (c3\<lparr>please_explain := Some (fr\<lparr>payload := Some (ob_rewind b2)\<rparr>)\<rparr>)"
        "\<not> ob_overrun b2 \<Longrightarrow> explain_ok al (c3\<lparr>please_explain := Some (fr\<lparr>payload := Some b2\<rparr>)\<rparr>)"
      using b12(3) by (simp_all add: explain_ok_def)
    ultimately show ?thesis
      using run Some b(1) b12(1,2) k2(2) k3 k4 f(5) assms(5) by auto
  qed
qed

definition explain_state_ok :: "allocator \<Rightarrow> decode_context \<Rightarrow> overlay_state \<Rightarrow> bool" where
  "explain_state_ok al c st \<longleftrightarrow> explain_ok al c \<and> tree_wf (tree st) \<and>
     (\<exists>m. my_subscriber st = Some m \<and> m < length (subscribers (tree st)))"

lemma explain_state_keeps: "explain_state_ok al c st \<Longrightarrow> keeps_ids st st' \<Longrightarrow> explain_ok al c' \<Longrightarrow> explain_state_ok al c' st'"
  using keeps_ids_wf [of st st'] by (auto simp: explain_state_ok_def keeps_ids_def)

lemma explain_calls_safe:
  assumes "\<forall>p \<in> set ps. p < length (subscribers (tree st))" "malloc_ok al" "\<forall>n. al n \<noteq> None" "explain_state_ok al c st"
  shows "\<exists>c' st'. snd (call_until (explain_callback mem gettime al) ps (Some (c, st))) = Some (c', st') \<and>
    keeps_ids st st' \<and> explain_ok al c' \<and> same_link c c'"
  using assms
proof (induction ps arbitrary: c st)
  case (Cons p ps)
  obtain stop c1 st1 where r: "add_explain_response mem gettime al p (c, st) = Some (stop, c1, st1)" "keeps_ids st st1" "explain_ok al c1"
      "same_link c c1"
    using add_explain_response_safe [of st p al c mem gettime] Cons.prems by (auto simp: explain_state_ok_def)
  have ok: "explain_state_ok al c1 st1" "\<forall>p \<in> set ps. p < length (subscribers (tree st1))"
    using explain_state_keeps [OF Cons.prems(4) r(2,3)] Cons.prems(1) r(2) by (auto simp: keeps_ids_def)
  have cb: "explain_callback mem gettime al p (Some (c, st)) = (stop, Some (c1, st1))"
    using r(1) by (simp add: explain_callback_def)
  show ?case
  proof (cases stop)
    case False
    obtain c' st' where "snd (call_until (explain_callback mem gettime al) ps (Some (c1, st1))) = Some (c', st')"
        "keeps_ids st1 st'" "explain_ok al c'" "same_link c1 c'"
      using Cons.IH [OF ok(2) assms(2,3) ok(1)] by blast
    then show ?thesis
      using keeps_ids_trans [OF r(2)] same_link_trans [OF r(4)] cb False by auto
  qed (use r cb in simp)
qed (simp add: keeps_ids_refl explain_state_ok_def)

lemma prefix_matches_explain_safe:
  assumes "length s = len" "len \<le> SID_SIZE" "malloc_ok al" "\<forall>n. al n \<noteq> None" "explain_state_ok al c st"
  shows "\<exists>c' st'. prefix_matches (tree st) s len (explain_callback mem gettime al) (Some (c, st)) = Some (c', st') \<and>
    explain_state_ok al c' st' \<and> enqueued st' = enqueued st \<and> same_link c c'"
proof -
  have wf: "tree_wf (tree st)" using assms(5) by (simp add: explain_state_ok_def)
  let ?ps = "concat (map leaves (root (tree st)))"
  have "set ?ps = {..<length (subscribers (tree st))}"
    using wf set_leaves [of "Slot_tree (root (tree st))"] by (simp add: tree_wf_def)
  then have "\<forall>p \<in> set (filter (\<lambda>p. take len (sid (subscribers (tree st) ! p)) = take len s) ?ps). p < length (subscribers (tree st))"
    by auto
  from explain_calls_safe [OF this assms(3-5)]
  obtain c' st' where *: "snd (call_until (explain_callback mem gettime al)
        (filter (\<lambda>p. take len (sid (subscribers (tree st) ! p)) = take len s) ?ps) (Some (c, st))) = Some (c', st')"
      "keeps_ids st st'" "explain_ok al c'" "same_link c c'"
    by blast
  have "slot_ok (subscribers (tree st)) (path_of s 0) (Slot_tree (root (tree st)))"
    using wf by (simp add: tree_wf_def path_of_def)
  then show ?thesis
    using prefix_loop_calls [of "subscribers (tree st)" s 0 "root (tree st)" len "explain_callback mem gettime al" "Some (c, st)"]
      assms(1,2) *(1,2,4) explain_state_keeps [OF assms(5) *(2,3)]
    by (simp add: prefix_matches_def keeps_ids_def)
qed

lemma find_subscriber_explain_safe:
  assumes "length s = SID_SIZE" "explain_state_ok al c st"
  shows "\<exists>r t. find_subscriber mem s SID_SIZE True (tree st) = Some (r, t) \<and> explain_state_ok al c (st\<lparr>tree := t\<rparr>)"
proof -
  obtain r t where "find_subscriber mem s SID_SIZE True (tree st) = Some (r, t)" "tree_wf t"
      "length (subscribers (tree st)) \<le> length (subscribers t)"
    using find_subscriber_grows [of "tree st" s mem] assms by (auto simp: explain_state_ok_def)
  then show ?thesis using assms(2) by (auto simp: explain_state_ok_def)
qed

lemma ob_get_explain:
  assumes "ob_wf b" "position b < sizeLimit b" "sizeLimit b \<le> ob_bound"
  shows "(\<exists>x :: byte. ob_get b = Some (uint x, b\<lparr>position := position b + 1\<rparr>)) \<or> ob_get b = Some (- 1, b)"
proof (cases "test_offset b 1")
  case True
  then obtain xs where "ob_read b (position b) 1 = Some xs"
    using assms ob_bound_SIZE_MAX(2) [of "sizeLimit b"]
    by (auto simp: test_offset_def size_add_eq ob_read_def mem_simps ob_wf_def ob_content_def split: option.splits)
  then have "ob_get b = Some (uint (hd xs), b\<lparr>position := position b + 1\<rparr>)"
    using True assms(2,3) ob_bound_SIZE_MAX(2) [of "sizeLimit b"] by (simp add: ob_get_def size_add_eq)
  then show ?thesis by blast
qed (simp add: ob_get_def)

lemma ob_get_bytes_ptr_explain:
  assumes "ob_wf b" "position b \<le> sizeLimit b" "sizeLimit b \<le> ob_bound" "0 < n" "n \<le> SID_SIZE"
  shows "ob_get_bytes_ptr b n = (None, b) \<or>
    (\<exists>s b'. b' = b\<lparr>position := position b + n\<rparr> \<and> ob_get_bytes_ptr b n = (Some (position b), b') \<and> position b + n \<le> sizeLimit b \<and>
       ob_read b' (position b) n = Some s \<and> length s = n)"
  using assms ob_bound_SIZE_MAX(2) [of "sizeLimit b"]
  by (cases "test_offset b n")
    (auto simp: ob_get_bytes_ptr_def test_offset_def size_add_eq ob_read_def mem_simps ob_wf_def ob_content_def SID_SIZE_def
      split: option.splits)

lemma process_explain_loop_safe:
  assumes "malloc_ok al" "\<forall>n. al n \<noteq> None" "explain_state_ok al c st"
    and "ob_wf b" "position b \<le> sizeLimit b" "sizeLimit b \<le> ob_bound" "sizeLimit b - position b < fuel"
  shows "\<exists>r c' p st'. process_explain_loop mem gettime al fuel c b st = Some (r, c', b\<lparr>position := p\<rparr>, st') \<and> r \<in> {0, - 1} \<and>
    p \<le> sizeLimit b \<and> explain_state_ok al c' st' \<and> (r = 0 \<longrightarrow> p = sizeLimit b) \<and>
    enqueued st' = enqueued st \<and> same_link c c'"
  using assms(3-)
proof (induction fuel arbitrary: c b st)
  case (Suc fuel)
  have rem: "ob_remaining b = Some (sizeLimit b - position b)"
    using Suc.prems(3,4) by (simp add: ob_remaining_def ob_bound_def SIZE_MAX_def)
  have go: "\<exists>r c'' p st''. process_explain_loop mem gettime al fuel c' (b\<lparr>position := q\<rparr>) st' = Some (r, c'', b\<lparr>position := p\<rparr>, st'') \<and>
      r \<in> {0, - 1} \<and> p \<le> sizeLimit b \<and> explain_state_ok al c'' st'' \<and> (r = 0 \<longrightarrow> p = sizeLimit b) \<and>
      enqueued st'' = enqueued st \<and> same_link c c''"
    if "explain_state_ok al c' st'" "position b < q" "q \<le> sizeLimit b"
      "enqueued st' = enqueued st" "same_link c c'" for c' st' q
    using Suc.IH [OF that(1), of "b\<lparr>position := q\<rparr>"] that(2-) Suc.prems ob_bound_SIZE_MAX(1) [of "sizeLimit b"]
    by (auto simp: ob_wf_def same_link_def)
  show ?case
  proof (cases "position b = sizeLimit b")
    case True
    then show ?thesis using rem Suc.prems(1) by (auto intro: exI [of _ "position b"])
  next
    case False
    then have lt: "position b < sizeLimit b" using Suc.prems(3) by simp
    consider "ob_get b = Some (- 1, b)" | x :: byte where "ob_get b = Some (uint x, b\<lparr>position := position b + 1\<rparr>)"
      using ob_get_explain [OF Suc.prems(2) lt Suc.prems(4)] by blast
    then show ?thesis
    proof cases
      case 1
      then show ?thesis using rem lt Suc.prems(1) by (auto simp: OA_CODE_P2P_YOU_def intro!: exI [of _ "position b"])
    next
      case (2 x)
      let ?b = "b\<lparr>position := position b + 1\<rparr>"
      have wf: "ob_wf ?b" using Suc.prems(2,4) lt ob_bound_SIZE_MAX(1) [of "sizeLimit b"] by (simp add: ob_wf_def)
      consider "x = OA_CODE_P2P_YOU" | "x \<noteq> OA_CODE_P2P_YOU" "uint x \<le> 0 \<or> uint x > int SID_SIZE"
        | "x \<noteq> OA_CODE_P2P_YOU" "0 < uint x" "uint x \<le> int SID_SIZE" by linarith
      then show ?thesis
      proof cases
        case you: 1
        obtain m where m: "my_subscriber st = Some m" "m < length (subscribers (tree st))"
          using Suc.prems(1) by (auto simp: explain_state_ok_def)
        obtain stop c1 st1 where r: "add_explain_response mem gettime al m (c, st) = Some (stop, c1, st1)"
            "keeps_ids st st1" "explain_ok al c1" "same_link c c1"
          using add_explain_response_safe [of st m al c mem gettime] m assms(1,2) Suc.prems(1) by (auto simp: explain_state_ok_def)
        show ?thesis
          using go [OF explain_state_keeps [OF Suc.prems(1) r(2,3)], of "position b + 1"] rem lt 2 you m(1) r(1,2,4) by (simp add: keeps_ids_def)
      next
        case bad: 2
        then show ?thesis
          using rem lt 2 Suc.prems(1) by (auto simp: word_uint_eq_iff intro!: exI [of _ "position b + 1"])
      next
        case good: 3
        define n where "n = nat (uint x)"
        have n: "0 < n" "n \<le> SID_SIZE" "uint x = int n" using good(2,3) unfolding n_def by linarith+
        have x: "int n \<noteq> uint OA_CODE_P2P_YOU" using good(1) n(3) by (simp add: word_uint_eq_iff)
        consider "ob_get_bytes_ptr ?b n = (None, ?b)"
          | s b' where "b' = b\<lparr>position := position b + 1 + n\<rparr>" "ob_get_bytes_ptr ?b n = (Some (position b + 1), b')"
              "position b + 1 + n \<le> sizeLimit b" "ob_read b' (position b + 1) n = Some s" "length s = n"
          using ob_get_bytes_ptr_explain [OF wf, of n] lt Suc.prems(4) n(1,2) by auto
        then show ?thesis
        proof cases
          case none: 1
          then show ?thesis
            using rem lt 2 n x Suc.prems(1) by (auto intro!: exI [of _ "position b + 1"])
        next
          case rd: (2 s b')
          show ?thesis
          proof (cases "n = SID_SIZE")
            case True
            obtain r t where t: "find_subscriber mem s SID_SIZE True (tree st) = Some (r, t)" "explain_state_ok al c (st\<lparr>tree := t\<rparr>)"
              using find_subscriber_explain_safe [OF _ Suc.prems(1), of s mem] rd(5) True by blast
            show ?thesis
              using go [OF t(2), of "position b + 1 + n"] rem lt 2 n x rd t(1) True by (simp add: SID_SIZE_def)
          next
            case False
            obtain c1 st1 where t: "prefix_matches (tree st) s n (explain_callback mem gettime al) (Some (c, st)) = Some (c1, st1)"
                "explain_state_ok al c1 st1" "enqueued st1 = enqueued st" "same_link c c1"
              using prefix_matches_explain_safe [OF rd(5) n(2) assms(1,2) Suc.prems(1), of mem gettime] by blast
            show ?thesis
              using go [OF t(2), of "position b + 1 + n"] rem lt 2 n x rd t(1,3,4) False by simp
          qed
        qed
      qed
    qed
  qed
qed simp

text \<open>What \<open>send_please_explain\<close> hands to the queue; nothing is sent only if the queue refuses it.\<close>

definition explain_sent :: "decode_context \<Rightarrow> nat option \<Rightarrow> nat option \<Rightarrow> overlay_state \<Rightarrow> overlay_frame \<Rightarrow> bool" where
  "explain_sent c src dst st f \<longleftrightarrow> frame_type f = OF_TYPE_PLEASEEXPLAIN \<and> queue f = OQ_MESH_MANAGEMENT \<and>
     frame_source f = (if src \<noteq> None then src else my_subscriber st) \<and> frame_destination f = dst \<and>
     payload f = (case please_explain c of None \<Rightarrow> None | Some g \<Rightarrow> payload g)"

lemma send_please_explain_safe:
  assumes "explain_ok al c" "please_explain c \<noteq> None" "dst \<noteq> None \<or> interface c \<noteq> None"
  shows "\<exists>f. explain_sent c src dst st f \<and>
    send_please_explain congested c src dst st =
      Some (if congested then (- 1, st) else (0, st\<lparr>enqueued := enqueued st @ [f]\<rparr>))"
proof -
  obtain g b where g: "please_explain c = Some g" "payload g = Some b" "explain_buffer_ok al b"
    using assms(1,2) by (auto simp: explain_ok_def)
  have b: "\<not> ob_overrun b" "ob_position b < MDP_MTU"
    using g(3) by (auto simp: explain_buffer_ok_def ob_position_def MDP_MTU_def ob_overrun_iff)
  have add: "payload (frame_add_destination f d s) = payload f" "frame_type (frame_add_destination f d s) = frame_type f"
      "frame_source (frame_add_destination f d s) = frame_source f" "frame_destination (frame_add_destination f d s) = frame_destination f" for f d s
    by (simp_all add: frame_add_destination_def)
  define f1 where "f1 = g\<lparr>frame_type := OF_TYPE_PLEASEEXPLAIN, frame_source := (if src \<noteq> None then src else my_subscriber st)\<rparr>"
  define f2 where "f2 = (if sender c = None then f1\<lparr>source_full := True\<rparr> else f1)\<lparr>frame_destination := dst\<rparr>"
  have f2: "payload f2 = Some b" "frame_type f2 = OF_TYPE_PLEASEEXPLAIN" "frame_destination f2 = dst"
      "frame_source f2 = (if src \<noteq> None then src else my_subscriber st)"
    using g(2) by (simp_all add: f2_def f1_def)
  define prepared where "prepared =
    (if dst \<noteq> None then Some (f2\<lparr>ttl := PAYLOAD_TTL_DEFAULT, source_full := True\<rparr>)
     else interface c \<bind> (\<lambda>i. let frame = frame_add_destination (f2\<lparr>ttl := 1\<rparr>) Interface_destination (destination_send i)
       in Some (case unicast_send i of None \<Rightarrow> frame | Some send \<Rightarrow> frame_add_destination frame Unicast_destination send)))"
  obtain f where f: "prepared = Some f" "payload f = Some b" "frame_type f = OF_TYPE_PLEASEEXPLAIN" "frame_destination f = dst"
      "frame_source f = (if src \<noteq> None then src else my_subscriber st)"
    using assms(3) f2 by (cases dst; cases "interface c") (auto simp: prepared_def add Let_def split: option.splits)
  have "send_please_explain congested c src dst st = do {
      (r, st) \<leftarrow> overlay_payload_enqueue congested (f\<lparr>queue := OQ_MESH_MANAGEMENT\<rparr>) st;
      Some (if r \<noteq> - 1 then 0 else - 1, st)
    }"
    using f(1) g(2) unfolding send_please_explain_def g(1) option.case Let_def f1_def [symmetric] f2_def [symmetric] prepared_def
    by simp
  moreover have "overlay_payload_enqueue congested (f\<lparr>queue := OQ_MESH_MANAGEMENT\<rparr>) st =
      Some (if congested then (- 1, st) else (0, st\<lparr>enqueued := enqueued st @ [f\<lparr>queue := OQ_MESH_MANAGEMENT\<rparr>]\<rparr>))"
    using b f(2) by (simp add: overlay_payload_enqueue_def OQ_MESH_MANAGEMENT_def OQ_MAX_def)
  ultimately show ?thesis
    using f g(1,2) by (intro exI [of _ "f\<lparr>queue := OQ_MESH_MANAGEMENT\<rparr>"]) (simp add: explain_sent_def)
qed

text \<open>
  (C3) Whatever bytes a \<open>please explain\<close> packet holds, \<open>process_explain\<close> returns, provided that this node has an
  identity, that the packet has a source or an interface to answer on, and that the payload of the
  response can be allocated; the tree's and the frame's allocations may fail. The loop over the requests ends within
  one round per byte, no assertion fails, neither in \<open>send_please_explain\<close> nor when the response is
  enqueued, and no byte outside the packet or the response is touched. The subscriber tree stays well
  formed. The result is -1 and nothing is sent, or 0 with the whole packet consumed and at most one
  response sent to the source of the packet, of at most 1024 bytes.
\<close>

theorem process_explain_safe:
  assumes "malloc_ok al" "\<forall>n. al n \<noteq> None" "tree_wf (tree st)" "my_subscriber st = Some m" "m < length (subscribers (tree st))"
    and "payload frame = Some b" "ob_wf b" "position b \<le> sizeLimit b" "sizeLimit b \<le> ob_bound"
    and "frame_source frame \<noteq> None \<or> frame_interface frame \<noteq> None"
  shows "\<exists>r p st'. process_explain mem gettime al congested frame st = Some (r, b\<lparr>position := p\<rparr>, st') \<and> tree_wf (tree st') \<and>
    (r = - 1 \<and> p \<le> sizeLimit b \<and> enqueued st' = enqueued st \<or>
     r = 0 \<and> p = sizeLimit b \<and>
       (enqueued st' = enqueued st \<or>
        (\<exists>f pl. enqueued st' = enqueued st @ [f] \<and> frame_type f = OF_TYPE_PLEASEEXPLAIN \<and> queue f = OQ_MESH_MANAGEMENT \<and>
           frame_destination f = frame_source frame \<and> frame_source f \<noteq> None \<and>
           payload f = Some pl \<and> ob_wf pl \<and> \<not> ob_overrun pl \<and> position pl \<le> 1024)))"
proof -
  let ?c = "\<lparr>interface = frame_interface frame, flags = 0, please_explain = None, sender = frame_source frame, previous = None,
    point_to_point_device = None\<rparr>"
  have "explain_state_ok al ?c st" using assms(3-5) by (auto simp: explain_state_ok_def explain_ok_def)
  from process_explain_loop_safe [OF assms(1,2) this assms(7-9), of "sizeLimit b - position b + 1" mem gettime]
  obtain r c p st' where r: "process_explain_loop mem gettime al (sizeLimit b - position b + 1) ?c b st = Some (r, c, b\<lparr>position := p\<rparr>, st')"
      "r \<in> {0, - 1}" "p \<le> sizeLimit b" "explain_state_ok al c st'" "r = 0 \<longrightarrow> p = sizeLimit b" "enqueued st' = enqueued st" "same_link ?c c"
    by auto
  have rem: "ob_remaining b = Some (sizeLimit b - position b)"
    using assms(8,9) by (simp add: ob_remaining_def ob_bound_def SIZE_MAX_def)
  have run: "process_explain mem gettime al congested frame st =
      (if r = 0 \<and> please_explain c \<noteq> None
       then send_please_explain congested c (frame_destination frame) (frame_source frame) st' \<bind> (\<lambda>(_, st). Some (0, b\<lparr>position := p\<rparr>, st))
       else Some (r, b\<lparr>position := p\<rparr>, st'))"
    by (simp only: process_explain_def assms(6) rem bind.bind_lunit r(1) prod.case)
  show ?thesis
  proof (cases "r = 0 \<and> please_explain c \<noteq> None")
    case True
    have ok: "explain_ok al c" "frame_source frame \<noteq> None \<or> interface c \<noteq> None" "my_subscriber st' \<noteq> None" "tree_wf (tree st')"
      using r(4,7) assms(10) by (auto simp: explain_state_ok_def same_link_def)
    obtain f where f: "explain_sent c (frame_destination frame) (frame_source frame) st' f"
        "send_please_explain congested c (frame_destination frame) (frame_source frame) st' =
          Some (if congested then (- 1, st') else (0, st'\<lparr>enqueued := enqueued st' @ [f]\<rparr>))"
      using send_please_explain_safe [OF ok(1) _ ok(2)] True by blast
    obtain pl where pl: "payload f = Some pl" "explain_buffer_ok al pl"
      using f(1) ok(1) True by (auto simp: explain_sent_def explain_ok_def)
    then have "ob_wf pl \<and> \<not> ob_overrun pl \<and> position pl \<le> 1024" by (auto simp: explain_buffer_ok_def ob_overrun_iff)
    moreover have "frame_source f \<noteq> None" "frame_destination f = frame_source frame" "frame_type f = OF_TYPE_PLEASEEXPLAIN"
        "queue f = OQ_MESH_MANAGEMENT"
      using f(1) ok(3) by (auto simp: explain_sent_def)
    ultimately show ?thesis
      using run True f(2) pl(1) ok(4) r(5,6) by (cases congested) auto
  next
    case False
    then have "process_explain mem gettime al congested frame st = Some (r, b\<lparr>position := p\<rparr>, st')" unfolding run by (simp only: if_False)
    then show ?thesis using r(2-6) by (auto simp: explain_state_ok_def)
  qed
qed

text \<open>A request for this node and one for the ids that begin with the byte 1, from the other known subscriber.\<close>

definition example_request :: overlay_buffer where
  "example_request = ob_zero\<lparr>bytes := Some [OA_CODE_P2P_YOU, 1, 1], allocSize := 3, sizeLimit := 3\<rparr>"

definition example_frame :: overlay_frame where
  "example_frame = frame_zero\<lparr>frame_source := Some 1, payload := Some example_request\<rparr>"

theorem process_explain_safe_witness:
  "\<exists>r p st'. process_explain (\<lambda>_. True) int zero_alloc False example_frame example_state = Some (r, example_request\<lparr>position := p\<rparr>, st') \<and>
    tree_wf (tree st')"
proof -
  have "length (subscribers two_subscribers) = 2" by (simp add: two_subscribers_def Let_def)
  then show ?thesis
    using process_explain_safe [of zero_alloc example_state 0 example_frame example_request "\<lambda>_. True" int False]
    by (fastforce simp: example_state_def example_frame_def example_request_def two_subscribers_wf zero_alloc_ok ob_wf_def ob_content_def
        ob_zero_def SIZE_MAX_def ob_bound_def)
qed

end
