(* ===== verification/Mdp_Filter.thy ===== *)
theory Mdp_Filter
  imports Subscriber_Tree Str_Numbers
begin

text \<open>
  The packet filter of MDP (mdp_filter.c): rules that allow or drop packets by subscriber and port,
  the parser of the rules file, which reads through a small buffer with pinned positions, and the
  reloading of the file.

  A \<open>struct subscriber\<close> pointer is an index into the table of the subscriber tree, which the parser
  extends with the ids it meets; the linked list of rules is a list. The file is the text that is left to
  read and the end-of-file flag that \<open>fread\<close> sets when it finds less than it asks for; read errors
  are not modelled. The cursor's buffer is the text from its start to \<open>end\<close>; positions in it are
  offsets. \<open>None\<close> is a failed assertion, which aborts the daemon.
\<close>

section \<open>Rules\<close>

type_synonym mdp_port_t = uint32

record mdp_portrange =
  port_first :: mdp_port_t
  port_last :: mdp_port_t

record packet_rule =
  local_subscriber :: "nat option"
  remote_subscriber :: "nat option"
  local_ports :: mdp_portrange
  remote_ports :: mdp_portrange
  rule_flags :: byte

definition RULE_DROP :: byte where "RULE_DROP = 1"
definition RULE_INBOUND :: byte where "RULE_INBOUND = 2"
definition RULE_OUTBOUND :: byte where "RULE_OUTBOUND = 4"
definition RULE_LOCAL_PORT :: byte where "RULE_LOCAL_PORT = 8"
definition RULE_REMOTE_PORT :: byte where "RULE_REMOTE_PORT = 16"

lemmas rule_flag_defs = RULE_DROP_def RULE_INBOUND_def RULE_OUTBOUND_def RULE_LOCAL_PORT_def RULE_REMOTE_PORT_def

text \<open>A rule as \<open>emalloc_zero\<close> returns it.\<close>

definition rule_zero :: packet_rule where
  "rule_zero = \<lparr>local_subscriber = None, remote_subscriber = None, local_ports = \<lparr>port_first = 0, port_last = 0\<rparr>,
     remote_ports = \<lparr>port_first = 0, port_last = 0\<rparr>, rule_flags = 0\<rparr>"

text \<open>
  The conversion \<open>%#010x\<close> (\<open>PRImdp_port_t\<close>): 0x and eight digits, but for 0 the alternative form adds no
  prefix and the field is filled with zeros.
\<close>

definition fmt_mdp_port :: "mdp_port_t \<Rightarrow> string" where
  "fmt_mdp_port v =
     (if v = 0 then replicate 10 CHR ''0''
      else ''0x'' @ map (\<lambda>i. hexdigit_lower ! unat (drop_bit (4 * i) v AND 0xf)) [7, 6, 5, 4, 3, 2, 1, 0])"

definition strbuf_append_mdp_portrange :: "strbuf \<Rightarrow> mdp_portrange \<Rightarrow> strbuf option" where
  "strbuf_append_mdp_portrange sb r = do {
     sb \<leftarrow> strbuf_sprintf sb ('':'' @ fmt_mdp_port (port_first r));
     if port_last r \<noteq> port_first r then strbuf_sprintf sb (''-'' @ fmt_mdp_port (port_last r)) else Some sb
   }"

definition strbuf_append_packet_rule :: "subscriber list \<Rightarrow> strbuf \<Rightarrow> packet_rule \<Rightarrow> strbuf option" where
  "strbuf_append_packet_rule subs sb rule = do {
     sb \<leftarrow> strbuf_puts sb (if rule_flags rule AND RULE_DROP \<noteq> 0 then ''drop '' else ''allow '');
     if rule_flags rule AND (RULE_INBOUND OR RULE_OUTBOUND) \<noteq> 0
     then do {
       sb \<leftarrow> (case local_subscriber rule of
                Some p \<Rightarrow> tohex SID_STRLEN (sid (subs ! p)) \<bind> strbuf_puts sb
              | None \<Rightarrow> strbuf_putc sb CHR ''*'');
       sb \<leftarrow> (if rule_flags rule AND RULE_LOCAL_PORT \<noteq> 0 then strbuf_append_mdp_portrange sb (local_ports rule) else Some sb);
       sb \<leftarrow> strbuf_putc sb CHR '' '';
       sb \<leftarrow> (if rule_flags rule AND RULE_INBOUND \<noteq> 0 then strbuf_putc sb CHR ''<'' else Some sb);
       sb \<leftarrow> (if rule_flags rule AND RULE_OUTBOUND \<noteq> 0 then strbuf_putc sb CHR ''>'' else Some sb);
       sb \<leftarrow> (case remote_subscriber rule of
                Some p \<Rightarrow> tohex SID_STRLEN (sid (subs ! p)) \<bind> strbuf_puts sb
              | None \<Rightarrow> strbuf_putc sb CHR ''*'');
       if rule_flags rule AND RULE_REMOTE_PORT \<noteq> 0 then strbuf_append_mdp_portrange sb (remote_ports rule) else Some sb
     }
     else strbuf_puts sb ''all''
   }"

section \<open>Filtering\<close>

record internal_mdp_header =
  source :: "nat option"
  source_port :: mdp_port_t
  destination :: "nat option"
  destination_port :: mdp_port_t

fun allow_inbound_packet :: "packet_rule list \<Rightarrow> internal_mdp_header \<Rightarrow> bool" where
  "allow_inbound_packet [] header = True"
| "allow_inbound_packet (rule # rules) header =
     (if rule_flags rule AND RULE_INBOUND \<noteq> 0
         \<and> (remote_subscriber rule = None \<or> source header = remote_subscriber rule)
         \<and> (rule_flags rule AND RULE_REMOTE_PORT = 0 \<or>
            source_port header \<ge> port_first (remote_ports rule) \<and> source_port header \<le> port_last (remote_ports rule))
         \<and> (local_subscriber rule = None \<or> destination header = local_subscriber rule)
         \<and> (rule_flags rule AND RULE_LOCAL_PORT = 0 \<or>
            destination_port header \<ge> port_first (local_ports rule) \<and> destination_port header \<le> port_last (local_ports rule))
        \<or> rule_flags rule AND (RULE_INBOUND OR RULE_OUTBOUND) = 0
      then rule_flags rule AND RULE_DROP = 0
      else allow_inbound_packet rules header)"

fun allow_outbound_packet :: "packet_rule list \<Rightarrow> internal_mdp_header \<Rightarrow> bool" where
  "allow_outbound_packet [] header = True"
| "allow_outbound_packet (rule # rules) header =
     (if rule_flags rule AND RULE_OUTBOUND \<noteq> 0
         \<and> (remote_subscriber rule = None \<or> destination header = remote_subscriber rule)
         \<and> (rule_flags rule AND RULE_REMOTE_PORT = 0 \<or>
            destination_port header \<ge> port_first (remote_ports rule) \<and> destination_port header \<le> port_last (remote_ports rule))
         \<and> (local_subscriber rule = None \<or> source header = local_subscriber rule)
         \<and> (rule_flags rule AND RULE_LOCAL_PORT = 0 \<or>
            source_port header \<ge> port_first (local_ports rule) \<and> source_port header \<le> port_last (local_ports rule))
        \<or> rule_flags rule AND (RULE_INBOUND OR RULE_OUTBOUND) = 0
      then rule_flags rule AND RULE_DROP = 0
      else allow_outbound_packet rules header)"

section \<open>The cursor\<close>

definition CURSOR_SIZE :: nat where
  "CURSOR_SIZE = 1024"

record cursor =
  stream :: string
  stream_eof :: bool
  buffer :: string
  current :: nat
  pin :: "nat option"
  pins :: nat

definition init_cursor :: "string \<Rightarrow> cursor" where
  "init_cursor s = \<lparr>stream = s, stream_eof = False, buffer = [], current = 0, pin = None, pins = 0\<rparr>"

definition available :: "cursor \<Rightarrow> nat option" where
  "available c = do {
     assert (current c \<le> length (buffer c));
     Some (length (buffer c) - current c)
   }"

text \<open>\<open>fread\<close> of \<open>n\<close> bytes to the end of the buffer.\<close>

definition cursor_fread :: "nat \<Rightarrow> cursor \<Rightarrow> cursor" where
  "cursor_fread n c = c\<lparr>buffer := buffer c @ take n (stream c), stream := drop n (stream c),
     stream_eof := (stream_eof c \<or> length (stream c) < n)\<rparr>"

definition stale :: "cursor \<Rightarrow> nat" where
  "stale c = (case pin c of None \<Rightarrow> current c | Some p \<Rightarrow> p)"

text \<open>The \<open>memmove\<close> that drops the text before the pin, or before the current position.\<close>

definition cursor_shift :: "cursor \<Rightarrow> cursor" where
  "cursor_shift c = c\<lparr>buffer := drop (stale c) (buffer c), pin := map_option (\<lambda>_. 0) (pin c), current := current c - stale c\<rparr>"

lemma cursor_fread_less:
  "\<not> stream_eof c \<Longrightarrow> n \<noteq> 0 \<Longrightarrow>
   length (stream (cursor_fread n c)) + (if stream_eof (cursor_fread n c) then 0 else 1) < length (stream c) + 1"
  by (auto simp: cursor_fread_def)

function preload_loop :: "nat \<Rightarrow> cursor \<Rightarrow> (nat \<times> cursor) option" where
  "preload_loop n c =
     (let avail = length (buffer c) - current c;
          space = CURSOR_SIZE - length (buffer c);
          ahead = (if avail + space \<ge> n then n - avail else if stale c = 0 then space else 0)
      in if \<not> (avail < n \<and> \<not> stream_eof c) then Some (avail, c)
         else if \<not> (case pin c of None \<Rightarrow> True | Some p \<Rightarrow> p \<le> current c) then None
         else if ahead \<noteq> 0 then preload_loop n (cursor_fread ahead c)
         else if stale c \<noteq> 0
         then if stale c \<le> length (buffer c) then preload_loop n (cursor_shift c) else None
         else Some (avail, c))"
  by pat_completeness auto
termination
proof (relation "measures [\<lambda>(n, c). length (stream c) + (if stream_eof c then 0 else 1), \<lambda>(n, c). stale c]", goal_cases)
  case (2 n c avail space ahead)
  then have "\<not> stream_eof c" "ahead \<noteq> 0" by auto
  then show ?case using cursor_fread_less [of c ahead] by simp
next
  case (3 n c avail space ahead)
  then show ?case by (auto simp: cursor_shift_def stale_def split: option.splits)
qed simp

declare preload_loop.simps [simp del]

definition preload :: "cursor \<Rightarrow> nat \<Rightarrow> (nat \<times> cursor) option" where
  "preload c n = do {
     assert (current c \<le> length (buffer c));
     preload_loop n c
   }"

definition eof :: "cursor \<Rightarrow> (bool \<times> cursor) option" where
  "eof c = do {
     (_, c) \<leftarrow> preload c 1;
     assert (current c \<le> length (buffer c));
     Some (current c = length (buffer c) \<and> stream_eof c, c)
   }"

text \<open>\<open>EOF\<close>, which is -1, as a \<open>char\<close>.\<close>

abbreviation EOF :: char where
  "EOF \<equiv> CHR 0xFF"

definition peek :: "cursor \<Rightarrow> (char \<times> cursor) option" where
  "peek c = do {
     (e, c) \<leftarrow> eof c;
     if e then Some (EOF, c)
     else do {
       assert (current c < length (buffer c));
       Some (buffer c ! current c, c)
     }
   }"

definition preloaded :: "cursor \<Rightarrow> string option" where
  "preloaded c = do {
     assert (current c < length (buffer c));
     Some (drop (current c) (buffer c))
   }"

text \<open>A position in the buffer is given as the text that follows it.\<close>

definition cursor_offset :: "cursor \<Rightarrow> string \<Rightarrow> nat" where
  "cursor_offset c after = length (buffer c) - length after"

definition skip :: "cursor \<Rightarrow> string \<Rightarrow> (bool \<times> cursor) option" where
  "skip c txt = do {
     (_, c) \<leftarrow> preload c (length txt);
     n \<leftarrow> available c;
     Some (if length txt \<le> n
           then case str_startswith (drop (current c) (buffer c)) txt of
                  Some after \<Rightarrow> (True, c\<lparr>current := cursor_offset c after\<rparr>)
                | None \<Rightarrow> (False, c)
           else (False, c))
   }"

definition cursor_next :: "cursor \<Rightarrow> cursor option" where
  "cursor_next c = do {
     assert (current c < length (buffer c));
     Some (c\<lparr>current := current c + 1\<rparr>)
   }"

definition advance_to :: "cursor \<Rightarrow> string \<Rightarrow> cursor option" where
  "advance_to c after =
     (let pos = cursor_offset c after
      in do {
        assert (pos \<ge> current c);
        assert (pos \<le> length (buffer c));
        Some (c\<lparr>current := pos\<rparr>)
      })"

definition cursor_pin :: "cursor \<Rightarrow> (nat \<times> cursor) option" where
  "cursor_pin c = do {
     assert (current c < length (buffer c));
     p \<leftarrow> (case pin c of
             Some p \<Rightarrow> do {
               assert (p \<le> current c);
               Some p
             }
           | None \<Rightarrow> Some (current c));
     Some (current c - p, c\<lparr>pin := Some p, pins := pins c + 1\<rparr>)
   }"

definition cursor_unpin :: "cursor \<Rightarrow> nat \<Rightarrow> cursor option" where
  "cursor_unpin c p = do {
     assert (current c \<le> length (buffer c));
     assert (pins c > 0);
     q \<leftarrow> pin c;
     assert (q \<le> current c);
     assert (q + p \<le> current c);
     Some (c\<lparr>pins := pins c - 1, pin := (if pins c - 1 = 0 then None else pin c)\<rparr>)
   }"

definition retreat :: "cursor \<Rightarrow> nat \<Rightarrow> cursor option" where
  "retreat c p = do {
     assert (current c \<le> length (buffer c));
     assert (pins c > 0);
     q \<leftarrow> pin c;
     assert (q \<le> current c);
     assert (q + p \<le> current c);
     Some (c\<lparr>current := q + p, pins := pins c - 1, pin := (if pins c - 1 = 0 then None else pin c)\<rparr>)
   }"

section \<open>What the cursor stands for\<close>

text \<open>
  The text that is left to parse, and the text from the pinned position on. No operation but
  \<open>retreat\<close> moves backwards, and none changes the text from the pin on; this is what makes the loops
  of the parser terminate.
\<close>

definition cursor_rest :: "cursor \<Rightarrow> string" where
  "cursor_rest c = drop (current c) (buffer c) @ stream c"

definition pin_text :: "cursor \<Rightarrow> string option" where
  "pin_text c = map_option (\<lambda>p. drop p (buffer c) @ stream c) (pin c)"

definition cursor_le :: "cursor \<Rightarrow> cursor \<Rightarrow> bool" where
  "cursor_le c c' \<longleftrightarrow> pin_text c' = pin_text c \<and> pins c' = pins c \<and> length (cursor_rest c') \<le> length (cursor_rest c)"

lemma cursor_le_refl [simp]: "cursor_le c c"
  by (simp add: cursor_le_def)

lemma cursor_le_trans: "cursor_le a b \<Longrightarrow> cursor_le b c \<Longrightarrow> cursor_le a c"
  by (auto simp: cursor_le_def)

lemma preload_loop_frame:
  "preload_loop n c = Some (a, c') \<Longrightarrow> current c \<le> length (buffer c) \<Longrightarrow>
   cursor_rest c' = cursor_rest c \<and> pin_text c' = pin_text c \<and> pins c' = pins c \<and>
   current c' \<le> length (buffer c') \<and> a = length (buffer c') - current c'"
proof (induction n c rule: preload_loop.induct)
  case (1 n c)
  let ?avail = "length (buffer c) - current c"
  let ?space = "CURSOR_SIZE - length (buffer c)"
  let ?ahead = "if ?avail + ?space \<ge> n then n - ?avail else if stale c = 0 then ?space else 0"
  consider "\<not> (?avail < n \<and> \<not> stream_eof c)"
    | "?avail < n" "\<not> stream_eof c" "case pin c of None \<Rightarrow> True | Some p \<Rightarrow> p \<le> current c" "?ahead \<noteq> 0"
    | "?avail < n" "\<not> stream_eof c" "case pin c of None \<Rightarrow> True | Some p \<Rightarrow> p \<le> current c" "?ahead = 0" "stale c \<noteq> 0"
    | "?avail < n" "\<not> stream_eof c" "case pin c of None \<Rightarrow> True | Some p \<Rightarrow> p \<le> current c" "?ahead = 0" "stale c = 0"
    | "?avail < n" "\<not> stream_eof c" "\<not> (case pin c of None \<Rightarrow> True | Some p \<Rightarrow> p \<le> current c)"
    by blast
  then show ?case
  proof cases
    case 2
    have "preload_loop n (cursor_fread ?ahead c) = Some (a, c')"
      using 1(3) 2 by (subst (asm) preload_loop.simps) (simp add: Let_def split del: if_split)
    then have "cursor_rest c' = cursor_rest (cursor_fread ?ahead c) \<and> pin_text c' = pin_text (cursor_fread ?ahead c) \<and>
        pins c' = pins (cursor_fread ?ahead c) \<and> current c' \<le> length (buffer c') \<and> a = length (buffer c') - current c'"
      using 1(1) [OF refl refl refl _ _ 2(4)] 1(4) 2(1-3) by (simp add: cursor_fread_def split del: if_split)
    then show ?thesis
      using 2(3) 1(4) by (auto simp: cursor_rest_def pin_text_def cursor_fread_def split: option.splits)
  next
    case 3
    have st: "stale c \<le> current c" using 3(3) by (simp add: stale_def split: option.splits)
    have "preload_loop n (cursor_shift c) = Some (a, c')"
      using 1(3,4) 3 st by (subst (asm) preload_loop.simps) (simp add: Let_def split del: if_split)
    then have "cursor_rest c' = cursor_rest (cursor_shift c) \<and> pin_text c' = pin_text (cursor_shift c) \<and>
        pins c' = pins (cursor_shift c) \<and> current c' \<le> length (buffer c') \<and> a = length (buffer c') - current c'"
      using 1(2) [OF refl refl refl _ _ _ 3(5)] 1(4) 3(1-4) st by (simp add: cursor_shift_def)
    then show ?thesis
      using 3(3) st by (auto simp: cursor_rest_def pin_text_def cursor_shift_def stale_def split: option.splits)
  qed (use 1(3,4) in \<open>subst (asm) preload_loop.simps, simp add: Let_def split: if_splits\<close>)+
qed

lemma preload_frame:
  assumes "preload c n = Some (a, c')"
  shows "cursor_rest c' = cursor_rest c" "cursor_le c c'" "current c' \<le> length (buffer c')" "a = length (buffer c') - current c'"
  using assms preload_loop_frame [of n c a c'] by (auto simp: preload_def cursor_le_def split: bind_splits if_splits)

lemma eof_frame: "eof c = Some (e, c') \<Longrightarrow> cursor_rest c' = cursor_rest c \<and> cursor_le c c' \<and> current c' \<le> length (buffer c')"
  using preload_frame [of c 1] by (auto simp: eof_def split: bind_splits if_splits)

lemma peek_frame: "peek c = Some (ch, c') \<Longrightarrow> cursor_rest c' = cursor_rest c \<and> cursor_le c c' \<and> current c' \<le> length (buffer c')"
  using eof_frame [of c] by (auto simp: peek_def split: bind_splits if_splits)

lemma cursor_next_frame: "cursor_next c = Some c' \<Longrightarrow> cursor_le c c' \<and> length (cursor_rest c') < length (cursor_rest c)"
  by (auto simp: cursor_next_def cursor_le_def cursor_rest_def pin_text_def split: bind_splits if_splits)

lemma advance_to_frame: "advance_to c after = Some c' \<Longrightarrow> cursor_le c c'"
  by (auto simp: advance_to_def cursor_le_def cursor_rest_def pin_text_def Let_def split: bind_splits if_splits)

lemma str_startswith_length: "str_startswith s t = Some after \<Longrightarrow> length after \<le> length s"
proof (induction s t rule: str_startswith.induct)
  case (2 s c sub)
  then show ?case by (fastforce split: if_splits)
qed simp

lemma skip_frame: "skip c t = Some (b, c') \<Longrightarrow> cursor_le c c'"
proof -
  assume "skip c t = Some (b, c')"
  then obtain a c1 where p: "preload c (length t) = Some (a, c1)" and
    c': "c' = c1 \<or> (\<exists>after. str_startswith (drop (current c1) (buffer c1)) t = Some after \<and> c' = c1\<lparr>current := cursor_offset c1 after\<rparr>)"
    by (auto simp: skip_def split: bind_splits if_splits option.splits)
  from c' have "cursor_le c1 c'"
  proof
    assume "\<exists>after. str_startswith (drop (current c1) (buffer c1)) t = Some after \<and> c' = c1\<lparr>current := cursor_offset c1 after\<rparr>"
    then obtain after where *: "str_startswith (drop (current c1) (buffer c1)) t = Some after" "c' = c1\<lparr>current := cursor_offset c1 after\<rparr>"
      by blast
    have "length after \<le> length (buffer c1) - current c1" using str_startswith_length [OF *(1)] by simp
    then show ?thesis using preload_frame(3) [OF p] unfolding *(2)
      by (simp add: cursor_le_def cursor_rest_def pin_text_def cursor_offset_def)
  qed simp
  then show ?thesis using preload_frame(2) [OF p] cursor_le_trans by blast
qed

section \<open>The parser\<close>

function space_loop :: "bool \<Rightarrow> cursor \<Rightarrow> (bool \<times> cursor) option" where
  "space_loop ret c =
     (case peek c of
        None \<Rightarrow> None
      | Some (ch, c) \<Rightarrow>
          if ch = CHR '' ''
          then (case cursor_next c of None \<Rightarrow> None | Some c \<Rightarrow> space_loop True c)
          else Some (ret, c))"
  by pat_completeness auto
termination
proof (relation "measure (\<lambda>(ret, c). length (cursor_rest c))", goal_cases)
  case (2 ret c x ch c1 c2)
  then show ?case using peek_frame [of c ch c1] cursor_next_frame [of c1 c2] by simp
qed simp

declare space_loop.simps [simp del]

definition parse_space :: "cursor \<Rightarrow> (bool \<times> cursor) option" where
  "parse_space c = space_loop False c"

definition parse_optspace :: "cursor \<Rightarrow> cursor option" where
  "parse_optspace c = map_option snd (parse_space c)"

definition parse_sep :: "cursor \<Rightarrow> (bool \<times> cursor) option" where
  "parse_sep c = do {
     (ch, c) \<leftarrow> peek c;
     (is_sep, c) \<leftarrow> (if ch = CHR 0x0A then Some (True, c)
                     else do {
                       (ch, c) \<leftarrow> peek c;
                       Some (ch = CHR '';'', c)
                     });
     if is_sep
     then do {
       c \<leftarrow> cursor_next c;
       Some (True, c)
     }
     else Some (False, c)
   }"

text \<open>The port, or \<open>None\<close> where \<open>*portp\<close> is not assigned and the result is 0.\<close>

definition parse_port :: "cursor \<Rightarrow> (mdp_port_t option \<times> cursor) option" where
  "parse_port c = do {
     (hex, c) \<leftarrow> skip c ''0x'';
     (_, c) \<leftarrow> preload c (if hex then 8 else 10);
     s \<leftarrow> preloaded c;
     n \<leftarrow> available c;
     (r, after) \<leftarrow> strn_to_uint32 s n (if hex then 16 else 10) True;
     case r of
       Some port \<Rightarrow> do {
         c \<leftarrow> advance_to c after;
         Some (Some port, c)
       }
     | None \<Rightarrow> Some (None, c)
   }"

definition parse_portrange :: "cursor \<Rightarrow> mdp_portrange \<Rightarrow> (bool \<times> mdp_portrange \<times> cursor) option" where
  "parse_portrange c r = do {
     (port, c) \<leftarrow> parse_port c;
     case port of
       None \<Rightarrow> Some (False, r, c)
     | Some first \<Rightarrow>
         let r = r\<lparr>port_first := first\<rparr>
         in do {
           c \<leftarrow> parse_optspace c;
           (ch, c) \<leftarrow> peek c;
           if ch = CHR ''-''
           then do {
             c \<leftarrow> cursor_next c;
             c \<leftarrow> parse_optspace c;
             (port, c) \<leftarrow> parse_port c;
             case port of
               None \<Rightarrow> Some (False, r, c)
             | Some to \<Rightarrow> Some (True, r\<lparr>port_last := to\<rparr>, c)
           }
           else Some (True, r\<lparr>port_last := port_first r\<rparr>, c)
         }
   }"

text \<open>
  An endpoint of a rule: the result, the flags, the subscriber, the ports, the cursor and the
  subscriber tree.
\<close>

definition parse_sidany :: "(nat \<Rightarrow> bool) \<Rightarrow> nat option \<Rightarrow> cursor \<Rightarrow> subscriber_state \<Rightarrow>
    (bool \<times> nat option \<times> cursor \<times> subscriber_state) option" where
  "parse_sidany mem subscr c st = do {
     (_, c) \<leftarrow> preload c SID_STRLEN;
     (any, c) \<leftarrow> skip c ''*'';
     if any then Some (True, None, c, st)
     else do {
       s \<leftarrow> preloaded c;
       n \<leftarrow> available c;
       case parse_sid_t s (int n) True of
         None \<Rightarrow> Some (False, subscr, c, st)
       | Some (id_bytes, after) \<Rightarrow> do {
           (subscr, st) \<leftarrow> find_subscriber mem id_bytes SID_SIZE True st;
           if subscr = None then Some (False, subscr, c, st)
           else do {
             c \<leftarrow> advance_to c after;
             Some (True, subscr, c, st)
           }
         }
     }
   }"

definition parse_endpoint :: "(nat \<Rightarrow> bool) \<Rightarrow> byte \<Rightarrow> byte \<Rightarrow> nat option \<Rightarrow> mdp_portrange \<Rightarrow> cursor \<Rightarrow> subscriber_state \<Rightarrow>
    (bool \<times> byte \<times> nat option \<times> mdp_portrange \<times> cursor \<times> subscriber_state) option" where
  "parse_endpoint mem port_flag flgs subscr ports c st = do {
     (ok, subscr, c, st) \<leftarrow> parse_sidany mem subscr c st;
     if \<not> ok then Some (False, flgs, subscr, ports, c, st)
     else do {
       c \<leftarrow> parse_optspace c;
       (ch, c) \<leftarrow> peek c;
       if ch = CHR '':''
       then do {
         c \<leftarrow> cursor_next c;
         c \<leftarrow> parse_optspace c;
         (ok, ports, c) \<leftarrow> parse_portrange c ports;
         Some (ok, if ok then flgs OR port_flag else flgs, subscr, ports, c, st)
       }
       else Some (True, flgs, subscr, ports, c, st)
     }
   }"

definition parse_direction :: "byte \<Rightarrow> cursor \<Rightarrow> (bool \<times> byte \<times> cursor) option" where
  "parse_direction flgs c =
     (let flgs = flgs AND NOT (RULE_INBOUND OR RULE_OUTBOUND)
      in do {
        (b, c) \<leftarrow> skip c ''<'';
        let flgs = (if b then flgs OR RULE_INBOUND else flgs);
        (b, c) \<leftarrow> skip c ''>'';
        let flgs = (if b then flgs OR RULE_OUTBOUND else flgs);
        Some (flgs AND (RULE_INBOUND OR RULE_OUTBOUND) \<noteq> 0, flgs, c)
      })"

definition parse_pattern :: "(nat \<Rightarrow> bool) \<Rightarrow> packet_rule \<Rightarrow> cursor \<Rightarrow> subscriber_state \<Rightarrow>
    (bool \<times> packet_rule \<times> cursor \<times> subscriber_state) option" where
  "parse_pattern mem rule c st = do {
     (p, c) \<leftarrow> cursor_pin c;
     (ok, f, s, ports, c, st) \<leftarrow>
        parse_endpoint mem RULE_LOCAL_PORT (rule_flags rule) (local_subscriber rule) (local_ports rule) c st;
     let rule = rule\<lparr>rule_flags := f, local_subscriber := s, local_ports := ports\<rparr>;
     c \<leftarrow> (if ok then do {
             c \<leftarrow> cursor_unpin c p;
             parse_optspace c
           }
           else retreat c p);
     (ok, f, c) \<leftarrow> parse_direction (rule_flags rule) c;
     let rule = rule\<lparr>rule_flags := f\<rparr>;
     if \<not> ok then Some (False, rule, c, st)
     else do {
       c \<leftarrow> parse_optspace c;
       (ok, f, s, ports, c, st) \<leftarrow>
          parse_endpoint mem RULE_REMOTE_PORT (rule_flags rule) (remote_subscriber rule) (remote_ports rule) c st;
       Some (ok, rule\<lparr>rule_flags := f, remote_subscriber := s, remote_ports := ports\<rparr>, c, st)
     }
   }"

definition parse_which :: "(nat \<Rightarrow> bool) \<Rightarrow> packet_rule \<Rightarrow> cursor \<Rightarrow> subscriber_state \<Rightarrow>
    (bool \<times> packet_rule \<times> cursor \<times> subscriber_state) option" where
  "parse_which mem rule c st = do {
     (b, c) \<leftarrow> skip c ''all'';
     if b then Some (True, rule, c, st) else parse_pattern mem rule c st
   }"

definition parse_verb :: "packet_rule \<Rightarrow> cursor \<Rightarrow> (bool \<times> packet_rule \<times> cursor) option" where
  "parse_verb rule c = do {
     (b, c) \<leftarrow> skip c ''allow'';
     if b then Some (True, rule, c)
     else do {
       (b, c) \<leftarrow> skip c ''drop'';
       if b then Some (True, rule\<lparr>rule_flags := rule_flags rule OR RULE_DROP\<rparr>, c)
       else Some (False, rule, c)
     }
   }"

text \<open>The result -1 is out of memory; the rule is there if the result is 1.\<close>

definition parse_rule :: "(nat \<Rightarrow> bool) \<Rightarrow> cursor \<Rightarrow> subscriber_state \<Rightarrow>
    (int \<times> packet_rule option \<times> cursor \<times> subscriber_state) option" where
  "parse_rule mem c st =
     (let (ok, st) = emalloc_zero mem st
      in if \<not> ok then Some (- 1, None, c, st)
         else do {
           (ok, rule, c) \<leftarrow> parse_verb rule_zero c;
           if \<not> ok then Some (0, None, c, st)
           else do {
             c \<leftarrow> parse_optspace c;
             (ok, rule, c, st) \<leftarrow> parse_which mem rule c st;
             Some (if ok then (1, Some rule, c, st) else (0, None, c, st))
           }
         })"

lemma space_loop_frame: "space_loop ret c = Some (b, c') \<Longrightarrow> cursor_le c c'"
proof (induction ret c rule: space_loop.induct)
  case (1 ret c)
  obtain ch c1 where pk: "peek c = Some (ch, c1)"
    using 1(2) by (subst (asm) space_loop.simps) (auto split: option.splits)
  have le: "cursor_le c c1" using peek_frame [OF pk] by blast
  show ?case
  proof (cases "ch = CHR '' ''")
    case True
    then obtain c2 where nx: "cursor_next c1 = Some c2" and "space_loop True c2 = Some (b, c')"
      using 1(2) pk by (subst (asm) space_loop.simps) (auto split: option.splits)
    then have "cursor_le c2 c'" using 1(1) [OF pk refl True nx] by blast
    then show ?thesis using le cursor_next_frame [OF nx] cursor_le_trans by blast
  next
    case False
    then show ?thesis using 1(2) pk le by (subst (asm) space_loop.simps) simp
  qed
qed

lemma parse_optspace_frame: "parse_optspace c = Some c' \<Longrightarrow> cursor_le c c'"
  using space_loop_frame [of False c] by (auto simp: parse_optspace_def parse_space_def)

lemma parse_sep_frame:
  assumes a: "parse_sep c = Some (b, c')"
  shows "cursor_le c c' \<and> (b \<longrightarrow> length (cursor_rest c') < length (cursor_rest c))"
proof -
  obtain ch c1 where p1: "peek c = Some (ch, c1)" using a by (cases "peek c") (auto simp: parse_sep_def)
  have le1: "cursor_le c c1" using peek_frame [OF p1] by blast
  have stop: ?thesis if "cursor_le c c2" "cursor_next c2 = Some c'" for c2
    using that cursor_next_frame [OF that(2)] cursor_le_trans [OF that(1)] by (auto simp: cursor_le_def)
  show ?thesis
  proof (cases "ch = CHR 0x0A")
    case True
    then have "cursor_next c1 = Some c'" using a p1 by (cases "cursor_next c1") (auto simp: parse_sep_def)
    then show ?thesis by (rule stop [OF le1])
  next
    case False
    obtain ch2 c2 where p2: "peek c1 = Some (ch2, c2)" using a p1 False by (cases "peek c1") (auto simp: parse_sep_def)
    have le2: "cursor_le c c2" using le1 peek_frame [OF p2] cursor_le_trans by blast
    show ?thesis
    proof (cases "ch2 = CHR '';''")
      case True
      then have "cursor_next c2 = Some c'" using a p1 p2 False by (cases "cursor_next c2") (auto simp: parse_sep_def)
      then show ?thesis by (rule stop [OF le2])
    next
      case semi: False
      then show ?thesis using a p1 p2 False le2 by (simp add: parse_sep_def)
    qed
  qed
qed

lemma parse_port_frame:
  assumes r: "parse_port c = Some (r, c')"
  shows "cursor_le c c'"
proof -
  obtain hex c1 where 1: "skip c ''0x'' = Some (hex, c1)" using r by (cases "skip c ''0x''") (auto simp: parse_port_def)
  obtain a c2 where 2: "preload c1 (if hex then 8 else 10) = Some (a, c2)"
    using r 1 by (cases "preload c1 (if hex then 8 else 10)") (auto simp: parse_port_def)
  have "c' = c2 \<or> (\<exists>after. advance_to c2 after = Some c')"
    using r 1 2 by (auto simp: parse_port_def split: bind_splits option.splits)
  then have "cursor_le c2 c'" using advance_to_frame [of c2 _ c'] by auto
  then show ?thesis using skip_frame [OF 1] preload_frame(2) [OF 2] cursor_le_trans by blast
qed

lemma parse_portrange_frame: "parse_portrange c r = Some (ok, r', c') \<Longrightarrow> cursor_le c c'"
proof -
  assume a: "parse_portrange c r = Some (ok, r', c')"
  then obtain port c1 where 1: "parse_port c = Some (port, c1)" by (auto simp: parse_portrange_def split: bind_splits)
  note le1 = parse_port_frame [OF 1]
  show ?thesis
  proof (cases port)
    case (Some first)
    then obtain c2 ch c3 where 2: "parse_optspace c1 = Some c2" "peek c2 = Some (ch, c3)"
      using a 1 by (auto simp: parse_portrange_def Let_def split: bind_splits)
    have le3: "cursor_le c c3"
      using le1 parse_optspace_frame [OF 2(1)] peek_frame [OF 2(2)] cursor_le_trans by blast
    show ?thesis
    proof (cases "ch = CHR ''-''")
      case True
      then obtain c4 c5 where 4: "cursor_next c3 = Some c4" "parse_optspace c4 = Some c5" "\<exists>q. parse_port c5 = Some (q, c')"
        using a 1 Some 2 by (auto simp: parse_portrange_def Let_def split: bind_splits option.splits)
      then show ?thesis
        using le3 cursor_next_frame [OF 4(1)] parse_optspace_frame [OF 4(2)] parse_port_frame [of c5 _ c'] cursor_le_trans by blast
    next
      case False
      then show ?thesis using a 1 Some 2 le3 by (simp add: parse_portrange_def)
    qed
  qed (use a 1 le1 in \<open>simp add: parse_portrange_def\<close>)
qed

lemma parse_sidany_frame:
  assumes r: "parse_sidany mem s c st = Some (ok, s', c', st')"
  shows "cursor_le c c'"
proof -
  obtain a c1 where 1: "preload c SID_STRLEN = Some (a, c1)"
    using r by (cases "preload c SID_STRLEN") (auto simp: parse_sidany_def)
  obtain b c2 where 2: "skip c1 ''*'' = Some (b, c2)"
    using r 1 by (cases "skip c1 ''*''") (auto simp: parse_sidany_def)
  have "c' = c2 \<or> (\<exists>after. advance_to c2 after = Some c')"
    using r 1 2 by (auto simp: parse_sidany_def split: bind_splits option.splits if_splits)
  then have "cursor_le c2 c'" using advance_to_frame [of c2 _ c'] by auto
  then show ?thesis using preload_frame(2) [OF 1] skip_frame [OF 2] cursor_le_trans by blast
qed

lemma parse_endpoint_frame: "parse_endpoint mem pf f s ports c st = Some (ok, f', s', ports', c', st') \<Longrightarrow> cursor_le c c'"
proof -
  assume a: "parse_endpoint mem pf f s ports c st = Some (ok, f', s', ports', c', st')"
  then obtain ok1 s1 c1 st1 where 1: "parse_sidany mem s c st = Some (ok1, s1, c1, st1)"
    by (auto simp: parse_endpoint_def split: bind_splits)
  note le1 = parse_sidany_frame [OF 1]
  show ?thesis
  proof (cases ok1)
    case True
    then obtain c2 ch c3 where 2: "parse_optspace c1 = Some c2" "peek c2 = Some (ch, c3)"
      using a 1 by (auto simp: parse_endpoint_def split: bind_splits)
    have le3: "cursor_le c c3"
      using le1 parse_optspace_frame [OF 2(1)] peek_frame [OF 2(2)] cursor_le_trans by blast
    show ?thesis
    proof (cases "ch = CHR '':''")
      case True
      then obtain c4 c5 where 4: "cursor_next c3 = Some c4" "parse_optspace c4 = Some c5" "\<exists>q r. parse_portrange c5 ports = Some (q, r, c')"
        using a 1 \<open>ok1\<close> 2 by (auto simp: parse_endpoint_def split: bind_splits)
      then show ?thesis
        using le3 cursor_next_frame [OF 4(1)] parse_optspace_frame [OF 4(2)] parse_portrange_frame [of c5 ports] cursor_le_trans by blast
    next
      case False
      then show ?thesis using a 1 2 le3 \<open>ok1\<close> by (simp add: parse_endpoint_def)
    qed
  qed (use a 1 le1 in \<open>simp add: parse_endpoint_def\<close>)
qed

lemma parse_direction_frame:
  assumes r: "parse_direction f c = Some (ok, f', c')"
  shows "cursor_le c c'"
proof -
  obtain b c1 where 1: "skip c ''<'' = Some (b, c1)" using r by (cases "skip c ''<''") (auto simp: parse_direction_def)
  obtain b' c2 where 2: "skip c1 ''>'' = Some (b', c2)" using r 1 by (cases "skip c1 ''>''") (auto simp: parse_direction_def)
  have "c' = c2" using r 1 2 by (simp add: parse_direction_def Let_def)
  then show ?thesis using skip_frame [OF 1] skip_frame [OF 2] cursor_le_trans by blast
qed

lemma parse_verb_frame:
  assumes r: "parse_verb rule c = Some (ok, rule', c')"
  shows "cursor_le c c'"
proof -
  obtain b c1 where 1: "skip c ''allow'' = Some (b, c1)" using r by (cases "skip c ''allow''") (auto simp: parse_verb_def)
  show ?thesis
  proof (cases b)
    case False
    obtain b' c2 where 2: "skip c1 ''drop'' = Some (b', c2)"
      using r 1 False by (cases "skip c1 ''drop''") (auto simp: parse_verb_def)
    have "c' = c2" using r 1 2 False by (simp add: parse_verb_def split: if_splits)
    then show ?thesis using skip_frame [OF 1] skip_frame [OF 2] cursor_le_trans by blast
  qed (use r 1 skip_frame [OF 1] in \<open>simp add: parse_verb_def\<close>)
qed

lemma cursor_pin_text:
  assumes "cursor_pin c = Some (p, c1)"
  shows "\<exists>t. pin_text c1 = Some t \<and> drop p t = cursor_rest c \<and> cursor_rest c1 = cursor_rest c"
  using assms by (auto simp: cursor_pin_def pin_text_def cursor_rest_def split: bind_splits if_splits option.splits)

lemma retreat_rest:
  assumes "retreat c p = Some c'" "pin_text c = Some t"
  shows "cursor_rest c' = drop p t"
  using assms by (auto simp: retreat_def pin_text_def cursor_rest_def add.commute split: bind_splits if_splits)

lemma parse_pattern_rest: "parse_pattern mem rule c st = Some (ok, rule', c', st') \<Longrightarrow> length (cursor_rest c') \<le> length (cursor_rest c)"
proof -
  assume a: "parse_pattern mem rule c st = Some (ok, rule', c', st')"
  then obtain p c1 where 1: "cursor_pin c = Some (p, c1)" by (auto simp: parse_pattern_def split: bind_splits)
  then obtain t where t: "pin_text c1 = Some t" "drop p t = cursor_rest c" "cursor_rest c1 = cursor_rest c"
    using cursor_pin_text by blast
  from a 1 obtain ok1 f s ports c2 st1 where
    2: "parse_endpoint mem RULE_LOCAL_PORT (rule_flags rule) (local_subscriber rule) (local_ports rule) c1 st = Some (ok1, f, s, ports, c2, st1)"
    by (auto simp: parse_pattern_def split: bind_splits)
  have le2: "cursor_le c1 c2" by (rule parse_endpoint_frame [OF 2])
  from a 1 2 obtain c3 where 3: "if ok1 then \<exists>c. cursor_unpin c2 p = Some c \<and> parse_optspace c = Some c3 else retreat c2 p = Some c3"
    by (auto simp: parse_pattern_def split: bind_splits if_splits)
  have l3: "length (cursor_rest c3) \<le> length (cursor_rest c)"
  proof (cases ok1)
    case True
    then obtain c where c: "cursor_unpin c2 p = Some c" "parse_optspace c = Some c3" using 3 by auto
    have "cursor_rest c = cursor_rest c2"
      using c(1) by (auto simp: cursor_unpin_def cursor_rest_def split: bind_splits if_splits)
    then show ?thesis using le2 parse_optspace_frame [OF c(2)] t by (simp add: cursor_le_def)
  next
    case False
    then show ?thesis using 3 retreat_rest [of c2 p c3 t] le2 t by (simp add: cursor_le_def)
  qed
  from a 1 2 3 obtain ok2 f2 c4 where 4: "parse_direction f c3 = Some (ok2, f2, c4)"
    by (auto simp: parse_pattern_def Let_def split: bind_splits if_splits)
  have l4: "length (cursor_rest c4) \<le> length (cursor_rest c)"
    using l3 parse_direction_frame [OF 4] by (simp add: cursor_le_def)
  show ?thesis
  proof (cases ok2)
    case True
    then obtain c5 f' s' ports' where 5: "parse_optspace c4 = Some c5"
        "parse_endpoint mem RULE_REMOTE_PORT f2 (remote_subscriber rule) (remote_ports rule) c5 st1 = Some (ok, f', s', ports', c', st')"
      using a 1 2 3 4 by (auto simp: parse_pattern_def Let_def split: bind_splits if_splits)
    show ?thesis
      using l4 parse_optspace_frame [OF 5(1)] parse_endpoint_frame [OF 5(2)] by (simp add: cursor_le_def)
  next
    case False
    then show ?thesis using a 1 2 3 4 l4 by (auto simp: parse_pattern_def Let_def split: bind_splits if_splits)
  qed
qed

lemma parse_which_rest: "parse_which mem rule c st = Some (ok, rule', c', st') \<Longrightarrow> length (cursor_rest c') \<le> length (cursor_rest c)"
  using skip_frame [of c "''all''"] parse_pattern_rest [of mem rule _ st ok rule' c' st']
  by (fastforce simp: parse_which_def cursor_le_def split: bind_splits if_splits)

lemma parse_rule_rest: "parse_rule mem c st = Some (r, rule, c', st') \<Longrightarrow> length (cursor_rest c') \<le> length (cursor_rest c)"
proof -
  assume a: "parse_rule mem c st = Some (r, rule, c', st')"
  obtain ok0 st0 where 0: "emalloc_zero mem st = (ok0, st0)" by (cases "emalloc_zero mem st")
  show ?thesis
  proof (cases ok0)
    case True
    then obtain ok1 rule1 c1 where 1: "parse_verb rule_zero c = Some (ok1, rule1, c1)"
      using a 0 by (auto simp: parse_rule_def split: bind_splits)
    have l1: "length (cursor_rest c1) \<le> length (cursor_rest c)" using parse_verb_frame [OF 1] by (simp add: cursor_le_def)
    show ?thesis
    proof (cases ok1)
      case True
      then obtain c2 ok2 rule2 c3 st3 where 2: "parse_optspace c1 = Some c2" "parse_which mem rule1 c2 st0 = Some (ok2, rule2, c3, st3)" "c' = c3"
        using a 0 1 \<open>ok0\<close> by (auto simp: parse_rule_def split: bind_splits if_splits)
      then show ?thesis
        using l1 parse_optspace_frame [OF 2(1)] parse_which_rest [OF 2(2)] by (simp add: cursor_le_def)
    qed (use a 0 1 l1 \<open>ok0\<close> in \<open>simp add: parse_rule_def\<close>)
  qed (use a 0 in \<open>simp add: parse_rule_def\<close>)
qed

text \<open>The condition of the loop of \<open>_rules\<close>, with the separator that it consumes.\<close>

definition rules_more :: "cursor \<Rightarrow> (bool \<times> cursor) option" where
  "rules_more c = do {
     (e, c) \<leftarrow> eof c;
     if e then Some (False, c)
     else do {
       (s, c) \<leftarrow> parse_sep c;
       if \<not> s then Some (False, c)
       else do {
         (e, c) \<leftarrow> eof c;
         Some (\<not> e, c)
       }
     }
   }"

lemma rules_more_rest: "rules_more c = Some (True, c') \<Longrightarrow> length (cursor_rest c') < length (cursor_rest c)"
proof -
  assume "rules_more c = Some (True, c')"
  then obtain c1 c2 where "eof c = Some (False, c1)" "parse_sep c1 = Some (True, c2)" "eof c2 = Some (False, c')"
    by (auto simp: rules_more_def split: bind_splits if_splits)
  then show ?thesis using eof_frame [of c] eof_frame [of c2] parse_sep_frame [of c1] by fastforce
qed

text \<open>The rules parsed so far are kept when memory runs out (-1) and when a rule is malformed.\<close>

function rules_loop :: "(nat \<Rightarrow> bool) \<Rightarrow> packet_rule list \<Rightarrow> cursor \<Rightarrow> subscriber_state \<Rightarrow>
    (int \<times> packet_rule list \<times> cursor \<times> subscriber_state) option" where
  "rules_loop mem rules c st =
     (case rules_more c of
        None \<Rightarrow> None
      | Some (more_rules, c) \<Rightarrow>
          if \<not> more_rules then Some (0, rules, c, st)
          else (case parse_optspace c of
                  None \<Rightarrow> None
                | Some c \<Rightarrow>
                    (case parse_rule mem c st of
                       None \<Rightarrow> None
                     | Some (r, rule, c, st) \<Rightarrow>
                         if r = - 1 then Some (- 1, rules, c, st)
                         else (case parse_optspace c of
                                 None \<Rightarrow> None
                               | Some c \<Rightarrow>
                                   (case rule of
                                      None \<Rightarrow> Some (0, rules, c, st)
                                    | Some rule \<Rightarrow> rules_loop mem (rules @ [rule]) c st)))))"
  by pat_completeness auto
termination
proof (relation "measure (\<lambda>(mem, rules, c, st). length (cursor_rest c))", goal_cases)
  case (2 mem rules c st x more_rules c1 c2 y r yy rule yyy c3 st3 c4 rule')
  have "length (cursor_rest c1) < length (cursor_rest c)" using 2 rules_more_rest [of c c1] by auto
  moreover have "length (cursor_rest c2) \<le> length (cursor_rest c1)"
    using 2 parse_optspace_frame [of c1 c2] by (auto simp: cursor_le_def)
  moreover have "length (cursor_rest c3) \<le> length (cursor_rest c2)"
    using 2 parse_rule_rest [of mem c2 st r rule c3 st3] by auto
  moreover have "length (cursor_rest c4) \<le> length (cursor_rest c3)"
    using 2 parse_optspace_frame [of c3 c4] by (auto simp: cursor_le_def)
  ultimately show ?case by simp
qed simp

declare rules_loop.simps [simp del]

definition parse_rules :: "(nat \<Rightarrow> bool) \<Rightarrow> cursor \<Rightarrow> subscriber_state \<Rightarrow>
    (int \<times> packet_rule list \<times> cursor \<times> subscriber_state) option" where
  "parse_rules mem c st = do {
     c \<leftarrow> parse_optspace c;
     (r, rule, c, st) \<leftarrow> parse_rule mem c st;
     if r = - 1 then Some (- 1, [], c, st)
     else do {
       c \<leftarrow> parse_optspace c;
       (r, rules, c, st) \<leftarrow> (case rule of None \<Rightarrow> Some (0, [], c, st) | Some rule \<Rightarrow> rules_loop mem [rule] c st);
       if r = - 1 then Some (- 1, rules, c, st)
       else do {
         (e, c) \<leftarrow> eof c;
         Some (if e then 1 else 0, rules, c, st)
       }
     }
   }"

text \<open>The rules that \<open>*rulep\<close> is set to, if the result is 0.\<close>

definition parse_mdp_packet_rules :: "(nat \<Rightarrow> bool) \<Rightarrow> string \<Rightarrow> subscriber_state \<Rightarrow>
    (int \<times> packet_rule list option \<times> subscriber_state) option" where
  "parse_mdp_packet_rules mem fp st = do {
     (r, rules, c, st) \<leftarrow> parse_rules mem (init_cursor fp) st;
     if r = 1 then Some (0, Some rules, st)
     else if r = - 1 then Some (1, None, st)
     else do {
       n \<leftarrow> available c;
       if n \<noteq> 0 then do {
         s \<leftarrow> preloaded c;
         Some (1, None, st)
       }
       else Some (1, None, st)
     }
   }"

section \<open>Loading the rules\<close>

record file_meta =
  tv_sec :: int
  tv_nsec :: int
  meta_size :: int

definition FILE_META_UNKNOWN :: file_meta where
  "FILE_META_UNKNOWN = \<lparr>tv_sec = - 1, tv_nsec = - 1, meta_size = - 1\<rparr>"

definition cmp_timespec :: "file_meta \<Rightarrow> file_meta \<Rightarrow> int" where
  "cmp_timespec a b =
     (if tv_sec a < tv_sec b then - 1 else if tv_sec a > tv_sec b then 1
      else if tv_nsec a < tv_nsec b then - 1 else if tv_nsec a > tv_nsec b then 1 else 0)"

definition cmp_file_meta :: "file_meta \<Rightarrow> file_meta \<Rightarrow> int" where
  "cmp_file_meta a b =
     (let c = cmp_timespec a b
      in if c \<noteq> 0 then c else if meta_size a < meta_size b then - 1 else if meta_size a > meta_size b then 1 else 0)"

definition PACKET_RULES_FILE_MAX_SIZE :: int where
  "PACKET_RULES_FILE_MAX_SIZE = 32 * 1024"

record filter_state =
  packet_rules :: "packet_rule list"
  packet_rules_meta :: file_meta

definition clear_mdp_packet_rules :: "filter_state \<Rightarrow> filter_state" where
  "clear_mdp_packet_rules fs = fs\<lparr>packet_rules := []\<rparr>"

definition set_mdp_packet_rules :: "packet_rule list \<Rightarrow> filter_state \<Rightarrow> filter_state" where
  "set_mdp_packet_rules rules fs = (clear_mdp_packet_rules fs)\<lparr>packet_rules := rules\<rparr>"

text \<open>
  \<open>reload_mdp_packet_rules\<close>. The environment is whether \<open>filter_rules_path\<close> is configured, whether the path
  fits its buffer, the metadata of the file (\<open>None\<close> if \<open>stat\<close> fails) and its text (\<open>None\<close> if \<open>fopen\<close> fails).
\<close>

definition reload_mdp_packet_rules :: "(nat \<Rightarrow> bool) \<Rightarrow> bool \<Rightarrow> bool \<Rightarrow> file_meta option \<Rightarrow> string option \<Rightarrow>
    filter_state \<Rightarrow> subscriber_state \<Rightarrow> (int \<times> filter_state \<times> subscriber_state) option" where
  "reload_mdp_packet_rules mem configured path_fits get_meta file fs st =
     (if \<not> configured then Some (0, (clear_mdp_packet_rules fs)\<lparr>packet_rules_meta := FILE_META_UNKNOWN\<rparr>, st)
      else if \<not> path_fits then Some (- 1, fs, st)
      else case get_meta of
             None \<Rightarrow> Some (- 1, fs, st)
           | Some meta \<Rightarrow>
               if cmp_file_meta meta (packet_rules_meta fs) = 0 then Some (0, fs, st)
               else if tv_sec meta = - 1
               then Some (1, (clear_mdp_packet_rules fs)\<lparr>packet_rules_meta := meta\<rparr>, st)
               else if meta_size meta > PACKET_RULES_FILE_MAX_SIZE then Some (- 1, fs, st)
               else if meta_size meta \<le> 0
               then Some (1, (clear_mdp_packet_rules fs)\<lparr>packet_rules_meta := meta\<rparr>, st)
               else case file of
                      None \<Rightarrow> Some (- 1, fs, st)
                    | Some fp \<Rightarrow> do {
                        (r, new_rules, st) \<leftarrow> parse_mdp_packet_rules mem fp st;
                        let (ret, fs) =
                          (case new_rules of
                             Some rules \<Rightarrow> (1, set_mdp_packet_rules rules fs)
                           | None \<Rightarrow> (- 1, fs));
                        Some (ret, fs\<lparr>packet_rules_meta := meta\<rparr>, st)
                      })"

end
