(* ===== verification/Mdp_Filter_Correct.thy ===== *)
theory Mdp_Filter_Correct
  imports Mdp_Filter Subscriber_Tree_Correct
begin

text \<open>
  Correctness of the packet filter: first-match semantics of the decisions, the cursor as a window on
  the plain text of the file, what the parser makes of a printed rule, the well-formedness of every rule
  it accepts, and the texts that it mistreats.
\<close>

section \<open>The cursor as a window on the text\<close>

definition cursor_ok :: "cursor \<Rightarrow> bool" where
  "cursor_ok c \<longleftrightarrow> current c \<le> length (buffer c) \<and> length (buffer c) \<le> CURSOR_SIZE \<and> (stream_eof c \<longrightarrow> stream c = []) \<and>
     (pin c = None \<longleftrightarrow> pins c = 0) \<and> (\<forall>p. pin c = Some p \<longrightarrow> p \<le> current c)"

definition avail :: "cursor \<Rightarrow> nat" where
  "avail c = length (buffer c) - current c"

text \<open>The text between the pinned and the current position.\<close>

definition cursor_back :: "cursor \<Rightarrow> string" where
  "cursor_back c = (case pin c of None \<Rightarrow> [] | Some p \<Rightarrow> take (current c - p) (drop p (buffer c)))"

lemma length_cursor_back: "cursor_ok c \<Longrightarrow> length (cursor_back c) = current c - stale c"
  by (auto simp: cursor_back_def stale_def cursor_ok_def split: option.splits)

lemma length_cursor_rest: "cursor_ok c \<Longrightarrow> length (cursor_rest c) = avail c + length (stream c)"
  by (simp add: cursor_rest_def avail_def)

lemma cursor_fread_ok:
  assumes "cursor_ok c" "n \<le> CURSOR_SIZE - length (buffer c)"
  shows "cursor_ok (cursor_fread n c)" "cursor_back (cursor_fread n c) = cursor_back c" "cursor_rest (cursor_fread n c) = cursor_rest c"
    "pins (cursor_fread n c) = pins c" "avail (cursor_fread n c) = avail c + min n (length (stream c))"
  using assms by (auto simp: cursor_ok_def cursor_fread_def cursor_back_def cursor_rest_def avail_def min_def split: option.splits)

lemma cursor_shift_ok:
  assumes "cursor_ok c"
  shows "cursor_ok (cursor_shift c)" "cursor_back (cursor_shift c) = cursor_back c" "cursor_rest (cursor_shift c) = cursor_rest c"
    "pins (cursor_shift c) = pins c" "avail (cursor_shift c) = avail c"
  using assms by (auto simp: cursor_ok_def cursor_shift_def cursor_back_def cursor_rest_def avail_def stale_def split: option.splits)

lemma preload_loop_window:
  assumes "cursor_ok c" "length (cursor_back c) + n \<le> CURSOR_SIZE"
  shows "\<exists>c'. preload_loop n c = Some (avail c', c') \<and> cursor_ok c' \<and> cursor_back c' = cursor_back c \<and> cursor_rest c' = cursor_rest c \<and>
    pins c' = pins c \<and> avail c' = max (avail c) (min n (length (cursor_rest c))) \<and> (avail c' < n \<longrightarrow> stream_eof c')"
  using assms
proof (induction n c rule: preload_loop.induct)
  case (1 n c)
  let ?space = "CURSOR_SIZE - length (buffer c)"
  have ok: "current c \<le> length (buffer c)" "length (buffer c) \<le> CURSOR_SIZE" "case pin c of None \<Rightarrow> True | Some p \<Rightarrow> p \<le> current c"
      "stale c \<le> current c"
    using 1(3) by (auto simp: cursor_ok_def stale_def split: option.splits)
  have bk: "current c - stale c + n \<le> CURSOR_SIZE" using 1(3,4) length_cursor_back by simp
  have rest: "length (cursor_rest c) = avail c + length (stream c)" using length_cursor_rest [OF 1(3)] .
  consider (stop) "\<not> (avail c < n \<and> \<not> stream_eof c)"
    | (read) "avail c < n" "\<not> stream_eof c" "avail c + ?space \<ge> n"
    | (shift) "avail c < n" "\<not> stream_eof c" "\<not> avail c + ?space \<ge> n" "stale c \<noteq> 0"
    using bk ok by (force simp: avail_def)
  then show ?case
  proof cases
    case stop
    then have "preload_loop n c = Some (avail c, c)"
      by (subst preload_loop.simps) (simp add: avail_def)
    moreover have "stream_eof c \<longrightarrow> stream c = []" using 1(3) by (simp add: cursor_ok_def)
    ultimately show ?thesis using 1(3) stop rest by auto
  next
    case read
    let ?c = "cursor_fread (n - avail c) c"
    have fr: "n - avail c \<le> ?space" using read by simp
    note c = cursor_fread_ok [OF 1(3) fr]
    have "preload_loop n c = preload_loop n ?c"
      using read ok(2,3) by (subst preload_loop.simps) (simp add: Let_def avail_def [symmetric])
    moreover have "\<exists>c'. preload_loop n ?c = Some (avail c', c') \<and> cursor_ok c' \<and> cursor_back c' = cursor_back ?c \<and> cursor_rest c' = cursor_rest ?c \<and>
        pins c' = pins ?c \<and> avail c' = max (avail ?c) (min n (length (cursor_rest ?c))) \<and> (avail c' < n \<longrightarrow> stream_eof c')"
      using 1(1) [OF refl refl refl, folded avail_def, unfolded if_P [OF read(3)]] read ok(3) c(1,2) 1(4) by simp
    ultimately show ?thesis using c rest read(1) by auto
  next
    case shift
    let ?c = "cursor_shift c"
    note c = cursor_shift_ok [OF 1(3)]
    have st: "stale c \<le> length (buffer c)" using ok by simp
    have "preload_loop n c = preload_loop n ?c"
      using shift ok(2,3) st by (subst preload_loop.simps) (simp add: Let_def avail_def [symmetric], arith)
    moreover have "\<exists>c'. preload_loop n ?c = Some (avail c', c') \<and> cursor_ok c' \<and> cursor_back c' = cursor_back ?c \<and> cursor_rest c' = cursor_rest ?c \<and>
        pins c' = pins ?c \<and> avail c' = max (avail ?c) (min n (length (cursor_rest ?c))) \<and> (avail c' < n \<longrightarrow> stream_eof c')"
      using 1(2) [OF refl refl refl, folded avail_def, unfolded if_not_P [OF shift(3)]] shift ok(3) st c(1,2) 1(4) by simp
    ultimately show ?thesis using c by simp
  qed
qed

text \<open>
  The cursor stands before the text \<open>r\<close> with \<open>b\<close> between the pin and the position and \<open>k\<close> pins. At most 64
  characters are buffered ahead, which is what makes \<open>parse_sid_t\<close> accept an id: it wants a length
  of exactly 64.
\<close>

definition cursor_at :: "cursor \<Rightarrow> string \<Rightarrow> nat \<Rightarrow> string \<Rightarrow> bool" where
  "cursor_at c b k r \<longleftrightarrow> cursor_ok c \<and> cursor_back c = b \<and> pins c = k \<and> cursor_rest c = r \<and> avail c \<le> SID_STRLEN"

definition back_add :: "nat \<Rightarrow> string \<Rightarrow> string \<Rightarrow> string" where
  "back_add k b xs = (if k = 0 then b else b @ xs)"

lemma back_add_simps [simp]:
  "back_add k b [] = b" "back_add k (back_add k b xs) ys = back_add k b (xs @ ys)" "back_add 0 b xs = b"
  by (simp_all add: back_add_def)

lemma length_back_add: "length (back_add k b xs) \<le> length b + length xs"
  by (simp add: back_add_def)

lemma cursor_at_text: "cursor_at c b k r \<Longrightarrow> drop (current c) (buffer c) = take (avail c) r"
  by (auto simp: cursor_at_def cursor_rest_def avail_def)

lemma cursor_at_avail: "cursor_at c b k r \<Longrightarrow> avail c \<le> length r"
  by (auto simp: cursor_at_def cursor_rest_def avail_def)

lemma init_cursor_at: "cursor_at (init_cursor s) [] 0 s"
  by (simp add: cursor_at_def init_cursor_def cursor_ok_def cursor_back_def cursor_rest_def avail_def)

lemma preload_at:
  assumes "cursor_at c b k r" "length b + n \<le> CURSOR_SIZE" "n \<le> SID_STRLEN"
  shows "\<exists>c'. preload c n = Some (avail c', c') \<and> cursor_at c' b k r \<and> avail c' = max (avail c) (min n (length r)) \<and>
    (avail c' < n \<longrightarrow> stream_eof c')"
proof -
  have c: "cursor_ok c" "cursor_back c = b" "cursor_rest c = r" "pins c = k" "avail c \<le> SID_STRLEN"
    using assms(1) by (simp_all add: cursor_at_def)
  then obtain c' where "preload_loop n c = Some (avail c', c')" "cursor_ok c'" "cursor_back c' = b" "cursor_rest c' = r"
      "pins c' = k" "avail c' = max (avail c) (min n (length r))" "avail c' < n \<longrightarrow> stream_eof c'"
    using preload_loop_window [OF c(1), of n] assms(2) by auto
  then show ?thesis
    using c(1,5) assms(3) by (intro exI [of _ c']) (simp add: preload_def cursor_at_def cursor_ok_def)
qed

lemma eof_at:
  assumes "cursor_at c b k r" "length b < CURSOR_SIZE"
  shows "\<exists>c'. eof c = Some (r = [], c') \<and> cursor_at c' b k r \<and> (r \<noteq> [] \<longrightarrow> 0 < avail c')"
proof -
  have "length b + 1 \<le> CURSOR_SIZE" "1 \<le> SID_STRLEN" using assms(2) by (simp_all add: SID_STRLEN_def SID_SIZE_def)
  from preload_at [OF assms(1) this]
  obtain c' where c': "preload c 1 = Some (avail c', c')" "cursor_at c' b k r" "avail c' = max (avail c) (min 1 (length r))"
      "avail c' < 1 \<longrightarrow> stream_eof c'"
    by blast
  have ok: "current c' \<le> length (buffer c')" "avail c' \<le> length r"
    using c'(2) cursor_at_avail [OF c'(2)] by (simp_all add: cursor_at_def cursor_ok_def)
  have "(current c' = length (buffer c') \<and> stream_eof c') = (r = [])"
  proof (cases "r = []")
    case True
    then show ?thesis using ok c'(4) by (simp add: avail_def)
  next
    case False
    then have "0 < avail c'" using c'(3) by (cases r) auto
    then show ?thesis using False by (simp add: avail_def)
  qed
  moreover have "r \<noteq> [] \<longrightarrow> 0 < avail c'" using c'(3) by (cases r) auto
  ultimately show ?thesis using c'(1,2) ok(1) by (auto simp: eof_def)
qed

lemma peek_at:
  assumes "cursor_at c b k r" "length b < CURSOR_SIZE"
  shows "\<exists>c'. peek c = Some (if r = [] then EOF else hd r, c') \<and> cursor_at c' b k r \<and> (r \<noteq> [] \<longrightarrow> 0 < avail c')"
proof -
  obtain c' where c': "eof c = Some (r = [], c')" "cursor_at c' b k r" "r \<noteq> [] \<longrightarrow> 0 < avail c'"
    using eof_at [OF assms] by blast
  have "buffer c' ! current c' = hd r" if "r \<noteq> []"
  proof -
    have "buffer c' ! current c' = hd (drop (current c') (buffer c'))"
      using c'(3) that by (simp add: hd_drop_conv_nth avail_def)
    then show ?thesis using cursor_at_text [OF c'(2)] c'(3) that by simp
  qed
  then show ?thesis using c' by (auto simp: peek_def avail_def)
qed

lemma cursor_at_advance:
  assumes "cursor_at c b k r" "n \<le> avail c"
  shows "cursor_at (c\<lparr>current := current c + n\<rparr>) (back_add k b (take n r)) k (drop n r)"
proof -
  have ok: "cursor_ok c" "cursor_back c = b" "pins c = k" "cursor_rest c = r" "avail c \<le> SID_STRLEN"
    using assms(1) by (simp_all add: cursor_at_def)
  have n: "current c + n \<le> length (buffer c)" using assms(2) ok(1) unfolding avail_def cursor_ok_def by linarith
  have t: "take n r = take n (drop (current c) (buffer c))"
    using ok(4) n by (auto simp: cursor_rest_def)
  have "cursor_rest (c\<lparr>current := current c + n\<rparr>) = drop n r"
    using ok(4) n by (auto simp: cursor_rest_def add.commute)
  moreover have "cursor_back (c\<lparr>current := current c + n\<rparr>) = back_add k b (take n r)"
  proof (cases "pin c")
    case None
    then show ?thesis using ok by (auto simp: cursor_back_def back_add_def cursor_ok_def)
  next
    case (Some p)
    then have "k \<noteq> 0" "p \<le> current c" using ok by (auto simp: cursor_ok_def)
    then have "take (current c + n - p) (drop p (buffer c)) = take (current c - p) (drop p (buffer c)) @ take n (drop (current c) (buffer c))"
      using take_add [of "current c - p" n "drop p (buffer c)"] by simp
    then show ?thesis using ok(2) Some \<open>k \<noteq> 0\<close> t by (auto simp: cursor_back_def back_add_def)
  qed
  moreover have "cursor_ok (c\<lparr>current := current c + n\<rparr>)" using ok(1) n by (auto simp: cursor_ok_def)
  ultimately show ?thesis using ok(3,5) by (simp add: cursor_at_def avail_def)
qed

lemma next_at:
  assumes "cursor_at c b k (x # r)" "0 < avail c"
  shows "\<exists>c'. cursor_next c = Some c' \<and> cursor_at c' (back_add k b [x]) k r"
  using cursor_at_advance [OF assms(1), of 1] assms(2) by (simp add: cursor_next_def avail_def)

lemma str_startswith_prefix:
  "NUL \<notin> set t \<Longrightarrow> str_startswith s t = (if prefix t s then Some (drop (length t) s) else None)"
proof (induction s t rule: str_startswith.induct)
  case (2 s c sub)
  then show ?case by (cases s) auto
qed simp

lemma skip_at:
  assumes "cursor_at c b k r" "length b + length t \<le> CURSOR_SIZE" "length t \<le> SID_STRLEN" "NUL \<notin> set t" "t \<noteq> []"
  shows "\<exists>c'. skip c t = Some (prefix t r, c') \<and>
    (if prefix t r then cursor_at c' (back_add k b t) k (drop (length t) r) else cursor_at c' b k r \<and> avail c \<le> avail c' \<and> (r \<noteq> [] \<longrightarrow> 0 < avail c'))"
proof -
  obtain c' where c': "preload c (length t) = Some (avail c', c')" "cursor_at c' b k r" "avail c' = max (avail c) (min (length t) (length r))"
    using preload_at [OF assms(1-3)] by blast
  have ok: "current c' \<le> length (buffer c')" using c'(2) by (simp add: cursor_at_def cursor_ok_def)
  have tx: "drop (current c') (buffer c') = take (avail c') r" by (rule cursor_at_text [OF c'(2)])
  have av: "available c' = Some (avail c')" using ok by (simp add: available_def avail_def)
  show ?thesis
  proof (cases "prefix t r")
    case True
    then have len: "length t \<le> avail c'" using c'(3) by (auto dest: prefix_length_le)
    have "prefix t (take (avail c') r)" using True len by (auto simp: prefix_def)
    then have "skip c t = Some (True, c'\<lparr>current := cursor_offset c' (drop (length t) (take (avail c') r))\<rparr>)"
      using c'(1) av len assms(4) by (simp add: skip_def tx str_startswith_prefix)
    moreover have "cursor_offset c' (drop (length t) (take (avail c') r)) = current c' + length t"
      using len cursor_at_avail [OF c'(2)] ok by (simp add: cursor_offset_def avail_def)
    moreover have "take (length t) r = t" using True by (auto simp: prefix_def)
    ultimately show ?thesis using cursor_at_advance [OF c'(2) len] True by simp
  next
    case False
    have "\<not> prefix t (take (avail c') r)" using False by (meson prefix_order.trans take_is_prefix)
    then have "skip c t = Some (False, c')"
      using c'(1) av assms(4) by (simp add: skip_def tx str_startswith_prefix)
    moreover have "r \<noteq> [] \<longrightarrow> 0 < avail c'" using c'(3) assms(5) by (cases r; cases t) auto
    ultimately show ?thesis using False c'(2,3) by simp
  qed
qed

lemma space_loop_at:
  assumes "cursor_at c b k (replicate m CHR '' '' @ r)" "length (back_add k b (replicate m CHR '' '')) < CURSOR_SIZE" "r = [] \<or> hd r \<noteq> CHR '' ''"
  shows "\<exists>c'. space_loop ret c = Some (ret \<or> 0 < m, c') \<and> cursor_at c' (back_add k b (replicate m CHR '' '')) k r \<and> (r \<noteq> [] \<longrightarrow> 0 < avail c')"
  using assms
proof (induction m arbitrary: c b ret)
  case 0
  obtain c' where "peek c = Some (if r = [] then EOF else hd r, c')" "cursor_at c' b k r" "r \<noteq> [] \<longrightarrow> 0 < avail c'"
    using peek_at [of c b k r] 0 by auto
  then show ?case using 0(3) by (subst space_loop.simps) auto
next
  case (Suc m)
  obtain c1 where 1: "peek c = Some (CHR '' '', c1)" "cursor_at c1 b k (CHR '' '' # replicate m CHR '' '' @ r)" "0 < avail c1"
    using peek_at [OF Suc.prems(1)] Suc.prems(2) by (auto simp: back_add_def split: if_splits)
  obtain c2 where 2: "cursor_next c1 = Some c2" "cursor_at c2 (back_add k b '' '') k (replicate m CHR '' '' @ r)"
    using next_at [OF 1(2,3)] by blast
  have "length (back_add k (back_add k b '' '') (replicate m CHR '' '')) < CURSOR_SIZE" using Suc.prems(2) by simp
  from Suc.IH [OF 2(2) this Suc.prems(3), of True]
  show ?case using 1 2 by (subst space_loop.simps) auto
qed

lemma optspace_at:
  assumes "cursor_at c b k (replicate m CHR '' '' @ r)" "length (back_add k b (replicate m CHR '' '')) < CURSOR_SIZE" "r = [] \<or> hd r \<noteq> CHR '' ''"
  shows "\<exists>c'. parse_optspace c = Some c' \<and> cursor_at c' (back_add k b (replicate m CHR '' '')) k r \<and> (r \<noteq> [] \<longrightarrow> 0 < avail c')"
  using space_loop_at [OF assms, of False] by (auto simp: parse_optspace_def parse_space_def)

section \<open>Ports\<close>

lemma horner_digits:
  fixes n :: nat
  shows "foldl (\<lambda>a d. a * 16 + d) a (map (\<lambda>i. n div 16 ^ i mod 16) (rev [0..<k])) = a * 16 ^ k + n mod 16 ^ k"
proof (induction k arbitrary: a)
  case (Suc k)
  have "n mod 16 ^ Suc k = 16 ^ k * (n div 16 ^ k mod 16) + n mod 16 ^ k"
    using mod_mult2_eq [of n "16 ^ k" 16] by (simp add: mult.commute)
  then show ?case using Suc [of "a * 16 + n div 16 ^ k mod 16"] by (simp add: algebra_simps)
qed simp

lemma nibble_of_word: "unat (drop_bit (4 * i) v AND 0xf) = unat v div 16 ^ i mod 16" for v :: "'a::len word"
proof -
  have e: "drop_bit (4 * i) v AND 0xf = take_bit 4 (drop_bit (4 * i) v)"
    by (simp add: take_bit_eq_mask mask_eq_exp_minus_1)
  show ?thesis
    unfolding e unsigned_take_bit_eq unat_drop_bit_eq by (simp add: take_bit_eq_mod drop_bit_eq_div power_mult)
qed

definition port_digits :: "mdp_port_t \<Rightarrow> string" where
  "port_digits v = map (\<lambda>i. hexdigit_lower ! (unat v div 16 ^ i mod 16)) (rev [0..<8])"

lemma fmt_mdp_port_digits: "fmt_mdp_port v = (if v = 0 then replicate 10 CHR ''0'' else ''0x'' @ port_digits v)"
proof -
  have "rev [0..<8] = [7, 6, 5, 4, 3, 2, 1, 0 :: nat]" by (simp add: upt_rec)
  then show ?thesis by (simp add: fmt_mdp_port_def port_digits_def nibble_of_word del: upt_conv_Cons)
qed

lemma port_digits_value: "radix_value 16 (port_digits v) = unat v" "list_all (radix_digit 16) (port_digits v)" "length (port_digits v) = 8"
proof -
  have hv: "hexvalue (hexdigit_lower ! (m mod 16)) = int (m mod 16)" for m
    by (rule hexvalue_lower) simp
  have "foldl (radix_step 16) a (map (\<lambda>i. hexdigit_lower ! (unat v div 16 ^ i mod 16)) xs) =
      foldl (\<lambda>a d. a * 16 + d) a (map (\<lambda>i. unat v div 16 ^ i mod 16) xs)" for a xs
    by (induction xs arbitrary: a) (simp_all add: radix_step_def hv)
  then have "radix_value 16 (port_digits v) = unat v mod 16 ^ 8"
    unfolding radix_value_def port_digits_def using horner_digits [of 0 "unat v" 8] by simp
  moreover have "unat v < 16 ^ 8" using unsigned_less [of v] by simp
  ultimately show "radix_value 16 (port_digits v) = unat v" by simp
  show "list_all (radix_digit 16) (port_digits v)"
    by (simp add: port_digits_def list_all_iff radix_digit_def hv)
  show "length (port_digits v) = 8" by (simp add: port_digits_def)
qed

lemma zero_digits_value: "radix_value 10 (replicate n CHR ''0'') = 0" "list_all (radix_digit 10) (replicate n CHR ''0'')"
proof -
  have "foldl (radix_step 10) 0 (replicate n CHR ''0'') = 0"
    by (induction n) (simp_all add: radix_step_def hexvalue_dec)
  then show "radix_value 10 (replicate n CHR ''0'') = 0" by (simp add: radix_value_def)
  show "list_all (radix_digit 10) (replicate n CHR ''0'')" by (simp add: list_all_iff radix_digit_def hexvalue_dec)
qed

lemma strn_to_uint32_digits:
  assumes "0 < base" "base \<le> 16" "ds \<noteq> []" "list_all (radix_digit base) ds" "\<not> radix_digit base (deref rest)"
    and "radix_value base ds < 2 ^ 32"
  shows "strn_to_uint32 (ds @ rest) (length (ds @ rest)) base True = Some (Some (of_nat (radix_value base ds)), rest)"
proof -
  have tw: "takeWhile (radix_digit base) (ds @ rest) = ds"
    using assms(4,5) by (cases rest) (auto simp: list_all_iff takeWhile_append)
  show ?thesis
    using u32.loop_fits [OF assms(1,2), of 0 "Some (length (ds @ rest))" "ds @ rest"] assms
    unfolding strn_to_uint32_def radix_value_def by (simp add: tw Let_def uint_result_def)
qed

lemma digits_at:
  assumes "cursor_at c b k (ds @ rest)" "length ds \<le> avail c"
    and "0 < base" "base \<le> 16" "ds \<noteq> []" "list_all (radix_digit base) ds" "\<not> radix_digit base (deref rest)"
    and "radix_value base ds < 2 ^ 32"
  shows "\<exists>s after c'. preloaded c = Some s \<and> available c = Some (avail c) \<and>
    strn_to_uint32 s (avail c) base True = Some (Some (of_nat (radix_value base ds)), after) \<and>
    advance_to c after = Some c' \<and> cursor_at c' (back_add k b ds) k rest"
proof -
  let ?after = "take (avail c - length ds) rest"
  have ok: "current c \<le> length (buffer c)" using assms(1) by (simp add: cursor_at_def cursor_ok_def)
  have pos: "0 < length ds" using assms(5) by simp
  have s: "drop (current c) (buffer c) = ds @ ?after"
    using cursor_at_text [OF assms(1)] assms(2) by simp
  then have len: "avail c = length (ds @ ?after)" unfolding avail_def by (metis length_drop)
  have "\<not> radix_digit base (deref ?after)"
  proof (cases ?after)
    case (Cons x xs)
    then have "rest \<noteq> []" "x = hd rest" by (cases rest; cases "avail c - length ds"; auto)+
    then show ?thesis using assms(7) Cons by (cases rest) auto
  next
    case Nil
    have "\<not> radix_digit base (deref [])" by (simp add: radix_digit_def hexvalue_def isxdigit_def)
    then show ?thesis unfolding Nil .
  qed
  then have u: "strn_to_uint32 (ds @ ?after) (avail c) base True = Some (Some (of_nat (radix_value base ds)), ?after)"
    by (rule strn_to_uint32_digits [OF assms(3-6) _ assms(8), of ?after, folded len])
  have off: "cursor_offset c ?after = current c + length ds"
    using len ok unfolding cursor_offset_def avail_def length_append by linarith
  have le: "current c + length ds \<le> length (buffer c)" using assms(2) ok unfolding avail_def by linarith
  have "advance_to c ?after = Some (c\<lparr>current := current c + length ds\<rparr>)"
    using le by (simp add: advance_to_def off)
  moreover have "cursor_at (c\<lparr>current := current c + length ds\<rparr>) (back_add k b ds) k rest"
    using cursor_at_advance [OF assms(1,2)] by simp
  moreover have lt: "current c < length (buffer c)" using le pos by linarith
  moreover have "preloaded c = Some (ds @ ?after)" "available c = Some (avail c)"
    using s ok lt by (simp_all add: preloaded_def available_def avail_def)
  ultimately show ?thesis using u by blast
qed

lemma port_at:
  assumes "cursor_at c b k (fmt_mdp_port v @ rest)" "length b + 10 \<le> CURSOR_SIZE" "\<not> radix_digit 16 (deref rest)"
  shows "\<exists>c'. parse_port c = Some (Some v, c') \<and> cursor_at c' (back_add k b (fmt_mdp_port v)) k rest"
proof (cases "v = 0")
  case True
  let ?ds = "replicate 10 CHR ''0''"
  have f: "fmt_mdp_port v = ?ds" using True by (simp add: fmt_mdp_port_digits)
  have np: "\<not> prefix ''0x'' (?ds @ rest)" by (simp add: numeral_eq_Suc)
  obtain c1 where 1: "skip c ''0x'' = Some (False, c1)" "cursor_at c1 b k (?ds @ rest)"
    using skip_at [OF assms(1), of "''0x''"] assms(2) np unfolding f by (auto simp: SID_STRLEN_def SID_SIZE_def)
  have b10: "10 \<le> SID_STRLEN" by (simp add: SID_STRLEN_def SID_SIZE_def)
  from preload_at [OF 1(2) assms(2) this]
  obtain c2 where 2: "preload c1 10 = Some (avail c2, c2)" "cursor_at c2 b k (?ds @ rest)" "10 \<le> avail c2" by auto
  have nd: "\<not> radix_digit 10 (deref rest)" using assms(3) by (auto simp: radix_digit_def)
  obtain s after c3 where 3: "preloaded c2 = Some s" "available c2 = Some (avail c2)"
      "strn_to_uint32 s (avail c2) 10 True = Some (Some 0, after)" "advance_to c2 after = Some c3" "cursor_at c3 (back_add k b ?ds) k rest"
    using digits_at [OF 2(2), of 10] 2(3) nd zero_digits_value [of 10] by auto
  show ?thesis using 1(1) 2(1) 3 True f by (simp add: parse_port_def)
next
  case False
  let ?ds = "port_digits v"
  have f: "fmt_mdp_port v = ''0x'' @ ?ds" using False by (simp add: fmt_mdp_port_digits)
  obtain c1 where 1: "skip c ''0x'' = Some (True, c1)" "cursor_at c1 (back_add k b ''0x'') k (?ds @ rest)"
    using skip_at [OF assms(1), of "''0x''"] assms(2) unfolding f by (auto simp: SID_STRLEN_def SID_SIZE_def)
  have "length (back_add k b ''0x'') + 8 \<le> CURSOR_SIZE" "8 \<le> SID_STRLEN"
    using length_back_add [of k b "''0x''"] assms(2) by (simp_all add: SID_STRLEN_def SID_SIZE_def)
  from preload_at [OF 1(2) this]
  obtain c2 where 2: "preload c1 8 = Some (avail c2, c2)" "cursor_at c2 (back_add k b ''0x'') k (?ds @ rest)" "8 \<le> avail c2"
    by (auto simp: port_digits_value)
  have v: "?ds \<noteq> []" "unat v < 2 ^ 32" using port_digits_value(3) [of v] unsigned_less [of v] by auto
  obtain s after c3 where 3: "preloaded c2 = Some s" "available c2 = Some (avail c2)"
      "strn_to_uint32 s (avail c2) 16 True = Some (Some v, after)" "advance_to c2 after = Some c3" "cursor_at c3 (back_add k b (''0x'' @ ?ds)) k rest"
    using digits_at [OF 2(2), of 16] 2(3) assms(3) port_digits_value [of v] v by auto
  show ?thesis using 1(1) 2(1) 3 False f by (simp add: parse_port_def)
qed

section \<open>Positions in the text\<close>

text \<open>
  For the grammar only the text that follows matters, and, if something is pinned, that no more than
  \<open>n\<close> characters have been kept since, so that the buffer has room for the next preload.
\<close>

definition cursor_in :: "cursor \<Rightarrow> nat \<Rightarrow> nat \<Rightarrow> string \<Rightarrow> bool" where
  "cursor_in c k n r \<longleftrightarrow> (\<exists>b. cursor_at c b k r \<and> (k \<noteq> 0 \<longrightarrow> length b \<le> n))"

definition fits :: "nat \<Rightarrow> nat \<Rightarrow> bool" where
  "fits k n \<longleftrightarrow> (k \<noteq> 0 \<longrightarrow> n + SID_STRLEN \<le> CURSOR_SIZE)"

lemma fits_0 [simp]: "fits 0 n"
  by (simp add: fits_def)

lemma fits_mono: "fits k m \<Longrightarrow> n \<le> m \<Longrightarrow> fits k n"
  by (auto simp: fits_def)

lemma sizes: "SID_STRLEN = 64" "CURSOR_SIZE = 1024"
  by (simp_all add: SID_STRLEN_def SID_SIZE_def CURSOR_SIZE_def)

lemma cursor_inE:
  assumes "cursor_in c k n r" "fits k n"
  obtains b where "cursor_at c b k r" "length b + 64 \<le> CURSOR_SIZE" "k \<noteq> 0 \<longrightarrow> length b \<le> n"
proof -
  obtain b where b: "cursor_at c b k r" "k \<noteq> 0 \<longrightarrow> length b \<le> n" using assms(1) by (auto simp: cursor_in_def)
  have "k = 0 \<Longrightarrow> b = []" using b(1) by (auto simp: cursor_at_def cursor_ok_def cursor_back_def)
  then have "length b + 64 \<le> CURSOR_SIZE" using b(2) assms(2) by (cases "k = 0") (simp_all add: fits_def sizes)
  then show ?thesis using that b by blast
qed

lemma cursor_inI: "cursor_at c b k r \<Longrightarrow> (k \<noteq> 0 \<longrightarrow> length b \<le> n) \<Longrightarrow> cursor_in c k n r"
  by (auto simp: cursor_in_def)

lemma cursor_in_mono: "cursor_in c k n r \<Longrightarrow> n \<le> m \<Longrightarrow> cursor_in c k m r"
  by (auto simp: cursor_in_def)

lemma cursor_in_unpinned: "cursor_in c 0 n r \<Longrightarrow> cursor_in c 0 m r"
  by (simp add: cursor_in_def)

lemma peek_in:
  assumes "cursor_in c k n r" "fits k n"
  shows "\<exists>c'. peek c = Some (if r = [] then EOF else hd r, c') \<and> cursor_in c' k n r \<and> (r \<noteq> [] \<longrightarrow> 0 < avail c')"
proof -
  obtain b where b: "cursor_at c b k r" "length b + 64 \<le> CURSOR_SIZE" "k \<noteq> 0 \<longrightarrow> length b \<le> n" using cursor_inE [OF assms] .
  have "length b < CURSOR_SIZE" using b(2) by simp
  from peek_at [OF b(1) this] show ?thesis using b(3) cursor_inI by blast
qed

lemma eof_in:
  assumes "cursor_in c k n r" "fits k n"
  shows "\<exists>c'. eof c = Some (r = [], c') \<and> cursor_in c' k n r"
proof -
  obtain b where b: "cursor_at c b k r" "length b + 64 \<le> CURSOR_SIZE" "k \<noteq> 0 \<longrightarrow> length b \<le> n" using cursor_inE [OF assms] .
  have "length b < CURSOR_SIZE" using b(2) by simp
  from eof_at [OF b(1) this] show ?thesis using b(3) cursor_inI by blast
qed

lemma next_in:
  assumes "cursor_in c k n (x # r)" "0 < avail c"
  shows "\<exists>c'. cursor_next c = Some c' \<and> cursor_in c' k (n + 1) r"
proof -
  obtain b where b: "cursor_at c b k (x # r)" "k \<noteq> 0 \<longrightarrow> length b \<le> n" using assms(1) by (auto simp: cursor_in_def)
  have "k \<noteq> 0 \<longrightarrow> length (back_add k b [x]) \<le> n + 1" using b(2) by (simp add: back_add_def)
  then show ?thesis using next_at [OF b(1) assms(2)] cursor_inI by blast
qed

lemma skip_in:
  assumes "cursor_in c k n (t @ r)" "fits k n" "length t \<le> 64" "NUL \<notin> set t" "t \<noteq> []"
  shows "\<exists>c'. skip c t = Some (True, c') \<and> cursor_in c' k (n + length t) r"
proof -
  obtain b where b: "cursor_at c b k (t @ r)" "length b + 64 \<le> CURSOR_SIZE" "k \<noteq> 0 \<longrightarrow> length b \<le> n" using cursor_inE [OF assms(1,2)] .
  have "length b + length t \<le> CURSOR_SIZE" "length t \<le> SID_STRLEN" using b(2) assms(3) by (simp_all add: sizes)
  from skip_at [OF b(1) this assms(4,5)]
  obtain c' where "skip c t = Some (True, c')" "cursor_at c' (back_add k b t) k r" by auto
  moreover have "k \<noteq> 0 \<longrightarrow> length (back_add k b t) \<le> n + length t" using b(3) by (simp add: back_add_def)
  ultimately show ?thesis using cursor_inI by blast
qed

lemma skip_in_not:
  assumes "cursor_in c k n r" "fits k n" "length t \<le> 64" "NUL \<notin> set t" "t \<noteq> []" "\<not> prefix t r"
  shows "\<exists>c'. skip c t = Some (False, c') \<and> cursor_in c' k n r \<and> avail c \<le> avail c' \<and> (r \<noteq> [] \<longrightarrow> 0 < avail c')"
proof -
  obtain b where b: "cursor_at c b k r" "length b + 64 \<le> CURSOR_SIZE" "k \<noteq> 0 \<longrightarrow> length b \<le> n" using cursor_inE [OF assms(1,2)] .
  have "length b + length t \<le> CURSOR_SIZE" "length t \<le> SID_STRLEN" using b(2) assms(3) by (simp_all add: sizes)
  from skip_at [OF b(1) this assms(4,5)] assms(6)
  obtain c' where "skip c t = Some (False, c')" "cursor_at c' b k r" "avail c \<le> avail c'" "r \<noteq> [] \<longrightarrow> 0 < avail c'" by auto
  then show ?thesis using b(3) cursor_inI by blast
qed

lemma optspace_in:
  assumes "cursor_in c k n (replicate m CHR '' '' @ r)" "fits k (n + m)" "r = [] \<or> hd r \<noteq> CHR '' ''"
  shows "\<exists>c'. parse_optspace c = Some c' \<and> cursor_in c' k (n + m) r \<and> (r \<noteq> [] \<longrightarrow> 0 < avail c')"
proof -
  have "fits k n" using fits_mono [OF assms(2)] by simp
  then obtain b where b: "cursor_at c b k (replicate m CHR '' '' @ r)" "length b + 64 \<le> CURSOR_SIZE" "k \<noteq> 0 \<longrightarrow> length b \<le> n"
    using cursor_inE [OF assms(1)] by blast
  have "length (back_add k b (replicate m CHR '' '')) < CURSOR_SIZE"
    using b(2,3) assms(2) by (cases "k = 0") (simp_all add: back_add_def fits_def sizes)
  from optspace_at [OF b(1) this assms(3)]
  obtain c' where "parse_optspace c = Some c'" "cursor_at c' (back_add k b (replicate m CHR '' '')) k r" "r \<noteq> [] \<longrightarrow> 0 < avail c'"
    by blast
  moreover have "k \<noteq> 0 \<longrightarrow> length (back_add k b (replicate m CHR '' '')) \<le> n + m" using b(3) by (simp add: back_add_def)
  ultimately show ?thesis using cursor_inI by blast
qed

lemma length_fmt_mdp_port: "length (fmt_mdp_port v) = 10"
  by (simp add: fmt_mdp_port_digits port_digits_value)

lemma port_in:
  assumes "cursor_in c k n (fmt_mdp_port v @ r)" "fits k n" "\<not> radix_digit 16 (deref r)"
  shows "\<exists>c'. parse_port c = Some (Some v, c') \<and> cursor_in c' k (n + 10) r"
proof -
  obtain b where b: "cursor_at c b k (fmt_mdp_port v @ r)" "length b + 64 \<le> CURSOR_SIZE" "k \<noteq> 0 \<longrightarrow> length b \<le> n" using cursor_inE [OF assms(1,2)] .
  have "length b + 10 \<le> CURSOR_SIZE" using b(2) by simp
  from port_at [OF b(1) this assms(3)]
  obtain c' where "parse_port c = Some (Some v, c')" "cursor_at c' (back_add k b (fmt_mdp_port v)) k r" by blast
  moreover have "k \<noteq> 0 \<longrightarrow> length (back_add k b (fmt_mdp_port v)) \<le> n + 10" using b(3) by (simp add: back_add_def length_fmt_mdp_port)
  ultimately show ?thesis using cursor_inI by blast
qed

section \<open>The text of a rule\<close>

definition range_text :: "mdp_portrange \<Rightarrow> string" where
  "range_text r = fmt_mdp_port (port_first r) @ (if port_last r \<noteq> port_first r then ''-'' @ fmt_mdp_port (port_last r) else [])"

definition sid_text :: "subscriber list \<Rightarrow> nat option \<Rightarrow> string" where
  "sid_text subs s = (case s of None \<Rightarrow> ''*'' | Some p \<Rightarrow> hex_of (sid (subs ! p)))"

definition endpoint_text :: "subscriber list \<Rightarrow> nat option \<Rightarrow> bool \<Rightarrow> mdp_portrange \<Rightarrow> string" where
  "endpoint_text subs s has_ports ports = sid_text subs s @ (if has_ports then '':'' @ range_text ports else [])"

definition direction_text :: "byte \<Rightarrow> string" where
  "direction_text f = (if f AND RULE_INBOUND \<noteq> 0 then ''<'' else []) @ (if f AND RULE_OUTBOUND \<noteq> 0 then ''>'' else [])"

definition rule_text :: "subscriber list \<Rightarrow> packet_rule \<Rightarrow> string" where
  "rule_text subs rule = (if rule_flags rule AND RULE_DROP \<noteq> 0 then ''drop '' else ''allow '') @
     (if rule_flags rule AND (RULE_INBOUND OR RULE_OUTBOUND) \<noteq> 0
      then endpoint_text subs (local_subscriber rule) (rule_flags rule AND RULE_LOCAL_PORT \<noteq> 0) (local_ports rule) @ '' '' @
        direction_text (rule_flags rule) @
        endpoint_text subs (remote_subscriber rule) (rule_flags rule AND RULE_REMOTE_PORT \<noteq> 0) (remote_ports rule)
      else ''all'')"

text \<open>What may follow an endpoint: the end of the text, or a character that cannot belong to it.\<close>

definition stops :: "string \<Rightarrow> bool" where
  "stops r \<longleftrightarrow> r = [] \<or> hd r \<notin> {CHR '' '', CHR ''-'', CHR '':''} \<and> \<not> radix_digit 16 (hd r)"

lemma radix_digit_other: "\<not> radix_digit 16 NUL" "\<not> radix_digit 16 CHR '' ''" "\<not> radix_digit 16 CHR ''-''"
  by (simp_all add: radix_digit_def hexvalue_def isxdigit_def)

lemma stops_digit: "stops r \<Longrightarrow> \<not> radix_digit 16 (deref (replicate m CHR '' '' @ r))"
  by (cases m; cases r) (simp_all add: stops_def radix_digit_other)

lemma stops_space: "stops r \<Longrightarrow> r = [] \<or> hd r \<noteq> CHR '' ''"
  by (auto simp: stops_def)

lemma portrange_in:
  assumes "cursor_in c k n (range_text ports @ replicate m CHR '' '' @ r)" "fits k (n + 21 + m)" "stops r"
  shows "\<exists>c' j. parse_portrange c rg = Some (True, ports, c') \<and> j \<le> m \<and> cursor_in c' k (n + 21 + m) (replicate j CHR '' '' @ r)"
proof (cases "port_last ports = port_first ports")
  case True
  have f: "fits k n" "fits k (n + 10 + m)" using fits_mono [OF assms(2)] by auto
  have t: "cursor_in c k n (fmt_mdp_port (port_first ports) @ replicate m CHR '' '' @ r)" using assms(1) True by (simp add: range_text_def)
  obtain c1 where 1: "parse_port c = Some (Some (port_first ports), c1)" "cursor_in c1 k (n + 10) (replicate m CHR '' '' @ r)"
    using port_in [OF t f(1) stops_digit [OF assms(3)]] by blast
  obtain c2 where 2: "parse_optspace c1 = Some c2" "cursor_in c2 k (n + 10 + m) r" using optspace_in [OF 1(2) f(2) stops_space [OF assms(3)]] by blast
  obtain c3 where 3: "peek c2 = Some (if r = [] then EOF else hd r, c3)" "cursor_in c3 k (n + 10 + m) r" using peek_in [OF 2(2) f(2)] by blast
  have "(if r = [] then EOF else hd r) \<noteq> CHR ''-''" using assms(3) by (auto simp: stops_def)
  then have "parse_portrange c rg = Some (True, ports, c3)" using 1(1) 2(1) 3(1) True by (simp add: parse_portrange_def)
  moreover have "cursor_in c3 k (n + 21 + m) (replicate 0 CHR '' '' @ r)" using cursor_in_mono [OF 3(2)] by simp
  ultimately show ?thesis by blast
next
  case False
  have f: "fits k n" "fits k (n + 10 + 0)" "fits k (n + 10)" "fits k (n + 11 + 0)" "fits k (n + 11)" using fits_mono [OF assms(2)] by auto
  let ?t2 = "fmt_mdp_port (port_last ports) @ replicate m CHR '' '' @ r"
  have t: "cursor_in c k n (fmt_mdp_port (port_first ports) @ CHR ''-'' # ?t2)" using assms(1) False by (simp add: range_text_def)
  obtain c1 where 1: "parse_port c = Some (Some (port_first ports), c1)" "cursor_in c1 k (n + 10) (replicate 0 CHR '' '' @ CHR ''-'' # ?t2)"
    using port_in [OF t f(1)] by (auto simp: radix_digit_other)
  obtain c2 where 2: "parse_optspace c1 = Some c2" "cursor_in c2 k (n + 10) (CHR ''-'' # ?t2)"
    using optspace_in [OF 1(2) f(2)] by auto
  obtain c3 where 3: "peek c2 = Some (CHR ''-'', c3)" "cursor_in c3 k (n + 10) (CHR ''-'' # ?t2)" "0 < avail c3"
    using peek_in [OF 2(2) f(3)] by auto
  obtain c4 where 4: "cursor_next c3 = Some c4" "cursor_in c4 k (n + 10 + 1) ?t2" using next_in [OF 3(2,3)] by blast
  have hd2: "?t2 = [] \<or> hd ?t2 \<noteq> CHR '' ''" by (simp add: fmt_mdp_port_digits)
  obtain c5 where 5: "parse_optspace c4 = Some c5" "cursor_in c5 k (n + 11) ?t2" using optspace_in [of c4 k "n + 11" 0 ?t2] 4(2) f(4) hd2 by (auto simp: add.commute)
  obtain c6 where 6: "parse_port c5 = Some (Some (port_last ports), c6)" "cursor_in c6 k (n + 11 + 10) (replicate m CHR '' '' @ r)"
    using port_in [OF 5(2) f(5) stops_digit [OF assms(3)]] by blast
  have "parse_portrange c rg = Some (True, ports, c6)"
    using 1(1) 2(1) 3(1) 4(1) 5(1) 6(1) by (simp add: parse_portrange_def)
  moreover have "cursor_in c6 k (n + 21 + m) (replicate m CHR '' '' @ r)" using cursor_in_mono [OF 6(2)] by simp
  ultimately show ?thesis by blast
qed

lemma hex_of_not_letter: "x \<in> set (hex_of bs) \<Longrightarrow> x \<in> set hexdigit_upper"
proof -
  have len: "length hexdigit_upper = 16" by (simp add: hexdigit_upper_def)
  have "hexdigit_upper ! unat (drop_bit 4 b) \<in> set hexdigit_upper" "hexdigit_upper ! unat (b AND 0xf) \<in> set hexdigit_upper" for b :: byte
    using nibbles(1,2) [of b] len nth_mem [of _ hexdigit_upper] by simp_all
  then show "x \<in> set (hex_of bs) \<Longrightarrow> ?thesis" by (auto simp: hex_of_def)
qed

lemma hd_hex_of:
  assumes "length (hex_of bs) = 64"
  shows "hex_of bs \<noteq> []" "hd (hex_of bs) \<in> set hexdigit_upper"
proof -
  show "hex_of bs \<noteq> []" using assms by (metis list.size(3) zero_neq_numeral)
  then show "hd (hex_of bs) \<in> set hexdigit_upper" using hex_of_not_letter hd_in_set by blast
qed

lemma toupper_hex_of: "map toupper (hex_of bs) = hex_of bs"
proof (rule map_idI)
  have "\<forall>x \<in> set hexdigit_upper. toupper x = x" by code_simp
  then show "toupper x = x" if "x \<in> set (hex_of bs)" for x using hex_of_not_letter [OF that] by blast
qed

lemma parse_sid_t_hex_of:
  assumes "length bs = SID_SIZE"
  shows "parse_sid_t (hex_of bs) 64 True = Some (bs, [])"
proof -
  have len: "length (hex_of bs) = 64" using assms by (simp add: hex_of_length SID_SIZE_def)
  have "hd (hex_of bs) \<in> set hexdigit_upper" using hd_hex_of(2) [OF len] .
  then have "hd (hex_of bs) \<noteq> CHR ''b''" by (auto simp: hexdigit_upper_def)
  then have "strn_startswith (hex_of bs) 64 ''broadcast'' = None" using len by (cases "hex_of bs") auto
  then have "parse_sid_t (hex_of bs) 64 True = parse_hex_t SID_SIZE (hex_of bs) 64 True" by (rule parse_sid_t_hex)
  also have "fromhex (hex_of bs) SID_SIZE = Some bs"
    unfolding fromhex_eq_Some using assms toupper_hex_of [of bs] by (intro conjI exI [of _ "hex_of bs"] exI [of _ "[]"]) auto
  then have "parse_hex_t SID_SIZE (hex_of bs) 64 True = Some (bs, [])"
    using len by (simp add: parse_hex_t_def SID_SIZE_def)
  finally show ?thesis .
qed

definition subscriber_ok :: "subscriber_state \<Rightarrow> nat option \<Rightarrow> bool" where
  "subscriber_ok st s \<longleftrightarrow> (\<forall>p. s = Some p \<longrightarrow> p < length (subscribers st))"

lemma sidany_in:
  assumes "cursor_in c k n (sid_text (subscribers st) s @ r)" "fits k n" "tree_wf st" "subscriber_ok st s"
  shows "\<exists>c'. parse_sidany mem s0 c st = Some (True, s, c', st) \<and> cursor_in c' k (n + 64) r"
proof -
  obtain b where b: "cursor_at c b k (sid_text (subscribers st) s @ r)" "length b + 64 \<le> CURSOR_SIZE" "k \<noteq> 0 \<longrightarrow> length b \<le> n"
    using cursor_inE [OF assms(1,2)] .
  have 64: "length b + SID_STRLEN \<le> CURSOR_SIZE" "SID_STRLEN \<le> SID_STRLEN" using b(2) by (simp_all add: sizes)
  from preload_at [OF b(1) this]
  obtain c1 where 1: "preload c SID_STRLEN = Some (avail c1, c1)" "cursor_at c1 b k (sid_text (subscribers st) s @ r)"
      "avail c1 = max (avail c) (min 64 (length (sid_text (subscribers st) s @ r)))"
    by (auto simp: sizes)
  have in1: "cursor_in c1 k n (sid_text (subscribers st) s @ r)" using cursor_inI [OF 1(2) b(3)] .
  show ?thesis
  proof (cases s)
    case None
    have "cursor_in c1 k n (''*'' @ r)" using in1 None by (simp add: sid_text_def)
    from skip_in [OF this assms(2)]
    obtain c2 where "skip c1 ''*'' = Some (True, c2)" "cursor_in c2 k (n + 1) r" by auto
    then show ?thesis using 1(1) None cursor_in_mono [of c2 k "n + 1" r "n + 64"] by (auto simp: parse_sidany_def)
  next
    case (Some p)
    let ?id = "sid (subscribers st ! p)"
    have p: "p < length (subscribers st)" using assms(4) Some by (simp add: subscriber_ok_def)
    have len: "length ?id = SID_SIZE" by (rule tree_wf_sid [OF assms(3) p])
    have hl: "length (hex_of ?id) = 64" using len by (simp add: hex_of_length SID_SIZE_def)
    have t: "cursor_in c1 k n (hex_of ?id @ r)" using in1 Some by (simp add: sid_text_def)
    have av1: "64 \<le> avail c1" using 1(3) Some hl by (simp add: sid_text_def)
    have "hd (hex_of ?id) \<in> set hexdigit_upper" using hd_hex_of(2) [OF hl] .
    then have "hd (hex_of ?id) \<noteq> CHR ''*''" by (auto simp: hexdigit_upper_def)
    then have np: "\<not> prefix ''*'' (hex_of ?id @ r)" using hl by (cases "hex_of ?id") auto
    obtain c2 where 2: "skip c1 ''*'' = Some (False, c2)" "cursor_in c2 k n (hex_of ?id @ r)" "avail c1 \<le> avail c2"
      using skip_in_not [OF t assms(2) _ _ _ np] by auto
    obtain b2 where b2: "cursor_at c2 b2 k (hex_of ?id @ r)" "k \<noteq> 0 \<longrightarrow> length b2 \<le> n" using cursor_inE [OF 2(2) assms(2)] by blast
    have av2: "avail c2 = 64" using 2(3) av1 b2(1) by (simp add: cursor_at_def sizes)
    have ok: "current c2 \<le> length (buffer c2)" using b2(1) by (simp add: cursor_at_def cursor_ok_def)
    have end2: "length (buffer c2) = current c2 + 64" using av2 ok unfolding avail_def by linarith
    have "drop (current c2) (buffer c2) = hex_of ?id" using cursor_at_text [OF b2(1)] av2 hl by simp
    then have pre: "preloaded c2 = Some (hex_of ?id)" "available c2 = Some 64"
      using end2 by (simp_all add: preloaded_def available_def)
    have find: "find_subscriber mem ?id SID_SIZE True st = Some (Some p, st)"
      using find_subscriber_found [OF assms(3) p, of SID_SIZE mem True] abbreviate_len_bound [OF assms(3) p] len by (simp add: SID_SIZE_def)
    have adv: "advance_to c2 [] = Some (c2\<lparr>current := current c2 + 64\<rparr>)" using end2 by (simp add: advance_to_def cursor_offset_def)
    have "parse_sidany mem s0 c st = Some (True, s, c2\<lparr>current := current c2 + 64\<rparr>, st)"
      using 1(1) 2(1) pre parse_sid_t_hex_of [OF len] find adv Some by (simp add: parse_sidany_def)
    moreover have "cursor_in (c2\<lparr>current := current c2 + 64\<rparr>) k (n + 64) r"
    proof (rule cursor_inI)
      show "cursor_at (c2\<lparr>current := current c2 + 64\<rparr>) (back_add k b2 (hex_of ?id)) k r"
        using cursor_at_advance [OF b2(1), of "length (hex_of ?id)"] av2 unfolding hl by (simp add: hl take_all_iff [THEN iffD2] del: hex_of_length)
      show "k \<noteq> 0 \<longrightarrow> length (back_add k b2 (hex_of ?id)) \<le> n + 64" using b2(2) hl by (simp add: back_add_def)
    qed
    ultimately show ?thesis by blast
  qed
qed

lemma endpoint_in:
  assumes "cursor_in c k n (endpoint_text (subscribers st) s has_ports ports @ replicate m CHR '' '' @ r)" "fits k (n + 86 + m)"
    and "tree_wf st" "subscriber_ok st s" "stops r"
  shows "\<exists>c' j. parse_endpoint mem pf f s0 ports0 c st = Some (True, if has_ports then f OR pf else f, s, if has_ports then ports else ports0, c', st) \<and>
    j \<le> m \<and> cursor_in c' k (n + 86 + m) (replicate j CHR '' '' @ r)"
proof -
  have f: "fits k n" "fits k (n + 64 + m)" "fits k (n + 64 + 0)" "fits k (n + 64)" "fits k (n + 65)" "fits k (n + 65 + 0)" "fits k (n + 65 + 21 + m)"
    using fits_mono [OF assms(2)] by auto
  let ?tail = "(if has_ports then '':'' @ range_text ports else []) @ replicate m CHR '' '' @ r"
  have "cursor_in c k n (sid_text (subscribers st) s @ ?tail)" using assms(1) by (simp add: endpoint_text_def)
  from sidany_in [OF this f(1) assms(3,4)]
  obtain c1 where 1: "parse_sidany mem s0 c st = Some (True, s, c1, st)" "cursor_in c1 k (n + 64) ?tail" by blast
  show ?thesis
  proof (cases has_ports)
    case False
    obtain c2 where 2: "parse_optspace c1 = Some c2" "cursor_in c2 k (n + 64 + m) r"
      using optspace_in [OF _ f(2) stops_space [OF assms(5)], of c1] 1(2) False by auto
    obtain c3 where 3: "peek c2 = Some (if r = [] then EOF else hd r, c3)" "cursor_in c3 k (n + 64 + m) r" using peek_in [OF 2(2) f(2)] by blast
    have "(if r = [] then EOF else hd r) \<noteq> CHR '':''" using assms(5) by (auto simp: stops_def)
    then have "parse_endpoint mem pf f s0 ports0 c st = Some (True, f, s, ports0, c3, st)"
      using 1(1) 2(1) 3(1) by (simp add: parse_endpoint_def)
    moreover have "cursor_in c3 k (n + 86 + m) (replicate 0 CHR '' '' @ r)" using cursor_in_mono [OF 3(2)] by simp
    ultimately show ?thesis using False by fastforce
  next
    case True
    let ?t = "range_text ports @ replicate m CHR '' '' @ r"
    have t: "cursor_in c1 k (n + 64) (replicate 0 CHR '' '' @ CHR '':'' # ?t)" using 1(2) True by simp
    obtain c2 where 2: "parse_optspace c1 = Some c2" "cursor_in c2 k (n + 64) (CHR '':'' # ?t)" using optspace_in [OF t f(3)] by auto
    obtain c3 where 3: "peek c2 = Some (CHR '':'', c3)" "cursor_in c3 k (n + 64) (CHR '':'' # ?t)" "0 < avail c3"
      using peek_in [OF 2(2) f(4)] by auto
    obtain c4 where 4: "cursor_next c3 = Some c4" "cursor_in c4 k (n + 64 + 1) ?t" using next_in [OF 3(2,3)] by blast
    have hd: "?t = [] \<or> hd ?t \<noteq> CHR '' ''" by (simp add: range_text_def fmt_mdp_port_digits)
    obtain c5 where 5: "parse_optspace c4 = Some c5" "cursor_in c5 k (n + 65) ?t"
      using optspace_in [of c4 k "n + 65" 0 ?t] 4(2) f(6) hd by (auto simp: add.commute)
    obtain c6 j where 6: "parse_portrange c5 ports0 = Some (True, ports, c6)" "j \<le> m"
        "cursor_in c6 k (n + 65 + 21 + m) (replicate j CHR '' '' @ r)"
      using portrange_in [OF 5(2) f(7) assms(5)] by blast
    have "parse_endpoint mem pf f s0 ports0 c st = Some (True, f OR pf, s, ports, c6, st)"
      using 1(1) 2(1) 3(1) 4(1) 5(1) 6(1) by (simp add: parse_endpoint_def)
    moreover have "cursor_in c6 k (n + 86 + m) (replicate j CHR '' '' @ r)" using cursor_in_mono [OF 6(3)] by simp
    ultimately show ?thesis using True 6(2) by auto
  qed
qed

section \<open>Flags\<close>

definition flag_byte :: "bool \<Rightarrow> bool \<Rightarrow> bool \<Rightarrow> bool \<Rightarrow> bool \<Rightarrow> byte" where
  "flag_byte d i ou l r = (if d then 1 else 0) OR (if i then 2 else 0) OR (if ou then 4 else 0) OR (if l then 8 else 0) OR (if r then 16 else 0)"

lemma flag_byte_eq: "f < 32 \<Longrightarrow> f = flag_byte (f AND 1 \<noteq> 0) (f AND 2 \<noteq> 0) (f AND 4 \<noteq> 0) (f AND 8 \<noteq> 0) (f AND 16 \<noteq> 0)" for f :: byte
proof -
  have all: "list_all (\<lambda>f :: byte. f = flag_byte (f AND 1 \<noteq> 0) (f AND 2 \<noteq> 0) (f AND 4 \<noteq> 0) (f AND 8 \<noteq> 0) (f AND 16 \<noteq> 0)) (map of_nat [0..<32])"
    by code_simp
  assume "f < 32"
  then have "unat f \<in> set [0..<32]" by (simp add: word_less_nat_alt)
  then have m: "of_nat (unat f) \<in> set (map of_nat [0..<32] :: byte list)" unfolding set_map by (rule imageI)
  have e: "of_nat (unat f) = f" by simp
  show ?thesis using all m [unfolded e] unfolding list_all_iff by blast
qed

lemma flag_byte_tests [simp]:
  "flag_byte d i ou l r AND 1 = (if d then 1 else 0)" "flag_byte d i ou l r AND 2 = (if i then 2 else 0)"
  "flag_byte d i ou l r AND 4 = (if ou then 4 else 0)" "flag_byte d i ou l r AND 8 = (if l then 8 else 0)"
  "flag_byte d i ou l r AND 16 = (if r then 16 else 0)" "flag_byte d i ou l r AND 6 = (if i then 2 else 0) OR (if ou then 4 else 0)"
  "flag_byte d i ou l r < 32"
  by (cases d; cases i; cases ou; cases l; cases r; simp add: flag_byte_def)+

lemma flag_byte_updates [simp]:
  "flag_byte d i ou l r OR 1 = flag_byte True i ou l r" "flag_byte d i ou l r OR 2 = flag_byte d True ou l r"
  "flag_byte d i ou l r OR 4 = flag_byte d i True l r" "flag_byte d i ou l r OR 8 = flag_byte d i ou True r"
  "flag_byte d i ou l r OR 16 = flag_byte d i ou l True" "flag_byte d i ou l r AND - 7 = flag_byte d False False l r"
  by (cases d; cases i; cases ou; cases l; cases r; simp add: flag_byte_def)+

lemma flag_byte_inj: "flag_byte d i ou l r = flag_byte d' i' ou' l' r' \<longleftrightarrow> d = d' \<and> i = i' \<and> ou = ou' \<and> l = l' \<and> r = r'"
proof
  assume eq: "flag_byte d i ou l r = flag_byte d' i' ou' l' r'"
  show "d = d' \<and> i = i' \<and> ou = ou' \<and> l = l' \<and> r = r'"
    using arg_cong [OF eq, of "\<lambda>f. f AND 1"] arg_cong [OF eq, of "\<lambda>f. f AND 2"] arg_cong [OF eq, of "\<lambda>f. f AND 4"]
      arg_cong [OF eq, of "\<lambda>f. f AND 8"] arg_cong [OF eq, of "\<lambda>f. f AND 16"] by (simp split: if_splits)
qed simp

lemma flag_byte_zero: "0 = flag_byte False False False False False"
  by (simp add: flag_byte_def)

lemma in_or_out: "RULE_INBOUND OR RULE_OUTBOUND = 6" "NOT (RULE_INBOUND OR RULE_OUTBOUND) = - 7"
  by (simp_all add: rule_flag_defs)

text \<open>
  The rules that the parser makes: only the five flags, known subscribers, and fields that are zero where
  the flags say that they do not matter.
\<close>

definition rule_ok :: "subscriber_state \<Rightarrow> packet_rule \<Rightarrow> bool" where
  "rule_ok st rule \<longleftrightarrow> rule_flags rule < 32 \<and> subscriber_ok st (local_subscriber rule) \<and> subscriber_ok st (remote_subscriber rule) \<and>
     (rule_flags rule AND (RULE_INBOUND OR RULE_OUTBOUND) = 0 \<longrightarrow> rule = rule_zero\<lparr>rule_flags := rule_flags rule AND RULE_DROP\<rparr>) \<and>
     (rule_flags rule AND RULE_LOCAL_PORT = 0 \<longrightarrow> local_ports rule = local_ports rule_zero) \<and>
     (rule_flags rule AND RULE_REMOTE_PORT = 0 \<longrightarrow> remote_ports rule = remote_ports rule_zero)"

section \<open>Parsing a printed rule\<close>

lemma direction_in:
  assumes "cursor_in c 0 n (direction_text (flag_byte d' i ou l' r') @ t)" "t = [] \<or> hd t \<noteq> CHR ''<'' \<and> hd t \<noteq> CHR ''>''"
  shows "\<exists>c'. parse_direction (flag_byte d i0 o0 l r) c = Some (i \<or> ou, flag_byte d i ou l r, c') \<and> cursor_in c' 0 0 t"
proof -
  let ?t2 = "(if ou then ''>'' else []) @ t"
  have tx: "cursor_in c 0 n ((if i then ''<'' else []) @ ?t2)" using assms(1) by (cases i; cases ou; simp add: direction_text_def rule_flag_defs)
  have "\<exists>c1. skip c ''<'' = Some (i, c1) \<and> cursor_in c1 0 0 ?t2"
  proof (cases i)
    case True
    then show ?thesis using skip_in [of c 0 n "''<''" ?t2] tx by (auto intro: cursor_in_unpinned)
  next
    case False
    have "\<not> prefix ''<'' ?t2" using assms(2) by (cases t) auto
    then show ?thesis using skip_in_not [of c 0 n ?t2 "''<''"] tx False by (auto intro: cursor_in_unpinned)
  qed
  then obtain c1 where 1: "skip c ''<'' = Some (i, c1)" "cursor_in c1 0 0 ?t2" by blast
  have "\<exists>c2. skip c1 ''>'' = Some (ou, c2) \<and> cursor_in c2 0 0 t"
  proof (cases ou)
    case True
    then show ?thesis using skip_in [of c1 0 0 "''>''" t] 1(2) by (auto intro: cursor_in_unpinned)
  next
    case False
    have "\<not> prefix ''>'' t" using assms(2) by (cases t) auto
    then show ?thesis using skip_in_not [of c1 0 0 t "''>''"] 1(2) False by auto
  qed
  then obtain c2 where 2: "skip c1 ''>'' = Some (ou, c2)" "cursor_in c2 0 0 t" by blast
  have "parse_direction (flag_byte d i0 o0 l r) c = Some (i \<or> ou, flag_byte d i ou l r, c2)"
    using 1(1) 2(1) by (cases i; cases ou; simp add: parse_direction_def in_or_out Let_def; simp add: rule_flag_defs)
  then show ?thesis using 2(2) by blast
qed

lemma pin_in:
  assumes "cursor_in c 0 n r" "0 < avail c"
  shows "\<exists>c'. cursor_pin c = Some (0, c') \<and> cursor_in c' 1 0 r"
proof -
  have c: "cursor_ok c" "pins c = 0" "cursor_rest c = r" "avail c \<le> SID_STRLEN" using assms(1) by (auto simp: cursor_in_def cursor_at_def)
  then have "cursor_pin c = Some (0, c\<lparr>pin := Some (current c), pins := 1\<rparr>)"
    using assms(2) by (simp add: cursor_pin_def cursor_ok_def avail_def)
  moreover have "cursor_at (c\<lparr>pin := Some (current c), pins := 1\<rparr>) [] 1 r"
    using c by (simp add: cursor_at_def cursor_ok_def cursor_back_def cursor_rest_def avail_def)
  ultimately show ?thesis using cursor_inI by fastforce
qed

lemma unpin_in:
  assumes "cursor_in c 1 n r"
  shows "\<exists>c'. cursor_unpin c 0 = Some c' \<and> cursor_in c' 0 0 r"
proof -
  have c: "cursor_ok c" "pins c = 1" "cursor_rest c = r" "avail c \<le> SID_STRLEN" using assms by (auto simp: cursor_in_def cursor_at_def)
  then obtain q where q: "pin c = Some q" "q \<le> current c" by (cases "pin c") (auto simp: cursor_ok_def)
  then have "cursor_unpin c 0 = Some (c\<lparr>pins := 0, pin := None\<rparr>)" using c by (simp add: cursor_unpin_def cursor_ok_def)
  moreover have "cursor_at (c\<lparr>pins := 0, pin := None\<rparr>) [] 0 r"
    using c by (simp add: cursor_at_def cursor_ok_def cursor_back_def cursor_rest_def avail_def)
  ultimately show ?thesis using cursor_inI by fastforce
qed

lemma endpoint_text_hd:
  assumes "tree_wf st" "subscriber_ok st s"
  shows "endpoint_text (subscribers st) s hp ports \<noteq> []" "hd (endpoint_text (subscribers st) s hp ports @ t) \<in> insert CHR ''*'' (set hexdigit_upper)"
proof -
  have "sid_text (subscribers st) s \<noteq> [] \<and> hd (sid_text (subscribers st) s) \<in> insert CHR ''*'' (set hexdigit_upper)"
  proof (cases s)
    case (Some p)
    have "length (hex_of (sid (subscribers st ! p))) = 64"
      using tree_wf_sid [OF assms(1), of p] assms(2) Some by (simp add: subscriber_ok_def SID_SIZE_def)
    from hd_hex_of [OF this] show ?thesis using Some by (auto simp: sid_text_def)
  qed (simp add: sid_text_def)
  then show "endpoint_text (subscribers st) s hp ports \<noteq> []" "hd (endpoint_text (subscribers st) s hp ports @ t) \<in> insert CHR ''*'' (set hexdigit_upper)"
    by (auto simp: endpoint_text_def hd_append)
qed

lemma endpoint_chars: "x \<in> insert CHR ''*'' (set hexdigit_upper) \<Longrightarrow> x \<noteq> CHR '' '' \<and> x \<noteq> CHR ''a'' \<and> x \<noteq> CHR ''<'' \<and> x \<noteq> CHR ''>''"
  by (auto simp: hexdigit_upper_def)

lemma direction_stops: "i \<or> ou \<Longrightarrow> stops (direction_text (flag_byte d i ou l r) @ t)"
  by (cases i; cases ou) (simp_all add: direction_text_def stops_def rule_flag_defs radix_digit_def hexvalue_def isxdigit_def)

lemma pattern_in:
  assumes c: "cursor_in c 0 n (endpoint_text (subscribers st) ls l lp @ '' '' @ direction_text (flag_byte d i ou l r) @
      endpoint_text (subscribers st) rs r rp @ replicate m CHR '' '' @ t)" "0 < avail c"
    and ok: "tree_wf st" "subscriber_ok st ls" "subscriber_ok st rs" "stops t" "i \<or> ou"
  shows "\<exists>c' j. parse_pattern mem (rule_zero\<lparr>rule_flags := flag_byte d False False False False\<rparr>) c st =
      Some (True, \<lparr>local_subscriber = ls, remote_subscriber = rs, local_ports = if l then lp else local_ports rule_zero,
        remote_ports = if r then rp else remote_ports rule_zero, rule_flags = flag_byte d i ou l r\<rparr>, c', st) \<and>
    cursor_in c' 0 0 (replicate j CHR '' '' @ t)"
proof -
  let ?ep2 = "endpoint_text (subscribers st) rs r rp @ replicate m CHR '' '' @ t"
  let ?dir = "direction_text (flag_byte d i ou l r) @ ?ep2"
  let ?ep1 = "endpoint_text (subscribers st) ls l lp @ replicate 1 CHR '' '' @ ?dir"
  have hd2: "hd ?ep2 \<noteq> CHR '' ''" "hd ?ep2 \<noteq> CHR ''<''" "hd ?ep2 \<noteq> CHR ''>''"
    using endpoint_chars [OF endpoint_text_hd(2) [OF ok(1,3)]] by auto
  have "cursor_in c 0 n ?ep1" using c(1) by simp
  from pin_in [OF this c(2)] obtain c1 where 1: "cursor_pin c = Some (0, c1)" "cursor_in c1 1 0 ?ep1" by blast
  have fit: "fits 1 (0 + 86 + 1)" by (simp add: fits_def sizes)
  have st: "stops ?dir" by (rule direction_stops [OF ok(5)])
  obtain c2 j where 2: "parse_endpoint mem RULE_LOCAL_PORT (flag_byte d False False False False) None (local_ports rule_zero) c1 st =
        Some (True, if l then flag_byte d False False False False OR RULE_LOCAL_PORT else flag_byte d False False False False, ls,
          if l then lp else local_ports rule_zero, c2, st)"
      "cursor_in c2 1 (0 + 86 + 1) (replicate j CHR '' '' @ ?dir)"
    using endpoint_in [OF 1(2) fit ok(1,2) st] by blast
  have fl: "(if l then flag_byte d False False False False OR RULE_LOCAL_PORT else flag_byte d False False False False) = flag_byte d False False l False"
    by (cases l) (simp_all add: rule_flag_defs)
  obtain c3 where 3: "cursor_unpin c2 0 = Some c3" "cursor_in c3 0 0 (replicate j CHR '' '' @ ?dir)" using unpin_in [OF 2(2)] by blast
  obtain c4 where 4: "parse_optspace c3 = Some c4" "cursor_in c4 0 (0 + j) ?dir"
    using optspace_in [OF 3(2) fits_0 stops_space [OF st]] by blast
  obtain c5 where 5: "parse_direction (flag_byte d False False l False) c4 = Some (i \<or> ou, flag_byte d i ou l False, c5)" "cursor_in c5 0 0 ?ep2"
    using direction_in [OF 4(2)] hd2(2,3) by blast
  obtain c6 where 6: "parse_optspace c5 = Some c6" "cursor_in c6 0 0 ?ep2"
    using optspace_in [of c5 0 0 0 ?ep2] 5(2) hd2(1) by auto
  obtain c7 j' where 7: "parse_endpoint mem RULE_REMOTE_PORT (flag_byte d i ou l False) None (remote_ports rule_zero) c6 st =
        Some (True, if r then flag_byte d i ou l False OR RULE_REMOTE_PORT else flag_byte d i ou l False, rs,
          if r then rp else remote_ports rule_zero, c7, st)"
      "cursor_in c7 0 (0 + 86 + m) (replicate j' CHR '' '' @ t)"
    using endpoint_in [OF 6(2) fits_0 ok(1,3,4)] by blast
  have fl2: "(if r then flag_byte d i ou l False OR RULE_REMOTE_PORT else flag_byte d i ou l False) = flag_byte d i ou l r"
    by (cases r) (simp_all add: rule_flag_defs)
  have "parse_pattern mem (rule_zero\<lparr>rule_flags := flag_byte d False False False False\<rparr>) c st =
      Some (True, \<lparr>local_subscriber = ls, remote_subscriber = rs, local_ports = if l then lp else local_ports rule_zero,
        remote_ports = if r then rp else remote_ports rule_zero, rule_flags = flag_byte d i ou l r\<rparr>, c7, st)"
    using 1(1) 2(1) [unfolded fl] 3(1) 4(1) 5(1) 6(1) 7(1) [unfolded fl2] ok(5) by (simp add: parse_pattern_def Let_def rule_zero_def)
  moreover have "cursor_in c7 0 0 (replicate j' CHR '' '' @ t)" using 7(2) cursor_in_unpinned by blast
  ultimately show ?thesis by blast
qed

lemma verb_in:
  assumes "cursor_in c 0 n ((if d then ''drop '' else ''allow '') @ t)"
  shows "\<exists>c'. parse_verb rule_zero c = Some (True, rule_zero\<lparr>rule_flags := flag_byte d False False False False\<rparr>, c') \<and> cursor_in c' 0 0 ('' '' @ t)"
proof (cases d)
  case True
  have np: "\<not> prefix ''allow'' (''drop'' @ '' '' @ t)" by simp
  have tx: "cursor_in c 0 n (''drop'' @ '' '' @ t)" using assms True by simp
  obtain c1 where 1: "skip c ''allow'' = Some (False, c1)" "cursor_in c1 0 n (''drop'' @ '' '' @ t)"
    using skip_in_not [OF tx fits_0 _ _ _ np] by auto
  obtain c2 where 2: "skip c1 ''drop'' = Some (True, c2)" "cursor_in c2 0 (n + length ''drop'') ('' '' @ t)"
    using skip_in [OF 1(2) fits_0] by auto
  have "rule_zero\<lparr>rule_flags := rule_flags rule_zero OR RULE_DROP\<rparr> = rule_zero\<lparr>rule_flags := flag_byte d False False False False\<rparr>"
    using True by (simp add: rule_zero_def flag_byte_def rule_flag_defs)
  then show ?thesis using 1(1) 2 cursor_in_unpinned [OF 2(2)] by (simp add: parse_verb_def)
next
  case False
  have tx: "cursor_in c 0 n (''allow'' @ '' '' @ t)" using assms False by simp
  obtain c1 where 1: "skip c ''allow'' = Some (True, c1)" "cursor_in c1 0 (n + length ''allow'') ('' '' @ t)"
    using skip_in [OF tx fits_0] by auto
  have "rule_zero = rule_zero\<lparr>rule_flags := flag_byte d False False False False\<rparr>"
    using False by (simp add: rule_zero_def flag_byte_def)
  then show ?thesis using 1 cursor_in_unpinned [OF 1(2)] by (simp add: parse_verb_def)
qed

lemma rule_ok_flags:
  assumes "rule_ok st rule"
  obtains d i ou l r where "rule_flags rule = flag_byte d i ou l r"
    "\<not> (i \<or> ou) \<longrightarrow> rule = rule_zero\<lparr>rule_flags := flag_byte d False False False False\<rparr>"
    "\<not> l \<longrightarrow> local_ports rule = local_ports rule_zero" "\<not> r \<longrightarrow> remote_ports rule = remote_ports rule_zero"
proof -
  obtain d i ou l r where f: "rule_flags rule = flag_byte d i ou l r"
    using assms flag_byte_eq unfolding rule_ok_def by blast
  have drop: "flag_byte d i ou l r AND RULE_DROP = flag_byte d False False False False"
    by (simp add: rule_flag_defs) (simp add: flag_byte_def)
  have "\<not> (i \<or> ou) \<longrightarrow> rule = rule_zero\<lparr>rule_flags := flag_byte d False False False False\<rparr>"
    using assms unfolding rule_ok_def f drop in_or_out by simp
  moreover have "\<not> l \<longrightarrow> local_ports rule = local_ports rule_zero" "\<not> r \<longrightarrow> remote_ports rule = remote_ports rule_zero"
    using assms unfolding rule_ok_def f by (simp_all add: rule_flag_defs)
  ultimately show ?thesis using that f by blast
qed

lemma rule_text_flags:
  assumes "rule_flags rule = flag_byte d i ou l r"
  shows "rule_text subs rule = (if d then ''drop '' else ''allow '') @
    (if i \<or> ou then endpoint_text subs (local_subscriber rule) l (local_ports rule) @ '' '' @ direction_text (flag_byte d i ou l r) @
       endpoint_text subs (remote_subscriber rule) r (remote_ports rule) else ''all'')"
  unfolding rule_text_def assms in_or_out
  by (cases d; cases i; cases ou; cases l; cases r; simp add: rule_flag_defs)

lemma rule_in:
  assumes c: "cursor_in c 0 n (rule_text (subscribers st) rule @ replicate m CHR '' '' @ t)"
    and ok: "tree_wf st" "rule_ok st rule" "mem (mallocs st)" "stops t"
  shows "\<exists>c' j. parse_rule mem c st = Some (1, Some rule, c', st\<lparr>mallocs := mallocs st + 1\<rparr>) \<and> cursor_in c' 0 0 (replicate j CHR '' '' @ t)"
proof -
  let ?st = "st\<lparr>mallocs := mallocs st + 1\<rparr>"
  obtain d i ou l r where f: "rule_flags rule = flag_byte d i ou l r"
      "\<not> (i \<or> ou) \<longrightarrow> rule = rule_zero\<lparr>rule_flags := flag_byte d False False False False\<rparr>"
      "\<not> l \<longrightarrow> local_ports rule = local_ports rule_zero" "\<not> r \<longrightarrow> remote_ports rule = remote_ports rule_zero"
    using rule_ok_flags [OF ok(2)] by blast
  let ?rule0 = "rule_zero\<lparr>rule_flags := flag_byte d False False False False\<rparr>"
  let ?which = "(if i \<or> ou then endpoint_text (subscribers st) (local_subscriber rule) l (local_ports rule) @ '' '' @
      direction_text (flag_byte d i ou l r) @ endpoint_text (subscribers st) (remote_subscriber rule) r (remote_ports rule) else ''all'')
      @ replicate m CHR '' '' @ t"
  have wf: "tree_wf ?st" using ok(1) by (simp add: tree_wf_def)
  have subs: "subscriber_ok ?st (local_subscriber rule)" "subscriber_ok ?st (remote_subscriber rule)"
    using ok(2) by (simp_all add: rule_ok_def subscriber_ok_def)
  have "cursor_in c 0 n ((if d then ''drop '' else ''allow '') @ ?which)" using c unfolding rule_text_flags [OF f(1)] by simp
  from verb_in [OF this]
  obtain c1 where 1: "parse_verb rule_zero c = Some (True, ?rule0, c1)" "cursor_in c1 0 0 (replicate 1 CHR '' '' @ ?which)" by auto
  have ep: "hd (endpoint_text (subscribers st) (local_subscriber rule) l (local_ports rule) @ u) \<in> insert CHR ''*'' (set hexdigit_upper)"
      "endpoint_text (subscribers st) (local_subscriber rule) l (local_ports rule) \<noteq> []" for u
    using endpoint_text_hd [OF ok(1), of "local_subscriber rule" l "local_ports rule"] subs(1) by (simp_all add: subscriber_ok_def)
  have hd: "hd ?which \<noteq> CHR '' ''" using endpoint_chars [OF ep(1)] by auto
  obtain c2 where 2: "parse_optspace c1 = Some c2" "cursor_in c2 0 (0 + 1) ?which"
    using optspace_in [OF 1(2) fits_0] hd by blast
  have "\<exists>c' j. parse_which mem ?rule0 c2 ?st = Some (True, rule, c', ?st) \<and> cursor_in c' 0 0 (replicate j CHR '' '' @ t)"
  proof (cases "i \<or> ou")
    case False
    have "cursor_in c2 0 (0 + 1) (''all'' @ replicate m CHR '' '' @ t)" using 2(2) False by simp
    from skip_in [OF this fits_0]
    obtain c3 where 3: "skip c2 ''all'' = Some (True, c3)" "cursor_in c3 0 (0 + 1 + length ''all'') (replicate m CHR '' '' @ t)" by auto
    then have "parse_which mem ?rule0 c2 ?st = Some (True, rule, c3, ?st)"
      using f(2) False by (simp add: parse_which_def)
    then show ?thesis using cursor_in_unpinned [OF 3(2)] by blast
  next
    case True
    let ?tx = "endpoint_text (subscribers ?st) (local_subscriber rule) l (local_ports rule) @ '' '' @ direction_text (flag_byte d i ou l r) @
      endpoint_text (subscribers ?st) (remote_subscriber rule) r (remote_ports rule) @ replicate m CHR '' '' @ t"
    have tx: "cursor_in c2 0 (0 + 1) ?tx" using 2(2) True by simp
    have ne: "?tx \<noteq> []" using ep(2) by simp
    have "hd ?tx \<noteq> CHR ''a''" using endpoint_chars [OF ep(1)] by simp
    then have np: "\<not> prefix ''all'' ?tx" using ne by (cases ?tx) auto
    obtain c3 where 3: "skip c2 ''all'' = Some (False, c3)" "cursor_in c3 0 (0 + 1) ?tx" "0 < avail c3"
      using skip_in_not [OF tx fits_0 _ _ _ np] ne by auto
    obtain c' j where 4: "parse_pattern mem ?rule0 c3 ?st =
        Some (True, \<lparr>local_subscriber = local_subscriber rule, remote_subscriber = remote_subscriber rule,
          local_ports = if l then local_ports rule else local_ports rule_zero,
          remote_ports = if r then remote_ports rule else remote_ports rule_zero, rule_flags = flag_byte d i ou l r\<rparr>, c', ?st)"
        "cursor_in c' 0 0 (replicate j CHR '' '' @ t)"
      using pattern_in [OF 3(2,3) wf subs ok(4) True] by blast
    have "\<lparr>local_subscriber = local_subscriber rule, remote_subscriber = remote_subscriber rule,
          local_ports = if l then local_ports rule else local_ports rule_zero,
          remote_ports = if r then remote_ports rule else remote_ports rule_zero, rule_flags = flag_byte d i ou l r\<rparr> = rule"
      using f(1,3,4) by simp
    then show ?thesis using 3(1) 4 by (simp add: parse_which_def) blast
  qed
  then show ?thesis using 1(1) 2(1) ok(3) by (auto simp: parse_rule_def emalloc_zero_def)
qed

section \<open>Parsing a printed list of rules\<close>

definition entry_text :: "subscriber list \<Rightarrow> nat \<times> packet_rule \<times> nat \<Rightarrow> string" where
  "entry_text subs = (\<lambda>(a, rule, b). replicate a CHR '' '' @ rule_text subs rule @ replicate b CHR '' '')"

fun rules_text :: "subscriber list \<Rightarrow> char \<Rightarrow> (nat \<times> packet_rule \<times> nat) list \<Rightarrow> string" where
  "rules_text subs sep [] = []"
| "rules_text subs sep (e # es) = entry_text subs e @ concat (map (\<lambda>e. sep # entry_text subs e) es)"

lemma rule_text_hd: "rule_text subs rule \<noteq> []" "hd (rule_text subs rule @ t) \<noteq> CHR '' ''"
  by (auto simp: rule_text_def)

lemma sep_stops: "sep \<in> {CHR 0x0A, CHR '';''} \<Longrightarrow> stops (concat (map (\<lambda>e. sep # entry_text subs e) es))"
proof -
  have "\<not> radix_digit 16 CHR 0x0A" "\<not> radix_digit 16 CHR '';''" by (simp_all add: radix_digit_def hexvalue_def isxdigit_def)
  then show "sep \<in> {CHR 0x0A, CHR '';''} \<Longrightarrow> ?thesis" by (cases es) (auto simp: stops_def)
qed

lemma parse_sep_in:
  assumes "cursor_in c 0 n (sep # t)" "sep \<in> {CHR 0x0A, CHR '';''}"
  shows "\<exists>c'. parse_sep c = Some (True, c') \<and> cursor_in c' 0 0 t"
proof -
  obtain c1 where 1: "peek c = Some (sep, c1)" "cursor_in c1 0 n (sep # t)" "0 < avail c1" using peek_in [OF assms(1) fits_0] by auto
  obtain c2 where 2: "peek c1 = Some (sep, c2)" "cursor_in c2 0 n (sep # t)" "0 < avail c2" using peek_in [OF 1(2) fits_0] by auto
  obtain c3 where 3: "cursor_next c1 = Some c3" "cursor_in c3 0 (n + 1) t" using next_in [OF 1(2,3)] by blast
  obtain c4 where 4: "cursor_next c2 = Some c4" "cursor_in c4 0 (n + 1) t" using next_in [OF 2(2,3)] by blast
  show ?thesis
    using assms(2) 1(1) 2(1) 3(1) 4(1) cursor_in_unpinned [OF 3(2)] cursor_in_unpinned [OF 4(2)] by (auto simp: parse_sep_def)
qed

lemma rules_loop_in:
  assumes "cursor_in c 0 n (concat (map (\<lambda>e. sep # entry_text (subscribers st) e) es))" "sep \<in> {CHR 0x0A, CHR '';''}" "tree_wf st"
    and "\<forall>(a, rule, b) \<in> set es. rule_ok st rule" "\<forall>n. mem n"
  shows "\<exists>c' k. rules_loop mem acc c st = Some (0, acc @ map (fst \<circ> snd) es, c', st\<lparr>mallocs := k\<rparr>) \<and> cursor_in c' 0 0 []"
  using assms
proof (induction es arbitrary: acc c n st)
  case Nil
  have "cursor_in c 0 n []" using Nil(1) by simp
  then obtain c' where c': "eof c = Some (True, c')" "cursor_in c' 0 n []" using eof_in [of c 0 n "[]"] by auto
  then have "rules_loop mem acc c st = Some (0, acc, c', st)"
    by (subst rules_loop.simps) (simp add: rules_more_def)
  then show ?case using cursor_in_unpinned [OF c'(2)] by (intro exI [of _ c'] exI [of _ "mallocs st"]) simp
next
  case (Cons e es)
  obtain a rule b where e: "e = (a, rule, b)" by (cases e)
  let ?tail = "concat (map (\<lambda>e. sep # entry_text (subscribers st) e) es)"
  let ?t = "rule_text (subscribers st) rule @ replicate b CHR '' '' @ ?tail"
  have tx: "cursor_in c 0 n (sep # replicate a CHR '' '' @ ?t)" using Cons.prems(1) e by (simp add: entry_text_def)
  obtain c1 where 1: "eof c = Some (False, c1)" "cursor_in c1 0 n (sep # replicate a CHR '' '' @ ?t)" using eof_in [OF tx fits_0] by auto
  obtain c2 where 2: "parse_sep c1 = Some (True, c2)" "cursor_in c2 0 0 (replicate a CHR '' '' @ ?t)" using parse_sep_in [OF 1(2) Cons.prems(2)] by blast
  have ne: "(replicate a CHR '' '' @ ?t = []) = False" using rule_text_hd(1) by simp
  obtain c3 where 3: "eof c2 = Some (False, c3)" "cursor_in c3 0 0 (replicate a CHR '' '' @ ?t)" using eof_in [OF 2(2) fits_0] unfolding ne by blast
  have more: "rules_more c = Some (True, c3)" using 1(1) 2(1) 3(1) by (simp add: rules_more_def)
  obtain c4 where 4: "parse_optspace c3 = Some c4" "cursor_in c4 0 (0 + a) ?t" using optspace_in [OF 3(2) fits_0] rule_text_hd(2) by blast
  have rule: "rule_ok st rule" using Cons.prems(4) e by simp
  obtain c5 j where 5: "parse_rule mem c4 st = Some (1, Some rule, c5, st\<lparr>mallocs := mallocs st + 1\<rparr>)" "cursor_in c5 0 0 (replicate j CHR '' '' @ ?tail)"
    using rule_in [OF 4(2) Cons.prems(3) rule _ sep_stops [OF Cons.prems(2)]] Cons.prems(5) by blast
  obtain c6 where 6: "parse_optspace c5 = Some c6" "cursor_in c6 0 (0 + j) ?tail"
    using optspace_in [OF 5(2) fits_0 stops_space [OF sep_stops [OF Cons.prems(2)]]] by blast
  let ?st = "st\<lparr>mallocs := mallocs st + 1\<rparr>"
  have ih: "cursor_in c6 0 (0 + j) (concat (map (\<lambda>e. sep # entry_text (subscribers ?st) e) es))" "tree_wf ?st" "\<forall>(a, rule, b) \<in> set es. rule_ok ?st rule"
    using 6(2) Cons.prems(3,4) by (auto simp: tree_wf_def rule_ok_def subscriber_ok_def)
  obtain c' k where "rules_loop mem (acc @ [rule]) c6 ?st = Some (0, (acc @ [rule]) @ map (fst \<circ> snd) es, c', ?st\<lparr>mallocs := k\<rparr>)" "cursor_in c' 0 0 []"
    using Cons.IH [OF ih(1) Cons.prems(2) ih(2,3) Cons.prems(5)] by blast
  then show ?case
    using more 4(1) 5(1) 6(1) e by (subst rules_loop.simps) (simp, blast)
qed

lemma rules_roundtrip_parse:
  assumes "tree_wf st" "\<forall>(a, rule, b) \<in> set es. rule_ok st rule" "sep \<in> {CHR 0x0A, CHR '';''}" "\<forall>n. mem n"
  shows "\<exists>k. parse_mdp_packet_rules mem (rules_text (subscribers st) sep es) st = Some (0, Some (map (fst \<circ> snd) es), st\<lparr>mallocs := k\<rparr>)"
proof (cases es)
  case Nil
  have c: "cursor_in (init_cursor []) 0 0 (replicate 0 CHR '' '' @ [])" using init_cursor_at [of "[]"] by (auto intro: cursor_inI)
  obtain c1 where 1: "parse_optspace (init_cursor []) = Some c1" "cursor_in c1 0 0 []" using optspace_in [OF c fits_0] by auto
  obtain c2 where 2: "skip c1 ''allow'' = Some (False, c2)" "cursor_in c2 0 0 []" using skip_in_not [OF 1(2) fits_0, of "''allow''"] by auto
  obtain c3 where 3: "skip c2 ''drop'' = Some (False, c3)" "cursor_in c3 0 0 (replicate 0 CHR '' '' @ [])"
    using skip_in_not [OF 2(2) fits_0, of "''drop''"] by auto
  obtain c4 where 4: "parse_optspace c3 = Some c4" "cursor_in c4 0 0 []" using optspace_in [OF 3(2) fits_0] by auto
  obtain c5 where 5: "eof c4 = Some (True, c5)" using eof_in [OF 4(2) fits_0] by auto
  have "parse_mdp_packet_rules mem [] st = Some (0, Some [], st\<lparr>mallocs := mallocs st + 1\<rparr>)"
    using 1(1) 2(1) 3(1) 4(1) 5 assms(4)
    by (simp add: parse_mdp_packet_rules_def parse_rules_def parse_rule_def emalloc_zero_def parse_verb_def)
  then show ?thesis using Nil by auto
next
  case (Cons e es')
  obtain a rule b where e: "e = (a, rule, b)" by (cases e)
  let ?tail = "concat (map (\<lambda>e. sep # entry_text (subscribers st) e) es')"
  let ?t = "rule_text (subscribers st) rule @ replicate b CHR '' '' @ ?tail"
  let ?txt = "rules_text (subscribers st) sep es"
  have c: "cursor_in (init_cursor ?txt) 0 0 (replicate a CHR '' '' @ ?t)"
    using init_cursor_at [of ?txt] Cons e by (auto simp: entry_text_def intro: cursor_inI)
  obtain c4 where 4: "parse_optspace (init_cursor ?txt) = Some c4" "cursor_in c4 0 (0 + a) ?t" using optspace_in [OF c fits_0] rule_text_hd(2) by blast
  have rule: "rule_ok st rule" using assms(2) Cons e by simp
  let ?st = "st\<lparr>mallocs := mallocs st + 1\<rparr>"
  obtain c5 j where 5: "parse_rule mem c4 st = Some (1, Some rule, c5, ?st)" "cursor_in c5 0 0 (replicate j CHR '' '' @ ?tail)"
    using rule_in [OF 4(2) assms(1) rule _ sep_stops [OF assms(3)]] assms(4) by blast
  obtain c6 where 6: "parse_optspace c5 = Some c6" "cursor_in c6 0 (0 + j) ?tail"
    using optspace_in [OF 5(2) fits_0 stops_space [OF sep_stops [OF assms(3)]]] by blast
  have ih: "cursor_in c6 0 (0 + j) (concat (map (\<lambda>e. sep # entry_text (subscribers ?st) e) es'))" "tree_wf ?st" "\<forall>(a, rule, b) \<in> set es'. rule_ok ?st rule"
    using 6(2) assms(1,2) Cons by (auto simp: tree_wf_def rule_ok_def subscriber_ok_def)
  obtain c7 k where 7: "rules_loop mem [rule] c6 ?st = Some (0, [rule] @ map (fst \<circ> snd) es', c7, ?st\<lparr>mallocs := k\<rparr>)" "cursor_in c7 0 0 []"
    using rules_loop_in [OF ih(1) assms(3) ih(2,3) assms(4)] by blast
  obtain c8 where 8: "eof c7 = Some (True, c8)" using eof_in [OF 7(2) fits_0] by auto
  have "parse_mdp_packet_rules mem ?txt st = Some (0, Some (map (fst \<circ> snd) es), st\<lparr>mallocs := k\<rparr>)"
    using 4(1) 5(1) 6(1) 7(1) 8 Cons e by (simp add: parse_mdp_packet_rules_def parse_rules_def)
  then show ?thesis by blast
qed

end
