(* ===== verification/Mdp_Filter_Rules.thy ===== *)
theory Mdp_Filter_Rules
  imports Mdp_Filter_Correct
begin

text \<open>
  The rules of the packet filter: that every rule the parser accepts from any file is well formed, so
  that printing and parsing are inverse, what the filter decides on packets, how a reload changes the
  rules in force, and the files that the parser mistreats.
\<close>

section \<open>What the parser accepts\<close>

definition no_subscribers :: subscriber_state where
  "no_subscribers = \<lparr>root = empty_node, subscribers = [], mallocs = 0\<rparr>"

definition parse_result :: "string \<Rightarrow> (int \<times> packet_rule list option) option" where
  "parse_result fp = map_option (\<lambda>(r, rules, _). (r, rules)) (parse_mdp_packet_rules (\<lambda>_. True) fp no_subscribers)"

definition grows :: "subscriber_state \<Rightarrow> subscriber_state \<Rightarrow> bool" where
  "grows st st' \<longleftrightarrow> (tree_wf st \<longrightarrow> tree_wf st' \<and> length (subscribers st) \<le> length (subscribers st'))"

lemma grows_refl: "grows st st"
  by (simp add: grows_def)

lemma grows_trans: "grows a b \<Longrightarrow> grows b c \<Longrightarrow> grows a c"
  by (auto simp: grows_def)

lemma grows_subscriber: "grows st st' \<Longrightarrow> tree_wf st \<Longrightarrow> subscriber_ok st s \<Longrightarrow> subscriber_ok st' s"
  by (auto simp: grows_def subscriber_ok_def)

lemma grows_rule: "grows st st' \<Longrightarrow> tree_wf st \<Longrightarrow> rule_ok st rule \<Longrightarrow> rule_ok st' rule"
  using grows_subscriber [of st st'] by (simp add: rule_ok_def)

lemma skip_sound:
  assumes "skip c t = Some (b, c')" "NUL \<notin> set t"
  shows "b \<Longrightarrow> prefix t (cursor_rest c)" "\<not> b \<Longrightarrow> cursor_rest c' = cursor_rest c"
proof -
  obtain a c1 where p: "preload c (length t) = Some (a, c1)" using assms(1) by (cases "preload c (length t)") (auto simp: skip_def)
  have r: "cursor_rest c1 = cursor_rest c" "available c1 = Some a" using preload_frame [OF p] by (auto simp: available_def)
  have s: "(b, c') = (if length t \<le> a then case str_startswith (drop (current c1) (buffer c1)) t of
      Some after \<Rightarrow> (True, c1\<lparr>current := cursor_offset c1 after\<rparr>) | None \<Rightarrow> (False, c1) else (False, c1))"
    using assms(1) p r(2) by (simp add: skip_def)
  show "prefix t (cursor_rest c)" if b
  proof -
    have "prefix t (drop (current c1) (buffer c1))" using s that by (auto simp: str_startswith_prefix [OF assms(2)] split: if_splits)
    then have "prefix t (cursor_rest c1)" unfolding cursor_rest_def by (rule prefix_prefix)
    then show ?thesis unfolding r(1) .
  qed
  show "cursor_rest c' = cursor_rest c" if "\<not> b"
    using s that r(1) by (auto split: if_splits option.splits)
qed

lemma parse_sid_t_cases:
  assumes "parse_sid_t s n e = Some (bs, after)"
  shows "bs = SID_BROADCAST \<and> strn_startswith s n ''broadcast'' \<noteq> None \<or> fromhex s SID_SIZE = Some bs"
proof (cases "strn_startswith s n ''broadcast''")
  case None
  then show ?thesis using assms unfolding parse_sid_t_def None option.case by (auto split: if_splits bind_splits)
next
  case (Some x)
  then show ?thesis using assms unfolding parse_sid_t_def Some option.case by (auto split: if_splits)
qed

lemma parse_sid_t_length: "parse_sid_t s n e = Some (bs, after) \<Longrightarrow> length bs = SID_SIZE"
  using parse_sid_t_cases [of s n e bs after] fromhex_eq_Some [of s SID_SIZE bs] by (auto simp: SID_BROADCAST_def)

lemma parse_sid_t_hd:
  assumes "parse_sid_t s n e = Some (bs, after)" "s \<noteq> []"
  shows "hd s \<noteq> CHR ''<''" "hd s \<noteq> CHR ''>''"
proof -
  have "hd s = CHR ''b'' \<or> isxdigit (hd s)"
  proof (cases "strn_startswith s n ''broadcast''")
    case (Some x)
    then show ?thesis using assms(2) by (cases s) (auto split: if_splits)
  next
    case None
    then have "fromhex s SID_SIZE = Some bs" using parse_sid_t_cases [OF assms(1)] by blast
    then obtain t u where t: "s = t @ u" "map toupper t = hex_of bs" "length bs = SID_SIZE" unfolding fromhex_eq_Some by blast
    have "length t = 64" using hex_text_length [OF t(2)] t(3) by (simp add: SID_SIZE_def)
    then have ne: "t \<noteq> []" by auto
    then have "toupper (hd t) \<in> set (hex_of bs)" unfolding t(2) [symmetric] by simp
    then have "toupper (hd t) \<in> set hexdigit_upper" by (rule hex_of_not_letter)
    then have "isxdigit (hd t)" by (rule toupper_isxdigit)
    then show ?thesis using t(1) ne by simp
  qed
  moreover have "\<not> isxdigit CHR ''<''" "\<not> isxdigit CHR ''>''" by (simp_all add: isxdigit_def)
  ultimately show "hd s \<noteq> CHR ''<''" "hd s \<noteq> CHR ''>''" by auto
qed

lemma sidany_sound:
  assumes r: "parse_sidany mem s0 c st = Some (ok, s, c', st')" and wf: "tree_wf st"
  shows "grows st st'" "ok \<Longrightarrow> subscriber_ok st' s" "\<not> ok \<Longrightarrow> s = s0 \<or> s = None"
    "ok \<Longrightarrow> \<not> prefix ''<'' (cursor_rest c) \<and> \<not> prefix ''>'' (cursor_rest c)"
proof -
  obtain a c1 where 1: "preload c SID_STRLEN = Some (a, c1)"
    using r by (cases "preload c SID_STRLEN") (auto simp: parse_sidany_def)
  obtain b c2 where 2: "skip c1 ''*'' = Some (b, c2)"
    using r 1 by (cases "skip c1 ''*''") (auto simp: parse_sidany_def)
  have rest1: "cursor_rest c1 = cursor_rest c" using preload_frame(1) [OF 1] .
  have "grows st st' \<and> (ok \<longrightarrow> subscriber_ok st' s) \<and> (\<not> ok \<longrightarrow> s = s0 \<or> s = None) \<and>
    (ok \<longrightarrow> \<not> prefix ''<'' (cursor_rest c) \<and> \<not> prefix ''>'' (cursor_rest c))"
  proof (cases b)
    case True
    then have "prefix ''*'' (cursor_rest c)" using skip_sound(1) [OF 2] rest1 by simp
    then have "\<not> prefix ''<'' (cursor_rest c) \<and> \<not> prefix ''>'' (cursor_rest c)" by (cases "cursor_rest c") auto
    moreover have "ok" "s = None" "st' = st" using r 1 2 True by (simp_all add: parse_sidany_def)
    ultimately show ?thesis using grows_refl by (simp add: subscriber_ok_def)
  next
    case False
    have rest2: "cursor_rest c2 = cursor_rest c" using skip_sound(2) [OF 2] False rest1 by simp
    obtain ptx where ptx: "preloaded c2 = Some ptx" using r 1 2 False by (cases "preloaded c2") (auto simp: parse_sidany_def)
    obtain n where n: "available c2 = Some n" using r 1 2 False ptx by (cases "available c2") (auto simp: parse_sidany_def)
    have ptx2: "ptx \<noteq> []" "cursor_rest c = ptx @ stream c2"
      using ptx rest2 by (auto simp: preloaded_def cursor_rest_def split: if_splits)
    show ?thesis
    proof (cases "parse_sid_t ptx (int n) True")
      case None
      then show ?thesis using r 1 2 False ptx n grows_refl by (simp add: parse_sidany_def)
    next
      case (Some x)
      obtain bs after where x: "x = (bs, after)" by (cases x)
      have sid: "parse_sid_t ptx (int n) True = Some (bs, after)" using Some x by simp
      obtain q t where t: "find_subscriber mem bs SID_SIZE True st = Some (q, t)" "tree_wf t" "length (subscribers st) \<le> length (subscribers t)"
          "\<forall>p. q = Some p \<longrightarrow> p < length (subscribers t)"
        using find_subscriber_grows [OF wf parse_sid_t_length [OF sid], of mem] by blast
      have hd: "\<not> prefix ''<'' (cursor_rest c) \<and> \<not> prefix ''>'' (cursor_rest c)"
        using parse_sid_t_hd [OF sid ptx2(1)] ptx2 by (cases ptx) auto
      have g: "grows st t" "subscriber_ok t q" using t(2-4) by (simp_all add: grows_def subscriber_ok_def)
      show ?thesis
      proof (cases "q = None")
        case True
        then show ?thesis using r 1 2 False ptx n sid t(1) g hd by (simp add: parse_sidany_def)
      next
        case q: False
        then have "ok" "s = q" "st' = t" using r 1 2 False ptx n sid t(1) by (auto simp: parse_sidany_def split: bind_splits)
        then show ?thesis using q g hd by simp
      qed
    qed
  qed
  then show "grows st st'" "ok \<Longrightarrow> subscriber_ok st' s" "\<not> ok \<Longrightarrow> s = s0 \<or> s = None"
    "ok \<Longrightarrow> \<not> prefix ''<'' (cursor_rest c) \<and> \<not> prefix ''>'' (cursor_rest c)" by blast+
qed

text \<open>
  An endpoint that was accepted has a known subscriber, and its port flag tells whether its ports were
  assigned. If one was rejected after a subscriber was recognised, no direction can follow where the
  parser retreats to.
\<close>

lemma endpoint_sound:
  assumes r: "parse_endpoint mem pf f s0 p0 c st = Some (ok, f', s, p, c', st')" and wf: "tree_wf st"
  shows "grows st st'" "ok \<Longrightarrow> subscriber_ok st' s" "ok \<Longrightarrow> f' = f OR pf \<or> f' = f \<and> p = p0"
    "\<not> ok \<Longrightarrow> f' = f" "\<not> ok \<Longrightarrow> (s = s0 \<or> s = None) \<and> p = p0 \<or> \<not> prefix ''<'' (cursor_rest c) \<and> \<not> prefix ''>'' (cursor_rest c)"
proof -
  obtain ok1 s1 c1 st1 where 1: "parse_sidany mem s0 c st = Some (ok1, s1, c1, st1)"
    using r by (cases "parse_sidany mem s0 c st") (auto simp: parse_endpoint_def)
  note sound = sidany_sound [OF 1 wf]
  have "grows st st' \<and> (ok \<longrightarrow> subscriber_ok st' s \<and> (f' = f OR pf \<or> f' = f \<and> p = p0)) \<and>
    (\<not> ok \<longrightarrow> f' = f \<and> ((s = s0 \<or> s = None) \<and> p = p0 \<or> \<not> prefix ''<'' (cursor_rest c) \<and> \<not> prefix ''>'' (cursor_rest c)))"
  proof (cases ok1)
    case False
    then show ?thesis using r 1 sound(1,3) by (simp add: parse_endpoint_def)
  next
    case True
    obtain c2 where 2: "parse_optspace c1 = Some c2" using r 1 True by (cases "parse_optspace c1") (auto simp: parse_endpoint_def)
    obtain ch c3 where 3: "peek c2 = Some (ch, c3)" using r 1 2 True by (cases "peek c2") (auto simp: parse_endpoint_def)
    have s: "s = s1" "st' = st1" "\<not> ok \<longrightarrow> f' = f" "ok \<longrightarrow> f' = f OR pf \<or> f' = f \<and> p = p0"
      using r 1 2 3 True by (auto simp: parse_endpoint_def split: if_splits bind_splits)
    show ?thesis using s sound(1,2,4) True by blast
  qed
  then show "grows st st'" "ok \<Longrightarrow> subscriber_ok st' s" "ok \<Longrightarrow> f' = f OR pf \<or> f' = f \<and> p = p0"
    "\<not> ok \<Longrightarrow> f' = f" "\<not> ok \<Longrightarrow> (s = s0 \<or> s = None) \<and> p = p0 \<or> \<not> prefix ''<'' (cursor_rest c) \<and> \<not> prefix ''>'' (cursor_rest c)"
    by blast+
qed

lemma direction_sound:
  assumes r: "parse_direction (flag_byte d i0 o0 l r0) c = Some (ok, f', c')"
  shows "\<exists>i ou. f' = flag_byte d i ou l r0 \<and> ok = (i \<or> ou)" "ok \<Longrightarrow> prefix ''<'' (cursor_rest c) \<or> prefix ''>'' (cursor_rest c)"
proof -
  obtain i c1 where 1: "skip c ''<'' = Some (i, c1)" using r by (cases "skip c ''<''") (auto simp: parse_direction_def)
  obtain ou c2 where 2: "skip c1 ''>'' = Some (ou, c2)" using r 1 by (cases "skip c1 ''>''") (auto simp: parse_direction_def)
  have f: "f' = flag_byte d i ou l r0" "ok = (i \<or> ou)"
    using r 1 2 by (cases i; cases ou; simp add: parse_direction_def in_or_out Let_def; auto simp: rule_flag_defs)+
  then show "\<exists>i ou. f' = flag_byte d i ou l r0 \<and> ok = (i \<or> ou)" by blast
  show "prefix ''<'' (cursor_rest c) \<or> prefix ''>'' (cursor_rest c)" if ok
  proof (cases i)
    case False
    then have "ou" "cursor_rest c1 = cursor_rest c" using f(2) that skip_sound(2) [OF 1] by simp_all
    then show ?thesis using skip_sound(1) [OF 2] by simp
  qed (use skip_sound(1) [OF 1] in simp)
qed

lemma rule_zero_subscribers: "local_subscriber rule_zero = None" "remote_subscriber rule_zero = None"
  by (simp_all add: rule_zero_def)

lemma pattern_sound:
  assumes r: "parse_pattern mem (rule_zero\<lparr>rule_flags := flag_byte d False False False False\<rparr>) c st = Some (ok, rule, c', st')" and wf: "tree_wf st"
  shows "grows st st'" "ok \<Longrightarrow> rule_ok st' rule"
proof -
  let ?rule0 = "rule_zero\<lparr>rule_flags := flag_byte d False False False False\<rparr>"
  obtain p c1 where 1: "cursor_pin c = Some (p, c1)" using r by (cases "cursor_pin c") (auto simp: parse_pattern_def)
  then obtain t where t: "pin_text c1 = Some t" "drop p t = cursor_rest c" "cursor_rest c1 = cursor_rest c" using cursor_pin_text by blast
  obtain ok1 f1 s1 p1 c2 st1 where
    2: "parse_endpoint mem RULE_LOCAL_PORT (flag_byte d False False False False) None (local_ports rule_zero) c1 st = Some (ok1, f1, s1, p1, c2, st1)"
    using r 1
    by (cases "parse_endpoint mem RULE_LOCAL_PORT (flag_byte d False False False False) None (local_ports rule_zero) c1 st")
      (auto simp: parse_pattern_def rule_zero_subscribers)
  note s2 = endpoint_sound [OF 2 wf]
  have le2: "cursor_le c1 c2" by (rule parse_endpoint_frame [OF 2])
  obtain c3 where 3: "(if ok1 then cursor_unpin c2 p \<bind> parse_optspace else retreat c2 p) = Some c3"
    using r 1 2 by (cases "if ok1 then cursor_unpin c2 p \<bind> parse_optspace else retreat c2 p") (auto simp: parse_pattern_def rule_zero_subscribers)
  obtain ok2 f2 c4 where 4: "parse_direction f1 c3 = Some (ok2, f2, c4)"
    using r 1 2 3 by (cases "parse_direction f1 c3") (auto simp: parse_pattern_def rule_zero_subscribers)
  have wf1: "tree_wf st1" "grows st st1" using s2(1) wf by (auto simp: grows_def)
  show g: "grows st st'"
  proof (cases ok2)
    case False
    then show ?thesis using r 1 2 3 4 wf1 by (simp add: parse_pattern_def rule_zero_subscribers)
  next
    case True
    obtain c5 where 5: "parse_optspace c4 = Some c5"
      using r 1 2 3 4 True by (cases "parse_optspace c4") (auto simp: parse_pattern_def rule_zero_subscribers)
    obtain f3 s3 p3 where "parse_endpoint mem RULE_REMOTE_PORT f2 None (remote_ports rule_zero) c5 st1 = Some (ok, f3, s3, p3, c', st')"
      using r 1 2 3 4 5 True by (auto simp: parse_pattern_def rule_zero_subscribers split: bind_splits)
    from endpoint_sound(1) [OF this wf1(1)] show ?thesis using wf1(2) grows_trans by blast
  qed
  show "rule_ok st' rule" if ok
  proof -
    have ok2 using r 1 2 3 4 that by (cases ok2) (auto simp: parse_pattern_def rule_zero_subscribers Let_def)
    obtain c5 where 5: "parse_optspace c4 = Some c5"
      using r 1 2 3 4 \<open>ok2\<close> by (cases "parse_optspace c4") (auto simp: parse_pattern_def rule_zero_subscribers)
    obtain f3 s3 p3 where 6: "parse_endpoint mem RULE_REMOTE_PORT f2 None (remote_ports rule_zero) c5 st1 = Some (ok, f3, s3, p3, c', st')"
        "rule = rule_zero\<lparr>local_subscriber := s1, local_ports := p1, rule_flags := f3, remote_subscriber := s3, remote_ports := p3\<rparr>"
      using r 1 2 3 4 5 \<open>ok2\<close> by (auto simp: parse_pattern_def rule_zero_subscribers split: bind_splits)
    note s6 = endpoint_sound [OF 6(1) wf1(1)]
    have "\<exists>l. f1 = flag_byte d False False l False \<and> (l \<or> p1 = local_ports rule_zero) \<and> subscriber_ok st1 s1"
    proof (cases ok1)
      case True
      then show ?thesis using s2(2,3) by (auto simp: rule_flag_defs)
    next
      case False
      have "cursor_rest c3 = cursor_rest c1" using 3 False retreat_rest [of c2 p c3 t] le2 t by (simp add: cursor_le_def)
      moreover have f1: "f1 = flag_byte d False False False False" using s2(4) False by simp
      ultimately have "prefix ''<'' (cursor_rest c1) \<or> prefix ''>'' (cursor_rest c1)"
        using direction_sound(2) [of d False False False False c3 ok2 f2 c4] 4 \<open>ok2\<close> by simp
      then show ?thesis using s2(5) False f1 by (auto simp: subscriber_ok_def)
    qed
    then obtain l where l: "f1 = flag_byte d False False l False" "l \<or> p1 = local_ports rule_zero" "subscriber_ok st1 s1" by blast
    obtain i ou where f2: "f2 = flag_byte d i ou l False" "i \<or> ou" using direction_sound(1) [OF 4 [unfolded l(1)]] \<open>ok2\<close> by blast
    have "\<exists>rp. f3 = flag_byte d i ou l rp \<and> (rp \<or> p3 = remote_ports rule_zero)"
      using s6(3) [OF that] f2(1) by (auto simp: rule_flag_defs)
    then obtain rp where rp: "f3 = flag_byte d i ou l rp" "rp \<or> p3 = remote_ports rule_zero" by blast
    have "subscriber_ok st' s1" "subscriber_ok st' s3" using grows_subscriber [OF s6(1) wf1(1) l(3)] s6(2) that by blast+
    then show ?thesis using 6(2) rp l(2) f2(2) by (cases i; cases ou; cases l; cases rp) (simp_all add: rule_ok_def rule_flag_defs)
  qed
qed

lemma rule_sound:
  assumes r: "parse_rule mem c st = Some (x, rule, c', st')" and wf: "tree_wf st"
  shows "grows st st'" "rule = Some rl \<Longrightarrow> rule_ok st' rl"
proof -
  let ?st = "st\<lparr>mallocs := mallocs st + 1\<rparr>"
  have wf0: "tree_wf ?st" "grows st ?st" using wf by (simp_all add: tree_wf_def grows_def)
  have "grows st st' \<and> (\<forall>rl. rule = Some rl \<longrightarrow> rule_ok st' rl)"
  proof (cases "mem (mallocs st)")
    case False
    then show ?thesis using r wf0 by (simp add: parse_rule_def emalloc_zero_def)
  next
    case True
    obtain ok1 rule1 c1 where 1: "parse_verb rule_zero c = Some (ok1, rule1, c1)"
      using r True by (cases "parse_verb rule_zero c") (auto simp: parse_rule_def emalloc_zero_def)
    have v: "\<exists>d. rule1 = rule_zero\<lparr>rule_flags := flag_byte d False False False False\<rparr>"
    proof -
      have "rule1 = rule_zero \<or> rule1 = rule_zero\<lparr>rule_flags := rule_flags rule_zero OR RULE_DROP\<rparr>"
        using 1 by (auto simp: parse_verb_def split: bind_splits if_splits)
      moreover have "rule_zero = rule_zero\<lparr>rule_flags := flag_byte False False False False False\<rparr>"
          "rule_zero\<lparr>rule_flags := rule_flags rule_zero OR RULE_DROP\<rparr> = rule_zero\<lparr>rule_flags := flag_byte True False False False False\<rparr>"
        by (simp_all add: rule_zero_def flag_byte_def rule_flag_defs)
      ultimately show ?thesis by metis
    qed
    then obtain d where d: "rule1 = rule_zero\<lparr>rule_flags := flag_byte d False False False False\<rparr>" by blast
    show ?thesis
    proof (cases ok1)
      case False
      then show ?thesis using r True 1 wf0 by (simp add: parse_rule_def emalloc_zero_def)
    next
      case ok1: True
      obtain c2 where 2: "parse_optspace c1 = Some c2"
        using r True 1 ok1 by (cases "parse_optspace c1") (auto simp: parse_rule_def emalloc_zero_def)
      obtain ok3 rule3 c3 st3 where 3: "parse_which mem rule1 c2 ?st = Some (ok3, rule3, c3, st3)"
        using r True 1 2 ok1 by (cases "parse_which mem rule1 c2 ?st") (auto simp: parse_rule_def emalloc_zero_def)
      have res: "st' = st3" "rule = (if ok3 then Some rule3 else None)"
        using r True 1 2 3 ok1 by (auto simp: parse_rule_def emalloc_zero_def split: if_splits)
      have "grows ?st st3 \<and> (ok3 \<longrightarrow> rule_ok st3 rule3)"
      proof -
        obtain b c4 where 4: "skip c2 ''all'' = Some (b, c4)" using 3 by (cases "skip c2 ''all''") (auto simp: parse_which_def)
        show ?thesis
        proof (cases b)
          case True
          then have "rule3 = rule1" "st3 = ?st" using 3 4 by (simp_all add: parse_which_def)
          moreover have "rule_ok ?st rule1"
          proof -
            have "flag_byte d False False False False AND RULE_DROP = flag_byte d False False False False"
              by (simp add: rule_flag_defs) (simp add: flag_byte_def)
            then show ?thesis unfolding d by (simp add: rule_ok_def subscriber_ok_def) (simp add: rule_zero_def)
          qed
          ultimately show ?thesis using grows_refl by simp
        next
          case False
          then have "parse_pattern mem rule1 c4 ?st = Some (ok3, rule3, c3, st3)" using 3 4 by (simp add: parse_which_def)
          from pattern_sound [OF this [unfolded d] wf0(1)] show ?thesis by blast
        qed
      qed
      then show ?thesis using res wf0(2) grows_trans by auto
    qed
  qed
  then show "grows st st'" "rule = Some rl \<Longrightarrow> rule_ok st' rl" by blast+
qed

lemma rules_loop_sound:
  assumes "rules_loop mem rules c st = Some (x, rules', c', st')" "tree_wf st" "list_all (rule_ok st) rules"
  shows "grows st st' \<and> list_all (rule_ok st') rules'"
  using assms
proof (induction mem rules c st rule: rules_loop.induct)
  case (1 mem rules c st)
  obtain b c1 where 1: "rules_more c = Some (b, c1)"
    using "1.prems"(1) by (subst (asm) rules_loop.simps) (auto split: option.splits)
  show ?case
  proof (cases b)
    case False
    then show ?thesis using "1.prems" 1 grows_refl by (subst (asm) rules_loop.simps) simp
  next
    case True
    obtain c2 where 2: "parse_optspace c1 = Some c2"
      using "1.prems"(1) 1 True by (subst (asm) rules_loop.simps) (auto split: option.splits)
    obtain r rule c3 st3 where 3: "parse_rule mem c2 st = Some (r, rule, c3, st3)"
      using "1.prems"(1) 1 True 2 by (subst (asm) rules_loop.simps) (auto split: option.splits)
    note s3 = rule_sound [OF 3 "1.prems"(2)]
    have wf3: "tree_wf st3" "list_all (rule_ok st3) rules"
      using s3(1) "1.prems"(2,3) grows_rule [OF s3(1) "1.prems"(2)] by (auto simp: grows_def list_all_iff)
    show ?thesis
    proof (cases "r = - 1")
      case True
      then have "rules' = rules" "st' = st3" using "1.prems"(1) 1 2 3 \<open>b\<close> by (subst (asm) rules_loop.simps; simp)+
      then show ?thesis using s3(1) wf3 by simp
    next
      case False
      obtain c4 where 4: "parse_optspace c3 = Some c4"
        using "1.prems"(1) 1 \<open>b\<close> 2 3 False by (subst (asm) rules_loop.simps) (auto split: option.splits)
      show ?thesis
      proof (cases rule)
        case None
        then have "rules' = rules" "st' = st3" using "1.prems"(1) 1 2 3 4 \<open>b\<close> False by (subst (asm) rules_loop.simps; simp)+
        then show ?thesis using s3(1) wf3 by simp
      next
        case (Some rl)
        have "rules_loop mem (rules @ [rl]) c4 st3 = Some (x, rules', c', st')"
          using "1.prems"(1) 1 2 3 4 \<open>b\<close> False Some by (subst (asm) rules_loop.simps) simp
        moreover have "list_all (rule_ok st3) (rules @ [rl])" using wf3(2) s3(2) Some by simp
        ultimately have "grows st3 st' \<and> list_all (rule_ok st') rules'"
          using "1.IH" [OF 1 refl _ 2 3 refl refl refl False 4 Some] True wf3(1) by blast
        then show ?thesis using s3(1) grows_trans by blast
      qed
    qed
  qed
qed

lemma parse_mdp_packet_rules_sound:
  assumes "tree_wf st" "parse_mdp_packet_rules mem fp st = Some (r, rules, st')"
  shows "grows st st' \<and> (rules = None \<longleftrightarrow> r = 1) \<and> (\<forall>rs. rules = Some rs \<longrightarrow> r = 0 \<and> list_all (rule_ok st') rs)"
proof -
  obtain x rs c st1 where 1: "parse_rules mem (init_cursor fp) st = Some (x, rs, c, st1)"
    using assms(2) by (cases "parse_rules mem (init_cursor fp) st") (auto simp: parse_mdp_packet_rules_def)
  have res: "st' = st1" "(rules = None \<longleftrightarrow> r = 1)" "\<forall>rs'. rules = Some rs' \<longrightarrow> r = 0 \<and> rs' = rs"
    using assms(2) 1 by (auto simp: parse_mdp_packet_rules_def split: if_splits bind_splits)
  obtain c1 where 2: "parse_optspace (init_cursor fp) = Some c1"
    using 1 by (cases "parse_optspace (init_cursor fp)") (auto simp: parse_rules_def)
  obtain y rule c2 st2 where 3: "parse_rule mem c1 st = Some (y, rule, c2, st2)"
    using 1 2 by (cases "parse_rule mem c1 st") (auto simp: parse_rules_def)
  note s3 = rule_sound [OF 3 assms(1)]
  have wf2: "tree_wf st2" using s3(1) assms(1) by (simp add: grows_def)
  have "grows st2 st1 \<and> list_all (rule_ok st1) rs"
  proof (cases "y = - 1")
    case True
    then show ?thesis using 1 2 3 grows_refl by (simp add: parse_rules_def)
  next
    case False
    obtain c3 where 4: "parse_optspace c2 = Some c3" using 1 2 3 False by (cases "parse_optspace c2") (auto simp: parse_rules_def)
    show ?thesis
    proof (cases rule)
      case None
      then show ?thesis using 1 2 3 4 False grows_refl by (auto simp: parse_rules_def split: bind_splits)
    next
      case (Some rl)
      obtain z rs2 c4 st4 where 5: "rules_loop mem [rl] c3 st2 = Some (z, rs2, c4, st4)"
        using 1 2 3 4 False Some by (cases "rules_loop mem [rl] c3 st2") (auto simp: parse_rules_def)
      have "rs2 = rs" "st4 = st1" using 1 2 3 4 5 False Some by (auto simp: parse_rules_def split: if_splits bind_splits)
      then show ?thesis using rules_loop_sound [OF 5 wf2] s3(2) [OF Some] by simp
    qed
  qed
  then show ?thesis using res grows_trans [OF s3(1)] by auto
qed

section \<open>Printing\<close>

lemma portrange_appends: "appends (\<lambda>sb. strbuf_append_mdp_portrange sb r) ('':'' @ range_text r)"
proof (cases "port_last r = port_first r")
  case True
  then show ?thesis
    using strbuf_sprintf_appends [of "'':'' @ fmt_mdp_port (port_first r)"] by (simp add: strbuf_append_mdp_portrange_def range_text_def)
next
  case False
  then show ?thesis
    using appends_bind [OF strbuf_sprintf_appends strbuf_sprintf_appends, of "'':'' @ fmt_mdp_port (port_first r)" "''-'' @ fmt_mdp_port (port_last r)"]
    by (simp add: strbuf_append_mdp_portrange_def range_text_def)
qed

lemma appends_if: "appends f x \<Longrightarrow> appends (\<lambda>sb. if c then f sb else Some sb) (if c then x else [])"
  by (simp add: appends_Some)

lemma sid_appends:
  assumes "tree_wf st" "subscriber_ok st s"
  shows "appends (\<lambda>sb. case s of Some p \<Rightarrow> tohex SID_STRLEN (sid (subscribers st ! p)) \<bind> strbuf_puts sb | None \<Rightarrow> strbuf_putc sb CHR ''*'')
    (sid_text (subscribers st) s)"
proof (cases s)
  case (Some p)
  have "length (sid (subscribers st ! p)) = SID_SIZE" using tree_wf_sid [OF assms(1)] assms(2) Some by (simp add: subscriber_ok_def)
  then have "tohex SID_STRLEN (sid (subscribers st ! p)) = Some (hex_of (sid (subscribers st ! p)))"
    using tohex_hex_of [of 0 "sid (subscribers st ! p)"] by (simp add: tohex_def SID_STRLEN_def mult.commute)
  then show ?thesis using Some strbuf_puts_appends by (simp add: sid_text_def)
qed (simp add: sid_text_def strbuf_putc_appends)

lemma rule_appends:
  assumes "tree_wf st" "rule_ok st rule"
  shows "appends (\<lambda>sb. strbuf_append_packet_rule (subscribers st) sb rule) (rule_text (subscribers st) rule)"
proof -
  have ok: "subscriber_ok st (local_subscriber rule)" "subscriber_ok st (remote_subscriber rule)" using assms(2) by (simp_all add: rule_ok_def)
  let ?f = "rule_flags rule"
  have body: "appends (\<lambda>sb. do {
       sb \<leftarrow> (case local_subscriber rule of Some p \<Rightarrow> tohex SID_STRLEN (sid (subscribers st ! p)) \<bind> strbuf_puts sb | None \<Rightarrow> strbuf_putc sb CHR ''*'');
       sb \<leftarrow> (if ?f AND RULE_LOCAL_PORT \<noteq> 0 then strbuf_append_mdp_portrange sb (local_ports rule) else Some sb);
       sb \<leftarrow> strbuf_putc sb CHR '' '';
       sb \<leftarrow> (if ?f AND RULE_INBOUND \<noteq> 0 then strbuf_putc sb CHR ''<'' else Some sb);
       sb \<leftarrow> (if ?f AND RULE_OUTBOUND \<noteq> 0 then strbuf_putc sb CHR ''>'' else Some sb);
       sb \<leftarrow> (case remote_subscriber rule of Some p \<Rightarrow> tohex SID_STRLEN (sid (subscribers st ! p)) \<bind> strbuf_puts sb | None \<Rightarrow> strbuf_putc sb CHR ''*'');
       if ?f AND RULE_REMOTE_PORT \<noteq> 0 then strbuf_append_mdp_portrange sb (remote_ports rule) else Some sb
     }) (sid_text (subscribers st) (local_subscriber rule) @ (if ?f AND RULE_LOCAL_PORT \<noteq> 0 then '':'' @ range_text (local_ports rule) else []) @ '' '' @
       (if ?f AND RULE_INBOUND \<noteq> 0 then ''<'' else []) @ (if ?f AND RULE_OUTBOUND \<noteq> 0 then ''>'' else []) @
       sid_text (subscribers st) (remote_subscriber rule) @ (if ?f AND RULE_REMOTE_PORT \<noteq> 0 then '':'' @ range_text (remote_ports rule) else []))"
    by (intro appends_bind sid_appends [OF assms(1)] ok appends_if portrange_appends strbuf_putc_appends)
  show ?thesis
  proof (cases "?f AND (RULE_INBOUND OR RULE_OUTBOUND) = 0")
    case True
    then show ?thesis
      using appends_bind [OF strbuf_puts_appends strbuf_puts_appends, of "if ?f AND RULE_DROP \<noteq> 0 then ''drop '' else ''allow ''" "''all''"]
      by (simp add: strbuf_append_packet_rule_def rule_text_def)
  next
    case False
    then show ?thesis
      using appends_bind [OF strbuf_puts_appends body, of "if ?f AND RULE_DROP \<noteq> 0 then ''drop '' else ''allow ''"]
      by (simp add: strbuf_append_packet_rule_def rule_text_def endpoint_text_def direction_text_def)
  qed
qed

text \<open>
  (C6) Packet filter rules survive printing and parsing. \<open>strbuf_append_packet_rule\<close> prints every well-formed rule,
  and a file of printed rules, separated by newlines or semicolons with any number of spaces
  around each, is parsed by the node to the same rules about the same subscribers, however long the
  file is, while memory lasts.
\<close>

theorem packet_rules_roundtrip:
  assumes "tree_wf st" "\<forall>(a, rule, b) \<in> set es. rule_ok st rule" "sep \<in> {CHR 0x0A, CHR '';''}" "\<forall>n. mem n"
  shows "(\<exists>k. parse_mdp_packet_rules mem (rules_text (subscribers st) sep es) st = Some (0, Some (map (fst \<circ> snd) es), st\<lparr>mallocs := k\<rparr>)) \<and>
    (\<forall>(a, rule, b) \<in> set es. appends (\<lambda>sb. strbuf_append_packet_rule (subscribers st) sb rule) (rule_text (subscribers st) rule))"
  using rules_roundtrip_parse [OF assms] rule_appends [OF assms(1)] assms(2) by blast


lemma no_subscribers_wf: "tree_wf no_subscribers"
  unfolding no_subscribers_def by (rule tree_wf_empty)


definition example_rule :: packet_rule where
  "example_rule = rule_zero\<lparr>local_subscriber := Some 1, local_ports := \<lparr>port_first = 5, port_last = 9\<rparr>, rule_flags := 0x0b\<rparr>"

lemma example_rule_ok: "rule_ok two_subscribers example_rule" "rule_ok two_subscribers rule_zero"
  by (simp_all add: rule_ok_def subscriber_ok_def example_rule_def rule_zero_def two_subscribers_def Let_def rule_flag_defs)

theorem packet_rules_roundtrip_witness:
  "\<exists>k. parse_mdp_packet_rules (\<lambda>_. True) (rules_text (subscribers two_subscribers) CHR '';'' [(2, example_rule, 0), (0, rule_zero, 1)]) two_subscribers
     = Some (0, Some [example_rule, rule_zero], two_subscribers\<lparr>mallocs := k\<rparr>)"
  using packet_rules_roundtrip [OF two_subscribers_wf, of "[(2, example_rule, 0), (0, rule_zero, 1)]" "CHR '';''" "\<lambda>_. True"]
  by (simp add: example_rule_ok)


section \<open>Decisions\<close>








section \<open>Reloading\<close>

text \<open>
  (C27) Reloading is safe and settles. If it fails, the rules in force stay as they were; the rules in force are
  well formed at all times; whenever it installs rules the metadata of the file is recorded; and
  reloading again without a change of the file, or with filtering still not configured, changes nothing.
\<close>

theorem reload_rules_safe:
  assumes "tree_wf st" "list_all (rule_ok st) (packet_rules fs)"
    and "reload_mdp_packet_rules mem configured path_fits meta file fs st = Some (ret, fs', st')"
  shows "tree_wf st' \<and> list_all (rule_ok st') (packet_rules fs') \<and> (ret = - 1 \<longrightarrow> packet_rules fs' = packet_rules fs) \<and>
    (ret = 1 \<longrightarrow> configured \<and> path_fits \<and> meta = Some (packet_rules_meta fs')) \<and>
    (\<not> configured \<or> path_fits \<and> meta = Some (packet_rules_meta fs') \<longrightarrow>
       reload_mdp_packet_rules mem configured path_fits meta file fs' st' = Some (0, fs', st'))"
proof -
  have same: "cmp_file_meta m m = 0" for m by (simp add: cmp_file_meta_def cmp_timespec_def)
  have again: "\<not> configured \<or> path_fits \<and> meta = Some (packet_rules_meta fs') \<longrightarrow>
      reload_mdp_packet_rules mem configured path_fits meta file fs' st' = Some (0, fs', st')"
    using assms(3) by (auto simp: reload_mdp_packet_rules_def same clear_mdp_packet_rules_def)
  have "tree_wf st' \<and> list_all (rule_ok st') (packet_rules fs') \<and> (ret = - 1 \<longrightarrow> packet_rules fs' = packet_rules fs) \<and>
      (ret = 1 \<longrightarrow> configured \<and> path_fits \<and> meta = Some (packet_rules_meta fs'))"
  proof (cases "\<exists>m fp. configured \<and> path_fits \<and> meta = Some m \<and> cmp_file_meta m (packet_rules_meta fs) \<noteq> 0 \<and> tv_sec m \<noteq> - 1 \<and>
      meta_size m \<le> PACKET_RULES_FILE_MAX_SIZE \<and> meta_size m > 0 \<and> file = Some fp")
    case False
    then show ?thesis
      using assms by (auto simp: reload_mdp_packet_rules_def clear_mdp_packet_rules_def split: if_splits option.splits)
  next
    case True
    then obtain m fp where m: "configured" "path_fits" "meta = Some m" "cmp_file_meta m (packet_rules_meta fs) \<noteq> 0" "tv_sec m \<noteq> - 1"
        "meta_size m \<le> PACKET_RULES_FILE_MAX_SIZE" "meta_size m > 0" "file = Some fp" by blast
    obtain r rules st1 where p: "parse_mdp_packet_rules mem fp st = Some (r, rules, st1)"
      using assms(3) m by (cases "parse_mdp_packet_rules mem fp st") (auto simp: reload_mdp_packet_rules_def)
    note s = parse_mdp_packet_rules_sound [OF assms(1) p]
    have old: "list_all (rule_ok st1) (packet_rules fs)"
      using assms(2) grows_rule [OF _ assms(1), of st1] s by (auto simp: list_all_iff)
    have wf: "tree_wf st1" using s assms(1) by (simp add: grows_def)
    show ?thesis
      using assms(3) m p s old wf
      by (cases rules) (auto simp: reload_mdp_packet_rules_def set_mdp_packet_rules_def)
  qed
  then show ?thesis using again by blast
qed

theorem reload_rules_safe_witness:
  "\<exists>fs' st'. reload_mdp_packet_rules (\<lambda>_. True) True True (Some \<lparr>tv_sec = 7, tv_nsec = 0, meta_size = 9\<rparr>) (Some ''drop all;'')
      \<lparr>packet_rules = [], packet_rules_meta = FILE_META_UNKNOWN\<rparr> no_subscribers = Some (1, fs', st') \<and>
     length (packet_rules fs') = 1 \<and> list_all (rule_ok st') (packet_rules fs')"
proof -
  let ?r = "reload_mdp_packet_rules (\<lambda>_. True) True True (Some \<lparr>tv_sec = 7, tv_nsec = 0, meta_size = 9\<rparr>) (Some ''drop all;'')
      \<lparr>packet_rules = [], packet_rules_meta = FILE_META_UNKNOWN\<rparr> no_subscribers"
  have "map_option (\<lambda>(r, fs, st). (r, length (packet_rules fs))) ?r = Some (1, 1)" by code_simp
  then obtain fs' st' where r: "?r = Some (1, fs', st')" and l: "length (packet_rules fs') = 1" by auto
  from reload_rules_safe [OF no_subscribers_wf _ r] r l show ?thesis by auto
qed

section \<open>Files that the parser mistreats\<close>

text \<open>
  A file whose last rule is cut short after an endpoint is accepted without that rule: a lone \<open>drop *:5\<close> loads as no rule at
  all. A file that ends where a pattern, an endpoint or a port is expected fails an assertion, which
  stops the daemon, instead of being reported as malformed. Text is accepted without the space
  that the grammar demands after the verb.
\<close>

lemma malformed_files_mistreated:
  "parse_result ''drop *:5'' = Some (0, Some []) \<and> parse_result ''drop *'' = Some (0, Some []) \<and>
   parse_result ''drop'' = None \<and> parse_result ''drop * <'' = None \<and> parse_result ''drop *:'' = None \<and>
   parse_result ''dropall'' = parse_result ''drop all''"
proof (intro conjI)
  show "parse_result ''drop *:5'' = Some (0, Some [])" by code_simp
  show "parse_result ''drop *'' = Some (0, Some [])" by code_simp
  show "parse_result ''drop'' = None" by code_simp
  show "parse_result ''drop * <'' = None" by code_simp
  show "parse_result ''drop *:'' = None" by code_simp
  show "parse_result ''dropall'' = parse_result ''drop all''" by code_simp
qed

end
