(* ===== verification/Spec2Isabelle.thy ===== *)
theory Spec2Isabelle
  imports Overlay_Fields Golay_Correct Rotbuf Limit Str Base64 Str_Print Uri Overlay_Address Mdp_Filter_Rules
begin

text \<open>
  Verification of the core of Serval DNA, the mesh daemon of the repository, written in C. Files are
  named relative to src/app/src/main/jni/serval-dna.

  \<^bold>\<open>The program.\<close> The daemon finds neighbours over broadcast interfaces, exchanges overlay packets with them
  and offers services over them (MDP sockets, Rhizome file distribution, VoMP telephony). A packet is
  built in and read from an overlay buffer; it names its subscribers by abbreviated addresses that
  are resolved in a tree of the known subscribers; a rate limiter paces the packets of an interface;
  packets for a serial radio carry headers protected by a Golay code. Identifiers, numbers, URIs and
  Base64 enter and leave as text through string primitives and string buffers.

  \<^bold>\<open>The theories,\<close> each with the source it models:

  \<^item> \<open>Serval_Prelude\<close>: the vocabulary. C integers are words of their width, \<open>size_t\<close> is a natural number with
    its wrap-around written out (\<open>size_add\<close>), a memory object is the list of its bytes read and written
    with \<open>mem_read\<close> and \<open>mem_write\<close>, and \<open>None\<close> is a failed assertion or undefined behaviour: an access outside an
    object, through NULL, or to a shift by the width or more. A result \<open>Some\<close> shows the absence of
    these. Left shifts into the sign bit of an \<open>int\<close> and pointer sums beyond an object, which
    the standard leaves undefined too, are given the two's complement result and the sum in a flat
    address space that the compilers give them.
  \<^item> \<open>Overlay_Buffer\<close> (overlay_buffer.c): the struct as the record \<open>overlay_buffer\<close> and every operation under
    its own name; the results of \<open>malloc\<close> are the argument \<open>al\<close>, an \<open>allocator\<close>.
    \<open>Overlay_Buffer_Correct\<close> holds the invariant \<open>ob_wf\<close>, what an append leaves behind, and the
    contract \<open>ob_codec\<close> of a putter with its getter, interpreted for each integer format.
    \<open>Overlay_Fields\<close> combines them: any sequence of fields is written, flipped and read back; one test
    of \<open>ob_overrun\<close> at the end is enough; getters never read outside the object; and where the code
    fails (\<open>ob_get_ui64\<close>, the packed getters, \<open>ob_dup\<close>).
  \<^item> \<open>Subscriber_Tree\<close> (the first half of overlay_address.c): the radix tree over the nibbles of the ids, with
    pointers to subscribers as indices into a table. \<open>Subscriber_Tree_Correct\<close> holds the invariant
    \<open>tree_wf\<close>, that it is kept, what a lookup finds, and the order of the walks. A tree is \<open>tree_compact\<close> if no
    node below the root holds a lone subscriber; creation keeps it so while memory lasts, and in it exactly
    the unambiguous prefixes are found.
  \<^item> \<open>Overlay_Address\<close> (the second half of overlay_address.c): writing and reading addresses, and the
    please-explain protocol for abbreviations that cannot be resolved, with the tests of the overlay queue
    (overlay_queue.c) on the frames sent. Addresses written by one node are read as the same
    subscribers by another node, with another tree, to which the abbreviations are unambiguous; a received request
    is processed safely whatever its bytes are, and its answer passes the tests of the queue.
  \<^item> \<open>Mdp_Filter\<close> (mdp_filter.c): the packet filter, that is the decisions on packets, the recursive descent parser
    of the rules file over a buffered cursor with pinned positions, and the reloading of the file. The
    loops end because no operation but \<open>retreat\<close> moves the cursor backwards. \<open>Mdp_Filter_Correct\<close> follows the text
    through the cursor and shows that printed rules are parsed back; \<open>Mdp_Filter_Rules\<close> that every rule that is
    accepted is well formed, what the filter decides, and that reloading is safe.
  \<^item> \<open>Golay\<close> and \<open>Golay_Correct\<close> (golay.c): the [23,12] code of the radio link corrects every pattern of at most
    three errors. The minimum distance is shown by evaluating the weights of the codewords.
  \<^item> \<open>Rotbuf\<close> (rotbuf.c, rotbuf.h): reading and writing through the rotated buffer refine reading and writing a
    list; with the overflow of the \<open>wrap\<close> counter.
  \<^item> \<open>Limit\<close> (limit.c): the number of packets allowed in any interval.
  \<^item> \<open>Ctype\<close>, \<open>Str\<close>, \<open>Base64\<close>, \<open>Str_Numbers\<close>, \<open>Str_Print\<close>, \<open>Uri\<close> (str.c, str.h, strbuf_helpers.c): character classes,
    hexadecimal, Base64 over either alphabet (the locale \<open>base64_alphabet\<close>), numbers with their overflow
    tests (the locales \<open>uint_parser\<close> and \<open>exact_uint_parser\<close>), quoting, and URIs. A C string is a \<open>string\<close>,
    a pointer into it the rest of the string from there, and \<open>deref\<close> gives NUL at the end.
  \<^item> \<open>Strbuf\<close> (strbuf.c, strbuf.h): the operations refine appending to an unbounded text that is truncated only
    when it is looked at.
  \<^item> \<open>Data_Formats\<close> (dataformats.c, uuid.c): identifiers, fixed formats and UUIDs.

  \<^bold>\<open>Bounds and fuel.\<close> Loops are recursive functions with a termination proof. \<open>process_explain_loop\<close> has fuel
  because each round reads from the buffer; it gets one round more than there are bytes, and
  \<open>process_explain_safe\<close> shows that this is enough. Lemmas on overlay buffers assume positions up to
  \<open>ob_bound\<close>, \<open>2 ^ 62\<close>, so that adding a length does not wrap around \<open>size_t\<close>. Clocks, allocators and random
  bytes are arguments of the definitions.

  \<^bold>\<open>Not modelled.\<close> Third-party code in the tree (NaCl, SQLite, fec, codec2, opus, libnl, iw, wireless tools,
  the ifconfig and edify utilities); the Java application; code that is mostly system calls or depends on
  those libraries: sockets and interfaces, the HTTP server and the RESTful interfaces, the Rhizome store over
  SQLite, the keyring and its cryptography, the command line, logging, configuration files and the
  telephony and stream services on top of MDP. In modelled files, logging is left out, and so are
  \<open>free_subscribers\<close>, what the overlay queue does with a frame that it has accepted, and the debugging dumps.
\<close>

end
